(* ===== verification/Pg_Prelude.thy ===== *)
theory Pg_Prelude
  imports Main "HOL-Library.Word" "HOL-Library.Signed_Division" "HOL-Library.Monad_Syntax"
begin

text \<open>
  Shared ground of the development: the C integer types the daemon uses, the C operators that the
  word library does not have (truncating division), and the lemmas that move a statement about
  machine words to the integers they denote.  A signed C type and the unsigned type of the same
  width share one word type; the signedness is in the operator (\<open><s\<close>, \<open>\<le>s\<close>, \<open>sint\<close>,
  \<open>scast\<close>, \<open>signed_drop_bit\<close> against \<open><\<close>, \<open>\<le>\<close>, \<open>uint\<close>, \<open>ucast\<close>, \<open>drop_bit\<close>).
  Addition, subtraction and multiplication wrap around, as the compiled code does on its two
  targets; where C leaves a signed overflow undefined, the lemmas that use \<open>no_wrap\<close> show that it
  does not happen on the ranges the daemon works with.
\<close>

unbundle bit_operations_syntax

type_synonym u8 = "8 word"
type_synonym i32 = "32 word"
type_synonym u32 = "32 word"
type_synonym i64 = "64 word"
type_synonym u64 = "64 word"
type_synonym u128 = "128 word"
type_synonym q16 = "32 word"
type_synonym q32 = "64 word"

text \<open>Limits of the signed types, and errno values of the target (Linux).\<close>

abbreviation INT32_MAX :: "32 word" where
  "INT32_MAX \<equiv> 0x7FFFFFFF"

abbreviation INT32_MIN :: "32 word" where
  "INT32_MIN \<equiv> 0x80000000"

abbreviation UINT64_MAX :: "64 word" where
  "UINT64_MAX \<equiv> - 1"

text \<open>C's \<open>/\<close> on signed operands: the quotient truncated towards zero.\<close>

definition word_sdiv :: "'a::len word \<Rightarrow> 'a word \<Rightarrow> 'a word" where
  "word_sdiv a b = word_of_int (sint a sdiv sint b)"

text \<open>
  Collections: \<open>sint_push\<close> moves \<open>sint\<close> through the word operators, leaving the explicit
  wrap-around \<open>signed_take_bit\<close>; \<open>sint_cmp\<close> turns signed comparisons into integer ones;
  \<open>uint_push\<close> is the same for the unsigned reading; \<open>q16_consts\<close> evaluates the constants.
\<close>

named_theorems sint_push \<open>sint of a word operation\<close>
named_theorems sint_cmp \<open>signed comparisons of words as integer comparisons\<close>
named_theorems uint_push \<open>uint of a word operation\<close>
named_theorems q16_consts \<open>values of the fixed-point constants\<close>

lemmas word_signed_order [sint_cmp] = word_sless_alt word_sle_eq

lemma sint_add [sint_push]: "sint (a + b) = signed_take_bit (LENGTH('a) - 1) (sint a + sint b)"
  for a b :: "'a::len word"
  by (rule sint_word_add)

lemma sint_diff [sint_push]: "sint (a - b) = signed_take_bit (LENGTH('a) - 1) (sint a - sint b)"
  for a b :: "'a::len word"
  by (rule sint_word_diff)

lemma sint_mult [sint_push]: "sint (a * b) = signed_take_bit (LENGTH('a) - 1) (sint a * sint b)"
  for a b :: "'a::len word"
  by (rule sint_word_mult)

lemma sint_neg [sint_push]: "sint (- a) = signed_take_bit (LENGTH('a) - 1) (- sint a)"
  for a :: "'a::len word"
  by (rule sint_word_minus)

lemma sint_shr [sint_push]: "sint (signed_drop_bit n a) = sint a div 2 ^ n"
  by (simp add: sint_signed_drop_bit_eq drop_bit_eq_div)

lemma sint_word_sdiv [sint_push]:
  "sint (word_sdiv a b) = signed_take_bit (LENGTH('a) - 1) (sint a sdiv sint b)"
  for a b :: "'a::len word"
  by (simp add: word_sdiv_def sint_sbintrunc')

lemma sint_scast_up:
  assumes "LENGTH('a) \<le> LENGTH('b)"
  shows "sint (scast (a :: 'a::len word) :: 'b::len word) = sint a"
proof -
  have le: "(2::int) ^ (LENGTH('a) - 1) \<le> 2 ^ (LENGTH('b) - 1)"
    using assms by (intro power_increasing diff_le_mono) simp_all
  have "sint a < 2 ^ (LENGTH('b) - 1)"
    using sint_lt le by (rule less_le_trans)
  moreover have "- (2 ^ (LENGTH('b) - 1)) \<le> sint a"
    using neg_le_iff_le [THEN iffD2, OF le] sint_ge by (rule order_trans)
  ultimately have "signed_take_bit (LENGTH('b) - 1) (sint a) = sint a"
    by (rule signed_take_bit_int_eq_self [rotated])
  then show ?thesis
    by (simp only: scast_eq sint_sbintrunc')
qed

lemma sint_scast_32_64 [sint_push, simp]: "sint (scast (a :: 32 word) :: 64 word) = sint a"
  by (rule sint_scast_up) simp

lemma sint_scast_64_128 [sint_push, simp]: "sint (scast (a :: 64 word) :: 128 word) = sint a"
  by (rule sint_scast_up) simp

lemma sint_ucast_64_32 [sint_push]:
  "sint (ucast (a :: 64 word) :: 32 word) = signed_take_bit 31 (sint a)"
  by transfer (simp add: signed_take_bit_take_bit min_def)

text \<open>The no-overflow rules: inside the range of the type the wrap-around is the identity.\<close>

lemma no_wrap32: "- 2147483648 \<le> k \<Longrightarrow> k \<le> 2147483647 \<Longrightarrow> signed_take_bit 31 k = (k :: int)"
  by (rule signed_take_bit_int_eq_self) simp_all

lemma no_wrap64:
  "- 9223372036854775808 \<le> k \<Longrightarrow> k \<le> 9223372036854775807 \<Longrightarrow> signed_take_bit 63 k = (k :: int)"
  by (rule signed_take_bit_int_eq_self) simp_all

lemmas no_wrap = no_wrap32 no_wrap64

lemma sint32_range: "- 2147483648 \<le> sint (a :: 32 word)" "sint (a :: 32 word) \<le> 2147483647"
  using sint_ge [of a] sint_lt [of a] by simp_all

lemma sint64_range:
  "- 9223372036854775808 \<le> sint (a :: 64 word)" "sint (a :: 64 word) \<le> 9223372036854775807"
  using sint_ge [of a] sint_lt [of a] by simp_all

lemma sint_eq_uint_32: "0 \<le> sint (a :: 32 word) \<Longrightarrow> uint a = sint a"
  using sint32_range [of a] by (simp add: uint_sint take_bit_int_eq_self)

lemma sint_inj: "sint a = sint b \<longleftrightarrow> a = (b :: 'a::len word)"
  by (auto dest: signed_word_eqI)

lemma word_neq_0_sint: "a \<noteq> 0 \<longleftrightarrow> sint a \<noteq> 0" for a :: "'a::len word"
  using sint_inj [of a 0] by simp

text \<open>Truncating and flooring division by a positive divisor.\<close>

lemma sdiv_nonneg: "0 \<le> a \<Longrightarrow> 0 < b \<Longrightarrow> a sdiv b = a div (b :: int)"
  by (simp add: signed_divide_int_def sgn_if)

lemma sdiv_neg: "a < 0 \<Longrightarrow> 0 < b \<Longrightarrow> a sdiv b = - ((- a) div (b :: int))"
  by (simp add: signed_divide_int_def sgn_if)

lemma sdiv_mono: "0 < b \<Longrightarrow> x \<le> y \<Longrightarrow> x sdiv b \<le> y sdiv (b :: int)"
proof -
  assume b: "0 < b" and le: "x \<le> y"
  consider "0 \<le> x" | "x < 0" "0 \<le> y" | "y < 0"
    by linarith
  then show ?thesis
  proof cases
    case 1
    then show ?thesis using b le by (simp add: sdiv_nonneg zdiv_mono1)
  next
    case 2
    then have "0 \<le> (- x) div b" "0 \<le> y div b"
      using b by (simp_all add: pos_imp_zdiv_nonneg_iff)
    then show ?thesis using b 2 by (simp add: sdiv_nonneg sdiv_neg)
  next
    case 3
    then show ?thesis using b le by (simp add: sdiv_neg zdiv_mono1)
  qed
qed

lemma sdiv_abs_le: "0 < b \<Longrightarrow> \<bar>a sdiv b\<bar> \<le> \<bar>a\<bar>" for a b :: int
  using sdiv_int_range [of a b] by auto

lemma div_le_self: "0 \<le> a \<Longrightarrow> 0 < b \<Longrightarrow> a div b \<le> (a :: int)"
  using int_div_less_self [of a b] by (cases "b = 1"; cases "a = 0") auto

lemma unat_ucast_32_64: "unat (ucast (x :: 32 word) :: 64 word) = unat x"
proof -
  have "unat x < 2 ^ 64" using unsigned_less [of x, where ?'a = nat] by simp
  then show ?thesis by (simp add: unsigned_ucast_eq take_bit_nat_eq_self)
qed

lemma unat_ucast_64_128: "unat (ucast (x :: 64 word) :: 128 word) = unat x"
proof -
  have "unat x < 18446744073709551616" using unsigned_less [of x, where ?'a = nat] by simp
  then have "unat x < 2 ^ 128" by simp
  then show ?thesis by (simp add: unsigned_ucast_eq take_bit_nat_eq_self)
qed

end
