(* ===== verification/Pg_Math.thy ===== *)
theory Pg_Math
  imports Pg_Prelude
begin

text \<open>
  The fixed-point arithmetic of \<^verbatim>\<open>include/pg/math.h\<close>: Q16.16 values in 32-bit words, Q32.32
  values in 64-bit words, the saturation and curve primitives and the two sanitizers.  The lemmas
  give the integer meaning of each primitive, its range, and the agreement of the two builds of
  \<open>q32_mul\<close>.
\<close>

section \<open>Constants and conversions\<close>

text \<open>
  \<open>FLOAT_TO_Q16\<close> is applied to decimal literals only.  A literal is given as the fraction
  \<open>n / d\<close>; it is rounded to a binary32 significand (24 bits, ties to even), the product with
  65536 is exact, and the cast truncates.
\<close>

fun f32_exp :: "nat \<Rightarrow> nat \<Rightarrow> nat \<Rightarrow> nat" where
  "f32_exp 0 n d = 0"
| "f32_exp (Suc k) n d = (if 2 ^ 23 * d \<le> n then 0 else Suc (f32_exp k (2 * n) d))"

lemma f32_exp_numeral [q16_consts]:
  "f32_exp (numeral k) n d = (if 2 ^ 23 * d \<le> n then 0 else Suc (f32_exp (pred_numeral k) (2 * n) d))"
  by (simp only: numeral_eq_Suc [of k] f32_exp.simps)

definition round_half_even :: "nat \<Rightarrow> nat \<Rightarrow> nat" where
  "round_half_even n d =
     (let q = n div d; r = n mod d
      in if 2 * r < d \<or> (2 * r = d \<and> even q) then q else q + 1)"

definition FLOAT_TO_Q16 :: "nat \<Rightarrow> nat \<Rightarrow> q16" where
  "FLOAT_TO_Q16 n d =
     (let e = f32_exp 149 n d; m = round_half_even (n * 2 ^ e) d
      in word_of_nat (m * 65536 div 2 ^ e))"

definition INT_TO_Q16 :: "i32 \<Rightarrow> q16" where
  "INT_TO_Q16 i = i * 65536"

definition Q16_TO_INT :: "q16 \<Rightarrow> i32" where
  "Q16_TO_INT q = signed_drop_bit 16 q"

definition Q16_TO_Q32 :: "q16 \<Rightarrow> q32" where
  "Q16_TO_Q32 q = scast q * 65536"

definition Q32_TO_Q16 :: "q32 \<Rightarrow> q16" where
  "Q32_TO_Q16 q = ucast (signed_drop_bit 16 q)"

abbreviation Q16_ONE :: q16 where
  "Q16_ONE \<equiv> 65536"

abbreviation Q16_HALF :: q16 where
  "Q16_HALF \<equiv> 32768"

section \<open>Q16 and Q32 arithmetic\<close>

definition abs_q16 :: "q16 \<Rightarrow> q16" where
  "abs_q16 x = (if x = INT32_MIN then INT32_MAX else if x <s 0 then - x else x)"

definition q16_mul :: "q16 \<Rightarrow> q16 \<Rightarrow> q16" where
  "q16_mul a b = ucast (signed_drop_bit 16 ((scast a :: q32) * scast b))"

definition q16_div :: "q16 \<Rightarrow> q16 \<Rightarrow> q16" where
  "q16_div a b =
     (if b = 0 then (if 0 \<le>s a then INT32_MAX else INT32_MIN)
      else ucast (word_sdiv ((scast a :: q32) * 65536) (scast b)))"

text \<open>The two builds of \<open>q32_mul\<close>: with 128-bit integers, and from 32-bit partial products.\<close>

definition q32_mul :: "q32 \<Rightarrow> q32 \<Rightarrow> q32" where
  "q32_mul a b = ucast (drop_bit 32 ((scast a :: u128) * scast b))"

definition q32_mul_portable :: "q32 \<Rightarrow> q32 \<Rightarrow> q32" where
  "q32_mul_portable a b =
     (let al = ucast (ucast a :: u32) :: u64;
          ah = drop_bit 32 a;
          bl = ucast (ucast b :: u32) :: u64;
          bh = drop_bit 32 b;
          ll = al * bl;
          hl = ah * bl;
          lh = al * bh;
          hh = ah * bh;
          mid = hl + lh + drop_bit 32 ll;
          res = push_bit 32 hh + mid;
          res = (if a <s 0 then res - push_bit 32 b else res);
          res = (if b <s 0 then res - push_bit 32 a else res)
      in res)"

section \<open>Shaping primitives\<close>

definition pg_math_clamp :: "q16 \<Rightarrow> q16 \<Rightarrow> q16 \<Rightarrow> q16" where
  "pg_math_clamp val mn mx = (if val <s mn then mn else if mx <s val then mx else val)"

text \<open>\<open>__builtin_clzll\<close>: the number of leading zero bits, for a non-zero argument.\<close>

fun clz_from :: "nat \<Rightarrow> u64 \<Rightarrow> nat" where
  "clz_from 0 v = 0"
| "clz_from (Suc i) v = (if bit v i then 0 else Suc (clz_from i v))"

definition builtin_clzll :: "u64 \<Rightarrow> nat" where
  "builtin_clzll v = clz_from 64 v"

function isqrt_loop :: "u64 \<Rightarrow> u64 \<Rightarrow> u64 \<Rightarrow> u64" where
  "isqrt_loop val res b =
     (if b \<noteq> 0
      then (if res + b \<le> val
            then isqrt_loop (val - (res + b)) (drop_bit 1 res + b) (drop_bit 2 b)
            else isqrt_loop val (drop_bit 1 res) (drop_bit 2 b))
      else res)"
  by pat_completeness auto
termination
proof (relation "measure (\<lambda>(val, res, b). unat b)")
  fix val res b :: u64
  assume "b \<noteq> 0"
  then have "0 < unat b"
    by (simp add: unat_gt_0)
  then have "unat (drop_bit 2 b) < unat b"
    by (simp only: unat_drop_bit_eq) (simp add: drop_bit_eq_div)
  then show "((val - (res + b), drop_bit 1 res + b, drop_bit 2 b), (val, res, b))
      \<in> measure (\<lambda>(val, res, b). unat b)"
    and "((val, drop_bit 1 res, drop_bit 2 b), (val, res, b))
      \<in> measure (\<lambda>(val, res, b). unat b)"
    by simp_all
qed simp

declare isqrt_loop.simps [simp del]

definition pg_math_isqrt64 :: "u64 \<Rightarrow> u64" where
  "pg_math_isqrt64 val =
     (if val = 0 then 0
      else let shift = nat ((63 - int (builtin_clzll val)) AND NOT 1);
               b = push_bit shift 1
           in isqrt_loop val 0 b)"

definition pg_math_q16_sqrt :: "q16 \<Rightarrow> q16" where
  "pg_math_q16_sqrt x =
     (if x \<le>s 0 then 0 else ucast (pg_math_isqrt64 (push_bit 16 (scast x))))"

definition pg_math_sigmoid :: "q16 \<Rightarrow> q16 \<Rightarrow> q16 \<Rightarrow> q16" where
  "pg_math_sigmoid val k mid =
     (let x = q16_mul k (val - mid);
          ax = (if 0 \<le>s x then x else - x);
          den = Q16_ONE + ax;
          frc = q16_div x den
      in signed_drop_bit 1 (frc + Q16_ONE))"

definition pg_math_decay :: "q16 \<Rightarrow> q16 \<Rightarrow> q16" where
  "pg_math_decay val coeff =
     (let x = q16_mul coeff val
      in if x <s 0 then Q16_ONE
         else if INT_TO_Q16 180 \<le>s x then 0
         else let x2 = q16_mul x x;
                  den = Q16_ONE + x + signed_drop_bit 1 x2
              in q16_div Q16_ONE den)"

definition pg_math_alg_sig :: "q16 \<Rightarrow> q16" where
  "pg_math_alg_sig x =
     (if INT_TO_Q16 180 \<le>s x then Q16_ONE
      else if x \<le>s - INT_TO_Q16 180 then - Q16_ONE
      else let x2 = q16_mul x x;
               den = pg_math_q16_sqrt (Q16_ONE + x2)
           in if den = 0 then (if 0 \<le>s x then Q16_ONE else - Q16_ONE)
              else q16_div x den)"

definition pg_math_san_u64 :: "q16 \<Rightarrow> u64 \<Rightarrow> u64" where
  "pg_math_san_u64 val fallback =
     (if val <s 0 then fallback else scast (signed_drop_bit 16 (val + Q16_HALF)))"

definition pg_math_san_quant_u64 :: "q16 \<Rightarrow> q16 \<Rightarrow> u64 \<Rightarrow> u64" where
  "pg_math_san_quant_u64 val fallback step =
     (let sv = (if val <s 0 then fallback else val);
          v_ns = drop_bit 16 ((scast sv :: u64) * 1000000)
      in if step \<le> 1 then v_ns
         else if step AND (step - 1) = 0
           then (v_ns + drop_bit 1 step) AND NOT (step - 1)
         else let rem = v_ns mod step
              in if drop_bit 1 step \<le> rem then v_ns + step - rem else v_ns - rem)"

definition pg_math_lerp :: "q16 \<Rightarrow> q16 \<Rightarrow> q16 \<Rightarrow> q16" where
  "pg_math_lerp mn mx v = (let rng = mx - mn in mn + q16_mul rng v)"


section \<open>Values of the literals\<close>

text \<open>Every literal the sources pass to \<open>FLOAT_TO_Q16\<close>, evaluated.\<close>

lemma float_literals:
  "FLOAT_TO_Q16 0 1 = 0"
  "FLOAT_TO_Q16 1 10000 = 6"
  "FLOAT_TO_Q16 1 1000 = 65"
  "FLOAT_TO_Q16 5 1000 = 327"
  "FLOAT_TO_Q16 95 10000 = 622"
  "FLOAT_TO_Q16 1 100 = 655"
  "FLOAT_TO_Q16 15 1000 = 983"
  "FLOAT_TO_Q16 19 1000 = 1245"
  "FLOAT_TO_Q16 4 100 = 2621"
  "FLOAT_TO_Q16 5 100 = 3276"
  "FLOAT_TO_Q16 72 1000 = 4718"
  "FLOAT_TO_Q16 8 100 = 5242"
  "FLOAT_TO_Q16 95 1000 = 6225"
  "FLOAT_TO_Q16 1 10 = 6553"
  "FLOAT_TO_Q16 115 1000 = 7536"
  "FLOAT_TO_Q16 12 100 = 7864"
  "FLOAT_TO_Q16 17 100 = 11141"
  "FLOAT_TO_Q16 185 1000 = 12124"
  "FLOAT_TO_Q16 2 10 = 13107"
  "FLOAT_TO_Q16 25 100 = 16384"
  "FLOAT_TO_Q16 34 100 = 22282"
  "FLOAT_TO_Q16 4 10 = 26214"
  "FLOAT_TO_Q16 45 100 = 29491"
  "FLOAT_TO_Q16 5 10 = 32768"
  "FLOAT_TO_Q16 58 100 = 38010"
  "FLOAT_TO_Q16 6 10 = 39321"
  "FLOAT_TO_Q16 61 100 = 39976"
  "FLOAT_TO_Q16 82 100 = 53739"
  "FLOAT_TO_Q16 85 100 = 55705"
  "FLOAT_TO_Q16 9 10 = 58982"
  "FLOAT_TO_Q16 95 100 = 62259"
  "FLOAT_TO_Q16 99 100 = 64880"
  "FLOAT_TO_Q16 1 1 = 65536"
  "FLOAT_TO_Q16 12 10 = 78643"
  "FLOAT_TO_Q16 13 10 = 85196"
  "FLOAT_TO_Q16 15 10 = 98304"
  "FLOAT_TO_Q16 195 100 = 127795"
  "FLOAT_TO_Q16 2 1 = 131072"
  "FLOAT_TO_Q16 25 10 = 163840"
  "FLOAT_TO_Q16 27 10 = 176947"
  "FLOAT_TO_Q16 3 1 = 196608"
  "FLOAT_TO_Q16 31 10 = 203161"
  "FLOAT_TO_Q16 35 10 = 229376"
  "FLOAT_TO_Q16 4 1 = 262144"
  "FLOAT_TO_Q16 65 10 = 425984"
  "FLOAT_TO_Q16 68 10 = 445644"
  "FLOAT_TO_Q16 8 1 = 524288"
  "FLOAT_TO_Q16 10 1 = 655360"
  "FLOAT_TO_Q16 12 1 = 786432"
  "FLOAT_TO_Q16 16 1 = 1048576"
  "FLOAT_TO_Q16 175 10 = 1146880"
  "FLOAT_TO_Q16 20 1 = 1310720"
  "FLOAT_TO_Q16 25 1 = 1638400"
  "FLOAT_TO_Q16 31 1 = 2031616"
  "FLOAT_TO_Q16 38 1 = 2490368"
  "FLOAT_TO_Q16 40 1 = 2621440"
  "FLOAT_TO_Q16 405 10 = 2654208"
  "FLOAT_TO_Q16 42 1 = 2752512"
  "FLOAT_TO_Q16 45 1 = 2949120"
  "FLOAT_TO_Q16 525 10 = 3440640"
  "FLOAT_TO_Q16 575 10 = 3768320"
  "FLOAT_TO_Q16 90 1 = 5898240"
  "FLOAT_TO_Q16 97 1 = 6356992"
  "FLOAT_TO_Q16 384 1 = 25165824"
  "FLOAT_TO_Q16 1024 1 = 67108864"
  by (simp_all add: FLOAT_TO_Q16_def round_half_even_def f32_exp_numeral Let_def)

lemmas float_literals_simps [q16_consts] = float_literals float_literals [unfolded One_nat_def]

lemma sint_abs_q16: "sint (abs_q16 x) = min \<bar>sint x\<bar> 2147483647"
proof (cases "x = INT32_MIN")
  case True
  then show ?thesis by (simp add: abs_q16_def)
next
  case False
  then have "sint x \<noteq> - 2147483648"
    using sint_inj [of x INT32_MIN] by simp
  then show ?thesis
    using False sint32_range [of x]
    by (auto simp: abs_q16_def sint_cmp sint_push no_wrap)
qed

lemma abs_q16_nonneg: "0 \<le> sint (abs_q16 x)"
  by (simp add: sint_abs_q16)

lemma mult_abs_le: "\<bar>a\<bar> \<le> m \<Longrightarrow> \<bar>b\<bar> \<le> n \<Longrightarrow> \<bar>a * b\<bar> \<le> m * n" for a b m n :: int
  by (simp add: abs_mult mult_mono)

lemma sint_mult_32_64: "sint ((scast (a :: 32 word) :: 64 word) * scast (b :: 32 word)) = sint a * sint b"
proof -
  have "\<bar>sint a * sint b\<bar> \<le> 2147483648 * 2147483648"
    using sint32_range [of a] sint32_range [of b] by (intro mult_abs_le) linarith+
  then show ?thesis
    by (simp add: sint_push no_wrap abs_le_iff)
qed

lemma sint_q16_mul [sint_push]:
  "sint (q16_mul a b) = signed_take_bit 31 (sint a * sint b div 65536)"
  by (simp add: q16_mul_def sint_ucast_64_32 sint_shr sint_mult_32_64)

lemma sint_q16_mul_exact:
  assumes "- 140737488355328 \<le> sint a * sint b" and "sint a * sint b < 140737488355328"
  shows "sint (q16_mul a b) = sint a * sint b div 65536"
  unfolding sint_q16_mul using assms by (intro no_wrap) linarith+

lemma q16_mul_comm: "q16_mul a b = q16_mul b a"
  by (simp add: q16_mul_def mult.commute)

lemma q16_mul_0 [simp]: "q16_mul a 0 = 0" "q16_mul 0 a = 0"
  by (simp_all add: q16_mul_def)

lemma sint_mult_ONE_64: "sint ((scast (a :: 32 word) :: 64 word) * 65536) = sint a * 65536"
  using sint32_range [of a] by (simp add: sint_push no_wrap)

lemma sint_q16_div [sint_push]:
  assumes "b \<noteq> 0"
  shows "sint (q16_div a b) = signed_take_bit 31 ((sint a * 65536) sdiv sint b)"
proof -
  have "\<bar>(sint a * 65536) sdiv sint b\<bar> \<le> \<bar>sint a * 65536\<bar>"
    using sdiv_int_range [of "sint a * 65536" "sint b"] by auto
  then have "- 9223372036854775808 \<le> (sint a * 65536) sdiv sint b"
      "(sint a * 65536) sdiv sint b \<le> 9223372036854775807"
    using sint32_range [of a] by linarith+
  then show ?thesis
    using assms by (simp add: q16_div_def sint_ucast_64_32 sint_word_sdiv sint_mult_ONE_64 no_wrap)
qed

lemma sint_Q16_TO_Q32: "sint (Q16_TO_Q32 q) = sint q * 65536"
  by (simp add: Q16_TO_Q32_def sint_mult_ONE_64)

lemma sint_Q32_TO_Q16 [sint_push]: "sint (Q32_TO_Q16 q) = signed_take_bit 31 (sint q div 65536)"
  by (simp add: Q32_TO_Q16_def sint_ucast_64_32 sint_shr)

lemma sint_Q16_TO_INT: "sint (Q16_TO_INT q) = sint q div 65536"
  by (simp add: Q16_TO_INT_def sint_shr)

lemma sint_INT_TO_Q16 [sint_push]: "sint (INT_TO_Q16 i) = signed_take_bit 31 (sint i * 65536)"
  by (simp add: INT_TO_Q16_def sint_push)

lemma INT_TO_Q16_numeral [q16_consts]:
  "INT_TO_Q16 (numeral n) = numeral n * 65536" "INT_TO_Q16 1 = 65536" "INT_TO_Q16 0 = 0"
  "INT_TO_Q16 (- numeral n) = - (numeral n * 65536)"
  by (simp_all add: INT_TO_Q16_def)

section \<open>clamp\<close>
lemma sint_clamp: "sint mn \<le> sint mx \<Longrightarrow> sint (pg_math_clamp v mn mx) = max (sint mn) (min (sint mx) (sint v))"
  by (auto simp: pg_math_clamp_def sint_cmp)

lemma clamp_range:
  assumes "sint mn \<le> sint mx"
  shows "sint mn \<le> sint (pg_math_clamp v mn mx)" "sint (pg_math_clamp v mn mx) \<le> sint mx"
  using assms by (auto simp: pg_math_clamp_def sint_cmp)

lemma clamp_id: "sint mn \<le> sint v \<Longrightarrow> sint v \<le> sint mx \<Longrightarrow> pg_math_clamp v mn mx = v"
  by (simp add: pg_math_clamp_def sint_cmp)

lemma clamp_cases: "pg_math_clamp v mn mx \<in> {v, mn, mx}"
  by (simp add: pg_math_clamp_def)

lemma drop_ucast_128: "(ucast (drop_bit 32 (word_of_int k :: 128 word)) :: 64 word) = word_of_int (k div 2 ^ 32)"
proof -
  have "(ucast (drop_bit 32 (word_of_int k :: 128 word)) :: 64 word) = word_of_int (drop_bit 32 k)"
    by (rule bit_word_eqI) (simp add: bit_simps)
  then show ?thesis by (simp add: drop_bit_eq_div)
qed

lemma q32_mul_eq: "q32_mul a b = word_of_int (sint a * sint b div 2 ^ 32)"
proof -
  have "(scast a :: u128) * scast b = word_of_int (sint a * sint b)"
    by (simp add: scast_eq flip: of_int_mult del: of_int_sint)
  then show ?thesis by (simp only: q32_mul_def drop_ucast_128)
qed

lemma sint_q32_mul [sint_push]: "sint (q32_mul a b) = signed_take_bit 63 (sint a * sint b div 4294967296)"
  by (simp add: q32_mul_eq sint_sbintrunc' del: of_int_sint)

text \<open>The unsigned partial products sum to the unsigned product shifted right.\<close>

lemma partial_products:
  fixes a b :: int
  defines "ah \<equiv> a div 2 ^ 32" and "al \<equiv> a mod 2 ^ 32" and "bh \<equiv> b div 2 ^ 32" and "bl \<equiv> b mod 2 ^ 32"
  shows "ah * bh * 2 ^ 32 + (ah * bl + al * bh + al * bl div 2 ^ 32) = a * b div 2 ^ 32"
proof -
  have "a = ah * 2 ^ 32 + al" "b = bh * 2 ^ 32 + bl"
    unfolding ah_def al_def bh_def bl_def by simp_all
  then have "a * b = al * bl + 2 ^ 32 * (ah * bh * 2 ^ 32 + ah * bl + al * bh)"
    by (simp add: algebra_simps)
  then have "a * b div 2 ^ 32 = al * bl div 2 ^ 32 + (ah * bh * 2 ^ 32 + ah * bl + al * bh)"
    by (simp only: div_mult_self2 zero_neq_numeral power_not_zero not_False_eq_True)
  then show ?thesis by simp
qed

lemma low_word: "(ucast (ucast (a :: u64) :: u32) :: u64) = word_of_int (uint a mod 2 ^ 32)"
  by (rule word_uint_eqI) (simp add: unsigned_ucast_eq take_bit_eq_mod uint_word_of_int uint_mod_distrib)

lemma high_word: "drop_bit 32 (a :: u64) = word_of_int (uint a div 2 ^ 32)"
proof -
  have "drop_bit 32 (a :: u64) = word_of_int (drop_bit 32 (uint a))"
    by (rule bit_word_eqI) (simp add: bit_simps)
  then show ?thesis by (simp only: drop_bit_eq_div)
qed

lemma uint_sint_64: "uint (a :: u64) = sint a + (if a <s 0 then 2 ^ 64 else 0)"
proof -
  have "uint a = sint a mod 2 ^ 64"
    using uint_sint [of a] by (simp add: take_bit_eq_mod)
  also have "\<dots> = sint a + (if a <s 0 then 2 ^ 64 else 0)"
  proof (cases "sint a < 0")
    case True
    have "sint a mod 2 ^ 64 = (sint a + 2 ^ 64) mod 2 ^ 64" by simp
    also have "\<dots> = sint a + 2 ^ 64"
      using True sint64_range [of a] by (intro mod_pos_pos_trivial) simp_all
    finally show ?thesis using True by (simp add: sint_cmp)
  next
    case False
    then show ?thesis
      using sint64_range [of a] by (simp add: sint_cmp mod_pos_pos_trivial)
  qed
  finally show ?thesis .
qed

lemma portable_unsigned:
  "push_bit 32 (drop_bit 32 a * drop_bit 32 b) + (drop_bit 32 a * (ucast (ucast b :: u32) :: u64)
     + (ucast (ucast a :: u32) :: u64) * drop_bit 32 b
     + drop_bit 32 ((ucast (ucast a :: u32) :: u64) * (ucast (ucast b :: u32) :: u64)))
   = (word_of_int (uint a * uint b div 2 ^ 32) :: u64)"
proof -
  let ?al = "uint a mod 2 ^ 32" and ?bl = "uint b mod 2 ^ 32"
  have "?al * ?bl < 2 ^ 32 * 2 ^ 32"
    by (intro mult_strict_mono) simp_all
  then have "uint (word_of_int (?al * ?bl) :: u64) = ?al * ?bl"
    by (simp add: uint_word_of_int mod_pos_pos_trivial del: of_int_mult)
  then have ll: "drop_bit 32 (word_of_int (?al * ?bl) :: u64) = word_of_int (?al * ?bl div 2 ^ 32)"
    by (simp only: high_word)
  show ?thesis
    unfolding low_word
    by (simp only: high_word [of a] high_word [of b] push_bit_eq_mult of_int_mult [symmetric] ll
        partial_products [of "uint a" "uint b", symmetric])
      (simp only: of_int_add of_int_mult of_int_power of_int_numeral)
qed

lemma q32_mul_portable_eq: "q32_mul_portable a b = word_of_int (sint a * sint b div 2 ^ 32)"
proof -
  let ?x = "if a <s 0 then 2 ^ 64 else (0::int)" and ?y = "if b <s 0 then 2 ^ 64 else (0::int)"
  have "uint a * uint b = sint a * sint b + (2 ^ 32 * (2 ^ 32 * ((if a <s 0 then 1 else 0) * uint b + (if b <s 0 then 1 else 0) * uint a)
     - 2 ^ 96 * ((if a <s 0 then 1 else 0) * (if b <s 0 then 1 else 0))))"
    by (simp add: uint_sint_64 algebra_simps)
  then have "uint a * uint b div 2 ^ 32 = sint a * sint b div 2 ^ 32 + (2 ^ 32 * ((if a <s 0 then 1 else 0) * uint b + (if b <s 0 then 1 else 0) * uint a)
     - 2 ^ 96 * ((if a <s 0 then 1 else 0) * (if b <s 0 then 1 else 0)))"
    by (simp only: div_mult_self2 zero_neq_numeral power_not_zero not_False_eq_True)
  then have "(word_of_int (uint a * uint b div 2 ^ 32) :: u64) = word_of_int (sint a * sint b div 2 ^ 32)
     + 2 ^ 32 * ((if a <s 0 then 1 else 0) * b + (if b <s 0 then 1 else 0) * a)"
    by (simp del: of_int_sint)
  then show ?thesis
    unfolding q32_mul_portable_def Let_def portable_unsigned
    by (simp add: push_bit_eq_mult)
qed

section \<open>The integer square root\<close>

lemma clz_from_bits: "i - clz_from i v \<le> j \<Longrightarrow> j < i \<Longrightarrow> \<not> bit v j"
  by (induction i v rule: clz_from.induct) (auto simp: less_Suc_eq split: if_splits)

lemma clz_from_le: "clz_from i v \<le> i"
  by (induction i v rule: clz_from.induct) auto

lemma clz_from_full: "clz_from i v = i \<Longrightarrow> j < i \<Longrightarrow> \<not> bit v j"
  using clz_from_bits [of i v j] by simp

lemma unat_less_clz: "unat v < 2 ^ (64 - builtin_clzll v)"
proof -
  have "v = take_bit (64 - builtin_clzll v) v"
    by (rule bit_word_eqI)
      (use clz_from_bits [of 64 v] in \<open>auto simp: bit_simps builtin_clzll_def not_le intro: leI\<close>)
  then have "unat v = take_bit (64 - builtin_clzll v) (unat v)"
    by (metis unsigned_take_bit_eq)
  then show ?thesis by (metis take_bit_nat_less_exp)
qed

lemma clzll_less: "v \<noteq> 0 \<Longrightarrow> builtin_clzll v < 64"
proof (rule ccontr)
  assume "v \<noteq> 0" and "\<not> builtin_clzll v < 64"
  then have "clz_from 64 v = 64"
    using clz_from_le [of 64 v] by (simp add: builtin_clzll_def)
  then have "v = 0"
    by (intro bit_word_eqI) (auto dest: clz_from_full)
  with \<open>v \<noteq> 0\<close> show False by simp
qed

lemma sq_step: "(R + 2 ^ m)\<^sup>2 = R\<^sup>2 + (R * 2 ^ Suc m + 4 ^ m)" for R m :: nat
proof -
  have "(4::nat) ^ m = (2 ^ m)\<^sup>2" by (simp add: power2_eq_square flip: power_mult_distrib)
  then show ?thesis by (simp add: power2_sum algebra_simps)
qed

lemma isqrt_loop_inv:
  assumes "unat b = (if k = 0 then 0 else 4 ^ (k - 1))"
    and "R\<^sup>2 \<le> N" and "N < (R + 2 ^ k)\<^sup>2" and "R + 2 ^ k \<le> 2 ^ 32"
    and "unat val = N - R\<^sup>2" and "unat res = R * 2 ^ k"
  shows "(unat (isqrt_loop val res b))\<^sup>2 \<le> N \<and> N < (unat (isqrt_loop val res b) + 1)\<^sup>2"
  using assms
proof (induction k arbitrary: val res b R)
  case 0
  then have "b = 0" by (simp add: unat_eq_zero)
  with 0 show ?case by (simp add: isqrt_loop.simps)
next
  case (Suc m)
  have b: "unat b = 4 ^ m" using Suc.prems(1) by simp
  have lt: "2 ^ Suc m < (2::nat) ^ 33" using Suc.prems(4) by simp
  then have m: "m < 32"
    by (metis Suc_less_SucD Suc_numeral nat_power_less_imp_less semiring_norm(5) zero_less_numeral
        add_One_commute numeral_plus_one semiring_norm(2))
  have b2: "unat (drop_bit 2 b) = (if m = 0 then 0 else 4 ^ (m - 1))"
    by (cases m) (simp_all only: unat_drop_bit_eq b, simp_all add: drop_bit_eq_div)
  have r1: "unat (drop_bit 1 res) = R * 2 ^ m"
    by (simp only: unat_drop_bit_eq Suc.prems(6)) (simp add: drop_bit_eq_div)
  have Rm: "R + 2 ^ m < 2 ^ 32"
    using Suc.prems(4) zero_less_power [of "2::nat" m] unfolding power_Suc by linarith
  from Rm have "(R + 2 ^ m)\<^sup>2 < (2 ^ 32)\<^sup>2" by (intro power_strict_mono) simp_all
  then have sum_lt: "R\<^sup>2 + (R * 2 ^ Suc m + 4 ^ m) < 2 ^ 64" by (simp add: sq_step)
  then have sum: "unat (res + b) = R * 2 ^ Suc m + 4 ^ m"
    using Suc.prems(6) b by (subst unat_add_lem [THEN iffD1]) simp_all
  show ?case
  proof (cases "res + b \<le> val")
    case True
    then have le: "(R + 2 ^ m)\<^sup>2 \<le> N"
      using Suc.prems(2,5) sum by (simp add: word_le_nat_alt sq_step)
    have "unat (val - (res + b)) = N - (R + 2 ^ m)\<^sup>2"
      using True Suc.prems(5) sum by (simp add: unat_sub sq_step)
    moreover have "unat (drop_bit 1 res + b) = (R + 2 ^ m) * 2 ^ m"
    proof -
      have eq: "R * 2 ^ m + 4 ^ m = (R + 2 ^ m) * 2 ^ m"
        by (simp add: algebra_simps flip: power_mult_distrib)
      have "R * 2 ^ m + 4 ^ m < 2 ^ 64" using sum_lt by simp
      then show ?thesis
        using r1 b eq by (subst unat_add_lem [THEN iffD1]) simp_all
    qed
    moreover have "(R + 2 ^ m) + 2 ^ m \<le> 2 ^ 32" and "N < (R + 2 ^ m + 2 ^ m)\<^sup>2"
      using Suc.prems(3,4) by (simp_all add: add.assoc mult_2)
    ultimately show ?thesis
      using Suc.IH [OF b2 le] True b by (subst (1 2) isqrt_loop.simps) (auto simp: unat_eq_zero)
  next
    case False
    then have "N < (R + 2 ^ m)\<^sup>2"
      using Suc.prems(2,5) sum by (simp add: word_le_nat_alt sq_step)
    then show ?thesis
      using Suc.IH [OF b2 Suc.prems(2) _ _ Suc.prems(5) r1] False b Rm
      by (subst (1 2) isqrt_loop.simps) (auto simp: unat_eq_zero)
  qed
qed

lemma and_not_1: "k AND NOT 1 = 2 * (k div 2)" for k :: int
proof (rule bit_eqI)
  fix n
  show "bit (k AND NOT 1) n \<longleftrightarrow> bit (2 * (k div 2)) n"
    by (cases n) (simp_all only: bit_and_iff bit_not_iff, simp_all add: bit_simps bit_Suc)
qed

lemma unat_push_bit_1: "n < 64 \<Longrightarrow> unat (push_bit n (1 :: u64)) = 2 ^ n"
proof -
  assume "n < 64"
  then have "(2::nat) ^ n < 2 ^ 64" by (intro power_strict_increasing) simp_all
  moreover have "push_bit n (1 :: u64) = word_of_nat (2 ^ n)" by (simp add: push_bit_eq_mult)
  ultimately show ?thesis using \<open>n < 64\<close> by (simp only: unsigned_of_nat) (simp add: take_bit_nat_eq_self)
qed

theorem isqrt64_floor:
  "(unat (pg_math_isqrt64 v))\<^sup>2 \<le> unat v \<and> unat v < (unat (pg_math_isqrt64 v) + 1)\<^sup>2"
proof (cases "v = 0")
  case True
  then show ?thesis by (simp add: pg_math_isqrt64_def)
next
  case False
  define m where "m = (63 - builtin_clzll v) div 2"
  have m: "m < 32" by (simp add: m_def)
  have shift: "nat ((63 - int (builtin_clzll v)) AND NOT 1) = 2 * m"
    using clzll_less [OF False] unfolding and_not_1 m_def by (simp add: nat_mult_distrib nat_div_distrib nat_diff_distrib)
  have one: "unat (push_bit (2 * m) (1 :: u64)) = 4 ^ m"
    using m by (subst unat_push_bit_1) (simp_all add: power_mult)
  have "64 - builtin_clzll v \<le> 2 * Suc m"
    using clzll_less [OF False] by (simp add: m_def)
  then have "(2::nat) ^ (64 - builtin_clzll v) \<le> 2 ^ (2 * Suc m)"
    by (rule power_increasing) simp
  then have "unat v < (2 ^ Suc m)\<^sup>2"
    using unat_less_clz [of v] unfolding power_mult [symmetric] by (simp add: mult.commute)
  moreover have "(2::nat) ^ Suc m \<le> 2 ^ 32"
    using m by (intro power_increasing) simp_all
  ultimately show ?thesis
    using isqrt_loop_inv [of "push_bit (2 * m) 1" "Suc m" 0 "unat v" v 0] False one
    unfolding pg_math_isqrt64_def Let_def shift by simp
qed

lemma sq_le_imp: "a\<^sup>2 < (b + 1)\<^sup>2 \<Longrightarrow> a \<le> (b :: nat)"
  by (metis Suc_eq_plus1 less_Suc_eq_le power2_less_imp_less zero_le)

lemma sint_64_small: "unat (a :: u64) < 2 ^ 63 \<Longrightarrow> sint a = int (unat a)"
proof -
  assume "unat a < 2 ^ 63"
  then have "int (unat a) < int (2 ^ 63)" by (simp only: of_nat_less_iff)
  then have "uint a < 9223372036854775808" by simp
  moreover have "0 \<le> uint a" by simp
  ultimately have "signed_take_bit 63 (uint a) = uint a"
    by (intro no_wrap) linarith+
  then show ?thesis by (simp add: sint_uint)
qed

text \<open>The Q16 square root is the floor of the square root of \<open>x * 2^16\<close>, for positive \<open>x\<close>.\<close>

lemma sint_q16_sqrt:
  assumes "0 < sint x"
  shows "0 \<le> sint (pg_math_q16_sqrt x)"
    and "(sint (pg_math_q16_sqrt x))\<^sup>2 \<le> sint x * 65536"
    and "sint x * 65536 < (sint (pg_math_q16_sqrt x) + 1)\<^sup>2"
proof -
  let ?v = "push_bit 16 (scast x) :: u64"
  have "sint (scast x * 65536 :: u64) = sint x * 65536"
    using sint_mult_ONE_64 .
  then have sv: "sint ?v = sint x * 65536"
    by (simp add: push_bit_eq_mult mult.commute)
  then have "uint ?v = sint x * 65536"
    using assms by (simp only: uint_sint_64) (simp add: sint_cmp)
  then have uv: "int (unat ?v) = sint x * 65536" by (simp only: of_nat_unat)
  let ?r = "pg_math_isqrt64 ?v"
  have fl: "(unat ?r)\<^sup>2 \<le> unat ?v" "unat ?v < (unat ?r + 1)\<^sup>2"
    using isqrt64_floor [of ?v] by simp_all
  have "unat ?v < (2 ^ 24)\<^sup>2"
    using uv sint32_range(2) [of x] by (subst of_nat_less_iff [symmetric, where 'a = int]) simp
  with fl(1) have "(unat ?r)\<^sup>2 < (2 ^ 24)\<^sup>2"
    by (rule le_less_trans)
  then have "unat ?r < 2 ^ 24"
    by (rule power2_less_imp_less) simp
  then have r24: "unat ?r < 16777216" by simp
  then have "sint ?r = int (unat ?r)"
    by (intro sint_64_small) simp
  moreover have "signed_take_bit 31 (int (unat ?r)) = int (unat ?r)"
    using r24 by (intro no_wrap) linarith+
  ultimately have s: "sint (pg_math_q16_sqrt x) = int (unat ?r)"
    using assms unfolding pg_math_q16_sqrt_def by (simp add: sint_cmp sint_ucast_64_32)
  show "0 \<le> sint (pg_math_q16_sqrt x)" by (simp add: s)
  show "(sint (pg_math_q16_sqrt x))\<^sup>2 \<le> sint x * 65536"
    using of_nat_le_iff [where 'a = int, THEN iffD2, OF fl(1)] by (simp only: s uv of_nat_power)
  show "sint x * 65536 < (sint (pg_math_q16_sqrt x) + 1)\<^sup>2"
    using of_nat_less_iff [where 'a = int, THEN iffD2, OF fl(2)]
    by (simp only: s uv of_nat_power of_nat_add of_nat_1)
qed

lemma q16_sqrt_nonpos: "sint x \<le> 0 \<Longrightarrow> pg_math_q16_sqrt x = 0"
  by (simp add: pg_math_q16_sqrt_def sint_cmp)

lemma q16_sqrt_nonneg: "0 \<le> sint (pg_math_q16_sqrt x)"
  by (cases "0 < sint x") (simp_all add: sint_q16_sqrt q16_sqrt_nonpos)

section \<open>Curves\<close>

lemma zdiv_less: "0 < b \<Longrightarrow> a < c * b \<Longrightarrow> a div b < c" for a b c :: int
proof -
  assume b: "0 < b" and lt: "a < c * b"
  have "a div b * b \<le> a" using b by (simp add: minus_mod_eq_div_mult [symmetric])
  then have "a div b * b < c * b" using lt by linarith
  then show ?thesis using b by simp
qed

lemma zdiv_ge: "0 < b \<Longrightarrow> c * b \<le> a \<Longrightarrow> c \<le> a div b" for a b c :: int
  using zdiv_mono1 [of "c * b" a b] by simp

lemma div_le_div_cross:
  fixes a b c d :: int
  assumes "0 < c" "0 < d" "a * d \<le> b * c"
  shows "a div c \<le> b div d"
proof -
  have "a div c = (a * d) div (c * d)" using \<open>0 < d\<close> by simp
  also have "\<dots> \<le> (b * c) div (c * d)" using assms by (intro zdiv_mono1) simp_all
  also have "\<dots> = b div d" using \<open>0 < c\<close> by (simp add: mult.commute [of c])
  finally show ?thesis .
qed

text \<open>The rational sigmoid on integers: \<open>x / (1 + |x|)\<close> in Q16, truncated, is monotone and bounded.\<close>

definition soft_sign :: "int \<Rightarrow> int" where
  "soft_sign x = (x * 65536) sdiv (65536 + \<bar>x\<bar>)"

lemma soft_sign_neg: "soft_sign (- x) = - soft_sign x"
  by (simp add: soft_sign_def signed_divide_int_def)

lemma soft_sign_nonneg_eq: "0 \<le> x \<Longrightarrow> soft_sign x = x * 65536 div (65536 + x)"
  by (simp add: soft_sign_def sdiv_nonneg)

lemma soft_sign_bounds_nonneg: "0 \<le> x \<Longrightarrow> 0 \<le> soft_sign x \<and> soft_sign x \<le> 65535"
proof -
  assume x: "0 \<le> x"
  have "x * 65536 div (65536 + x) < 65536"
    using x by (intro zdiv_less) simp_all
  then show ?thesis
    using x by (simp add: soft_sign_nonneg_eq pos_imp_zdiv_nonneg_iff)
qed

lemma soft_sign_bounds: "- 65535 \<le> soft_sign x \<and> soft_sign x \<le> 65535"
  using soft_sign_bounds_nonneg [of x] soft_sign_bounds_nonneg [of "- x"] soft_sign_neg [of x]
  by (cases "0 \<le> x") auto

lemma soft_sign_mono_nonneg: "0 \<le> x \<Longrightarrow> x \<le> y \<Longrightarrow> soft_sign x \<le> soft_sign y"
  by (simp add: soft_sign_nonneg_eq div_le_div_cross algebra_simps)

lemma soft_sign_mono: "x \<le> y \<Longrightarrow> soft_sign x \<le> soft_sign y"
proof -
  assume le: "x \<le> y"
  consider "0 \<le> x" | "x < 0" "0 \<le> y" | "y < 0" by linarith
  then show ?thesis
  proof cases
    case 1
    then show ?thesis using le by (rule soft_sign_mono_nonneg)
  next
    case 2
    then show ?thesis
      using soft_sign_bounds_nonneg [of y] soft_sign_bounds_nonneg [of "- x"] soft_sign_neg [of x] by simp
  next
    case 3
    then show ?thesis
      using le soft_sign_mono_nonneg [of "- y" "- x"] soft_sign_neg [of x] soft_sign_neg [of y] by simp
  qed
qed

lemma sint_sigmoid:
  assumes "- 2147418111 \<le> sint (q16_mul k (val - mid))" and "sint (q16_mul k (val - mid)) \<le> 2147418111"
  shows "sint (pg_math_sigmoid val k mid) = (soft_sign (sint (q16_mul k (val - mid))) + 65536) div 2"
proof -
  define x where "x = q16_mul k (val - mid)"
  let ?den = "65536 + (if 0 \<le>s x then x else - x)"
  have den: "sint ?den = 65536 + \<bar>sint x\<bar>"
    using assms by (auto simp: x_def [symmetric] sint_cmp sint_push no_wrap)
  then have "?den \<noteq> 0" using word_neq_0_sint [of ?den] by linarith
  from sint_q16_div [OF this, of x] have "sint (q16_div x ?den) = soft_sign (sint x)"
    using soft_sign_bounds [of "sint x"] unfolding den soft_sign_def by (simp add: no_wrap)
  then have "sint (q16_div x ?den + 65536) = soft_sign (sint x) + 65536"
    using soft_sign_bounds [of "sint x"] by (simp add: sint_push no_wrap)
  then show ?thesis
    unfolding pg_math_sigmoid_def Let_def x_def [symmetric] by (simp add: sint_shr)
qed

lemma sigmoid_range:
  assumes "- 2147418111 \<le> sint (q16_mul k (val - mid))" and "sint (q16_mul k (val - mid)) \<le> 2147418111"
  shows "0 \<le> sint (pg_math_sigmoid val k mid)" and "sint (pg_math_sigmoid val k mid) \<le> 65535"
  using soft_sign_bounds [of "sint (q16_mul k (val - mid))"] unfolding sint_sigmoid [OF assms] by linarith+

text \<open>With a non-negative slope the sigmoid is monotone in the pressure.\<close>

lemma sigmoid_mono:
  assumes k: "0 \<le> sint k" and le: "sint u \<le> sint v"
    and diff: "- 2147483648 \<le> sint u - sint mid" "sint v - sint mid \<le> 2147483647"
    and lo: "- 2147418111 * 65536 \<le> sint k * (sint u - sint mid)"
    and hi: "sint k * (sint v - sint mid) < 2147418111 * 65536"
  shows "sint (pg_math_sigmoid u k mid) \<le> sint (pg_math_sigmoid v k mid)"
proof -
  have du: "sint (u - mid) = sint u - sint mid" and dv: "sint (v - mid) = sint v - sint mid"
    using le diff by (auto simp: sint_push no_wrap)
  have m: "sint k * (sint u - sint mid) \<le> sint k * (sint v - sint mid)"
    using k le by (intro mult_left_mono) simp_all
  have xu: "sint (q16_mul k (u - mid)) = sint k * (sint u - sint mid) div 65536"
    using lo hi m by (subst sint_q16_mul_exact) (simp_all add: du)
  have xv: "sint (q16_mul k (v - mid)) = sint k * (sint v - sint mid) div 65536"
    using lo hi m by (subst sint_q16_mul_exact) (simp_all add: dv)
  let ?xu = "sint k * (sint u - sint mid) div 65536" and ?xv = "sint k * (sint v - sint mid) div 65536"
  have "- 2147418111 \<le> ?xu" using lo by (intro zdiv_ge) simp_all
  moreover have "?xu \<le> ?xv" using m by (rule zdiv_mono1) simp
  moreover have "?xv < 2147418111" using hi by (intro zdiv_less) simp_all
  ultimately show ?thesis
    using soft_sign_mono [of ?xu ?xv]
    by (subst (1 2) sint_sigmoid) (simp_all add: xu xv zdiv_mono1)
qed

lemma q16_square:
  assumes "\<bar>sint x\<bar> \<le> 11796480"
  shows "sint (q16_mul x x) = sint x * sint x div 65536" "0 \<le> sint x * sint x div 65536"
    "sint x * sint x div 65536 \<le> 2123366400"
proof -
  have le: "sint x * sint x \<le> 11796480 * 11796480"
    using mult_abs_le [OF assms assms] by linarith
  have ge: "0 \<le> sint x * sint x" by simp
  show "sint (q16_mul x x) = sint x * sint x div 65536"
    by (rule sint_q16_mul_exact) (use le ge in linarith)+
  show "0 \<le> sint x * sint x div 65536" using ge by (simp add: pos_imp_zdiv_nonneg_iff)
  show "sint x * sint x div 65536 \<le> 2123366400" using zdiv_mono1 [OF le, of 65536] by simp
qed

lemma decay_range: "0 \<le> sint (pg_math_decay v c) \<and> sint (pg_math_decay v c) \<le> 65536"
proof -
  define x where "x = q16_mul c v"
  consider "sint x < 0" | "11796480 \<le> sint x" | "0 \<le> sint x" "sint x < 11796480" by linarith
  then show ?thesis
  proof cases
    case 3
    then have "\<bar>sint x\<bar> \<le> 11796480" by simp
    note x2 = q16_square [OF this]
    let ?den = "65536 + x + signed_drop_bit 1 (q16_mul x x)"
    have h: "sint (signed_drop_bit 1 (q16_mul x x)) = sint x * sint x div 65536 div 2"
      by (simp add: sint_shr x2)
    have "sint (65536 + x) = 65536 + sint x"
      using 3 by (simp add: sint_push no_wrap)
    then have den: "sint ?den = 65536 + sint x + sint x * sint x div 65536 div 2"
      using 3 x2 h by (subst sint_add) (simp add: no_wrap)
    then have ge: "65536 \<le> sint ?den" using 3 x2 by simp
    then have "?den \<noteq> 0" using word_neq_0_sint [of ?den] by linarith
    from sint_q16_div [OF this, of 65536]
    have "sint (q16_div 65536 ?den) = signed_take_bit 31 (4294967296 div sint ?den)"
      using ge by (simp add: sdiv_nonneg)
    moreover have "0 \<le> 4294967296 div sint ?den" using ge by (simp add: pos_imp_zdiv_nonneg_iff)
    moreover have "4294967296 div sint ?den < 65537" using ge by (intro zdiv_less) simp_all
    ultimately have "sint (q16_div 65536 ?den) = 4294967296 div sint ?den"
        "0 \<le> 4294967296 div sint ?den" "4294967296 div sint ?den \<le> 65536"
      by (simp_all add: no_wrap)
    then show ?thesis
      using 3 unfolding pg_math_decay_def Let_def x_def [symmetric]
      by (simp add: sint_cmp q16_consts)
  qed (simp_all add: pg_math_decay_def Let_def x_def [symmetric] sint_cmp q16_consts)
qed

lemma alg_sig_range: "- 65536 \<le> sint (pg_math_alg_sig x) \<and> sint (pg_math_alg_sig x) \<le> 65536"
  and alg_sig_nonneg: "0 \<le> sint x \<Longrightarrow> 0 \<le> sint (pg_math_alg_sig x)"
proof -
  have "(- 65536 \<le> sint (pg_math_alg_sig x) \<and> sint (pg_math_alg_sig x) \<le> 65536)
     \<and> (0 \<le> sint x \<longrightarrow> 0 \<le> sint (pg_math_alg_sig x))"
  proof (cases "sint x \<ge> 11796480 \<or> sint x \<le> - 11796480")
    case True
    then show ?thesis by (auto simp: pg_math_alg_sig_def sint_cmp q16_consts)
  next
    case False
    then have "\<bar>sint x\<bar> \<le> 11796480" by auto
    note x2 = q16_square [OF this]
    then have arg: "sint (65536 + q16_mul x x) = 65536 + sint x * sint x div 65536"
      by (subst sint_add) (simp add: no_wrap)
    define d where "d = pg_math_q16_sqrt (65536 + q16_mul x x)"
    have d: "0 \<le> sint d" "(65536 + sint x * sint x div 65536) * 65536 < (sint d + 1)\<^sup>2"
      using sint_q16_sqrt [of "65536 + q16_mul x x"] x2 unfolding arg d_def by simp_all
    have "\<bar>sint x\<bar>\<^sup>2 < (sint d + 1)\<^sup>2"
      using d(2) pos_mod_bound [of 65536 "sint x * sint x"] by (simp add: power2_eq_square algebra_simps minus_mod_eq_mult_div [symmetric])
    then have xd: "\<bar>sint x\<bar> \<le> sint d"
      using d(1) power2_less_imp_less [of "\<bar>sint x\<bar>" "sint d + 1"] by simp
    have "(256::int)\<^sup>2 * 65536 < (sint d + 1)\<^sup>2" using d(2) x2 by simp
    then have "65536\<^sup>2 < (sint d + 1)\<^sup>2" by simp
    then have dpos: "0 < sint d"
      using d(1) power2_less_imp_less [of 65536 "sint d + 1"] by simp
    then have "d \<noteq> 0" using word_neq_0_sint [of d] by linarith
    from sint_q16_div [OF this, of x]
    have q: "sint (q16_div x d) = signed_take_bit 31 ((sint x * 65536) sdiv sint d)" .
    have up: "\<bar>sint x\<bar> * 65536 div sint d < 65537"
      using xd dpos by (intro zdiv_less) simp_all
    have nn: "0 \<le> \<bar>sint x\<bar> * 65536 div sint d" using dpos by (simp add: pos_imp_zdiv_nonneg_iff)
    have "(sint x * 65536) sdiv sint d = sgn (sint x) * (\<bar>sint x\<bar> * 65536 div sint d)"
      using dpos by (simp add: signed_divide_int_def abs_mult sgn_mult)
    then have "- 65536 \<le> (sint x * 65536) sdiv sint d" "(sint x * 65536) sdiv sint d \<le> 65536"
      "0 \<le> sint x \<Longrightarrow> 0 \<le> (sint x * 65536) sdiv sint d"
      using up nn by (auto simp: sgn_if)
    then show ?thesis
      using False \<open>d \<noteq> 0\<close> unfolding pg_math_alg_sig_def Let_def d_def [symmetric]
      by (simp add: sint_cmp q16_consts q no_wrap)
  qed
  then show "- 65536 \<le> sint (pg_math_alg_sig x) \<and> sint (pg_math_alg_sig x) \<le> 65536"
    and "0 \<le> sint x \<Longrightarrow> 0 \<le> sint (pg_math_alg_sig x)" by simp_all
qed

lemma sint_lerp:
  assumes "- 2147483648 \<le> sint mx - sint mn" "sint mx - sint mn \<le> 2147483647"
    and "0 \<le> sint v" "sint v \<le> 65536"
  shows "sint (pg_math_lerp mn mx v) = sint mn + (sint mx - sint mn) * sint v div 65536"
    and "min (sint mn) (sint mx) \<le> sint (pg_math_lerp mn mx v)"
    and "sint (pg_math_lerp mn mx v) \<le> max (sint mn) (sint mx)"
proof -
  let ?d = "sint mx - sint mn" and ?r = "(sint mx - sint mn) * sint v div 65536"
  have d: "sint (mx - mn) = ?d" using assms by (simp add: sint_push no_wrap)
  have r: "min 0 ?d \<le> ?r \<and> ?r \<le> max 0 ?d"
  proof (cases "0 \<le> ?d")
    case True
    then have "0 \<le> ?d * sint v" "?d * sint v \<le> ?d * 65536"
      using assms by (simp, intro mult_left_mono) simp_all
    then show ?thesis using True zdiv_mono1 [of "?d * sint v" "?d * 65536" 65536]
      by (simp add: pos_imp_zdiv_nonneg_iff)
  next
    case False
    then have "?d * sint v \<le> 0" "?d * 65536 \<le> ?d * sint v"
      using assms by (simp add: mult_nonpos_nonneg, intro mult_left_mono_neg) simp_all
    then show ?thesis using False zdiv_mono1 [of "?d * 65536" "?d * sint v" 65536]
        zdiv_mono1 [of "?d * sint v" 0 65536] by simp
  qed
  have "sint (q16_mul (mx - mn) v) = ?r"
    unfolding sint_q16_mul d using r assms by (intro no_wrap) auto
  then have e: "sint (pg_math_lerp mn mx v) = signed_take_bit 31 (sint mn + ?r)"
    by (simp add: pg_math_lerp_def Let_def sint_add)
  also have "\<dots> = sint mn + ?r"
    using r sint32_range [of mn] sint32_range [of mx] by (intro no_wrap) (auto simp: min_def max_def split: if_splits)
  finally show "sint (pg_math_lerp mn mx v) = sint mn + ?r" .
  with r show "min (sint mn) (sint mx) \<le> sint (pg_math_lerp mn mx v)"
    and "sint (pg_math_lerp mn mx v) \<le> max (sint mn) (sint mx)"
    by (auto simp: min_def max_def split: if_splits)
qed

lemma no_wrap_u64: "0 \<le> k \<Longrightarrow> k < 18446744073709551616 \<Longrightarrow> k mod 2 ^ LENGTH(64) = (k :: int)"
  by simp

lemma uint_add_64: "uint a + uint b < 18446744073709551616 \<Longrightarrow> uint (a + b) = uint a + uint (b :: u64)"
  by (simp add: uint_word_ariths)

lemma uint_mult_64: "uint a * uint b < 18446744073709551616 \<Longrightarrow> uint (a * b) = uint a * uint (b :: u64)"
  by (simp add: uint_word_ariths)

lemma uint_diff_64: "uint b \<le> uint a \<Longrightarrow> uint (a - b) = uint a - uint (b :: u64)"
proof -
  assume le: "uint b \<le> uint a"
  have "uint a < 18446744073709551616" using unsigned_less [of a, where ?'a = int] by simp
  moreover have "0 \<le> uint b" by simp
  ultimately have "uint a - uint b < 18446744073709551616" by linarith
  then show ?thesis using le by (simp add: uint_word_ariths)
qed

lemma uint_drop_bit: "uint (drop_bit n a) = uint a div 2 ^ n" for a :: "'a::len word"
proof -
  have "drop_bit n a = word_of_int (drop_bit n (uint a))"
    by (rule bit_word_eqI) (simp add: bit_simps)
  moreover have "0 \<le> drop_bit n (uint a)" "drop_bit n (uint a) < 2 ^ LENGTH('a)"
    by (simp_all add: drop_bit_eq_div pos_imp_zdiv_nonneg_iff order.strict_trans1 [OF div_le_self] )
  ultimately show ?thesis
    by (simp only: uint_word_of_int) (simp add: drop_bit_eq_div)
qed

lemma uint_push_bit: "uint (push_bit k w) = uint w * 2 ^ k mod 2 ^ LENGTH('a)" for w :: "'a::len word"
  unfolding unsigned_push_bit_eq unfolding take_bit_eq_mod push_bit_eq_mult ..

lemma uint_scast_nonneg: "0 \<le> sint x \<Longrightarrow> uint (scast (x :: 32 word) :: u64) = sint x"
  by (simp only: uint_sint_64) (simp add: sint_cmp)

section \<open>The sanitizers\<close>

lemma uint_san_u64:
  assumes "0 \<le> sint v" "sint v \<le> 2147450879"
  shows "uint (pg_math_san_u64 v fb) = (sint v + 32768) div 65536"
proof -
  have "sint (v + 32768) = sint v + 32768" using assms by (simp add: sint_push no_wrap)
  then have "sint (signed_drop_bit 16 (v + 32768)) = (sint v + 32768) div 65536" by (simp add: sint_shr)
  moreover have "0 \<le> (sint v + 32768) div 65536" using assms by (simp add: pos_imp_zdiv_nonneg_iff)
  ultimately show ?thesis
    using assms by (simp add: pg_math_san_u64_def sint_cmp uint_scast_nonneg)
qed

lemma san_u64_negative: "sint v < 0 \<Longrightarrow> pg_math_san_u64 v fb = fb"
  by (simp add: pg_math_san_u64_def sint_cmp)

definition quant_ns :: "q16 \<Rightarrow> q16 \<Rightarrow> int" where
  "quant_ns val fallback = sint (if val <s 0 then fallback else val) * 1000000 div 65536"

lemma uint_v_ns:
  assumes "0 \<le> sint (if val <s 0 then fb else val)"
  shows "uint (drop_bit 16 ((scast (if val <s 0 then fb else val) :: u64) * 1000000)) = quant_ns val fb"
    and "0 \<le> quant_ns val fb" and "quant_ns val fb \<le> 32768000000"
proof -
  let ?sv = "if val <s 0 then fb else val"
  have le: "sint ?sv * 1000000 \<le> 2147483647 * 1000000" using sint32_range(2) [of ?sv] by simp
  then have "uint ((scast ?sv :: u64) * 1000000) = sint ?sv * 1000000"
    using assms by (subst uint_mult_64) (simp_all add: uint_scast_nonneg)
  then show "uint (drop_bit 16 ((scast ?sv :: u64) * 1000000)) = quant_ns val fb"
    by (simp add: uint_drop_bit quant_ns_def)
  show "0 \<le> quant_ns val fb" using assms by (simp add: quant_ns_def pos_imp_zdiv_nonneg_iff)
  show "quant_ns val fb \<le> 32768000000"
    using zdiv_mono1 [OF le, of 65536] by (simp add: quant_ns_def)
qed

lemma pow2_of_and_pred: "0 < n \<Longrightarrow> n AND (n - 1) = 0 \<Longrightarrow> \<exists>k. n = 2 ^ k" for n :: nat
proof (induction n rule: less_induct)
  case (less n)
  show ?case
  proof (cases "even n")
    case True
    then obtain m where m: "n = 2 * m" by (elim evenE)
    with less.prems have "0 < m" by simp
    have "(2 * m) AND (2 * m - 1) = 2 * (m AND (m - 1))"
    proof (rule bit_eqI)
      fix i
      from \<open>0 < m\<close> obtain p where p: "m = Suc p" "2 * m - 1 = Suc (2 * p)" by (cases m) simp_all
      have "bit (2 * m) i \<longleftrightarrow> 0 < i \<and> bit m (i - 1)" by (simp add: bit_double_iff)
      moreover have "bit (Suc (2 * p)) i \<longleftrightarrow> i = 0 \<or> bit p (i - 1)"
        by (cases i) (simp_all add: bit_Suc bit_0)
      ultimately show "bit ((2 * m) AND (2 * m - 1)) i \<longleftrightarrow> bit (2 * (m AND (m - 1))) i"
        using p by (auto simp: bit_and_iff bit_double_iff simp del: mult_Suc_right)
    qed
    with less.prems m have "m AND (m - 1) = 0" by simp
    with less.IH [of m] m \<open>0 < m\<close> obtain k where "m = 2 ^ k" by auto
    then have "n = 2 ^ Suc k" using m by simp
    then show ?thesis ..
  next
    case False
    then obtain b where b: "n = Suc (2 * b)" "n - 1 = 2 * b" by (auto elim: oddE)
    have "n AND (n - 1) = n - 1"
    proof (rule bit_eqI)
      fix i
      have "bit (Suc (2 * b)) i \<longleftrightarrow> i = 0 \<or> bit b (i - 1)"
        by (cases i) (simp_all add: bit_Suc bit_0)
      moreover have "bit (2 * b) i \<longleftrightarrow> 0 < i \<and> bit b (i - 1)" by (simp add: bit_double_iff)
      ultimately show "bit (n AND (n - 1)) i \<longleftrightarrow> bit (n - 1) i"
        using b by (auto simp: bit_and_iff)
    qed
    with less.prems have "n = 2 ^ 0" by simp
    then show ?thesis ..
  qed
qed

lemma pow2_step:
  assumes "s \<noteq> 0" "s AND (s - 1) = 0"
  shows "\<exists>k<64. s = push_bit k (1 :: u64)"
proof -
  have p: "0 < unat s" using assms(1) by (simp add: unat_gt_0)
  have "unat (s - 1) = unat s - 1" using assms(1) by (simp add: unat_minus_one)
  then have "unat s AND (unat s - 1) = 0" using assms(2) by (metis unsigned_and_eq unsigned_0)
  then obtain k where k: "unat s = 2 ^ k" using pow2_of_and_pred [OF p] by blast
  have "(2::nat) ^ k < 2 ^ 64" using unsigned_less [of s, where ?'a = nat] k by simp
  then have "k < 64" by (rule power_less_imp_less_exp [rotated]) simp
  moreover have "s = push_bit k 1" using k \<open>k < 64\<close> by (simp only: word_unat_eq_iff unat_push_bit_1)
  ultimately show ?thesis by blast
qed

lemma and_not_mask: "(a :: u64) AND NOT (push_bit k 1 - 1) = push_bit k (drop_bit k a)"
proof -
  have "push_bit k 1 - 1 = (mask k :: u64)" by (simp add: mask_eq_exp_minus_1 push_bit_eq_mult)
  moreover have "a AND NOT (mask k) = push_bit k (drop_bit k a)"
    by (rule bit_word_eqI) (auto simp: bit_simps)
  ultimately show ?thesis by (simp only:)
qed

text \<open>
  Quantisation rounds to a multiple of the step, halves upwards; the mask branch for powers of
  two and the remainder branch compute the same value.
\<close>

lemma round_to_multiple:
  fixes v s :: int
  assumes "0 < s"
  shows "(if s div 2 \<le> v mod s then v + s - v mod s else v - v mod s) = (v + (s - s div 2)) div s * s"
proof -
  have v: "v = s * (v div s) + v mod s" by simp
  have r: "0 \<le> v mod s" "v mod s < s" using assms by simp_all
  have "(v + (s - s div 2)) div s = v div s + (v mod s + (s - s div 2)) div s"
  proof -
    have "(s * (v div s) + x) div s = v div s + x div s" for x using assms by simp
    from this [of "v mod s + (s - s div 2)"] show ?thesis by (simp only: add.assoc [symmetric] v [symmetric])
  qed
  also have "(v mod s + (s - s div 2)) div s = (if s div 2 \<le> v mod s then 1 else 0)"
  proof (cases "s div 2 \<le> v mod s")
    case True
    then have "(v mod s + (s - s div 2)) div s = (v mod s - s div 2 + s) div s" by (simp add: algebra_simps)
    also have "\<dots> = (v mod s - s div 2) div s + 1" using assms by (intro div_add_self2) simp
    also have "(v mod s - s div 2) div s = 0"
      using True r assms by (intro div_pos_pos_trivial) linarith+
    finally show ?thesis using True by simp
  next
    case False
    moreover have "s div 2 \<le> s" using assms by simp
    ultimately show ?thesis using r by (simp add: div_pos_pos_trivial)
  qed
  finally show ?thesis by (simp add: algebra_simps minus_mod_eq_mult_div [symmetric])
qed

lemma uint_san_quant:
  assumes sv: "0 \<le> sint (if val <s 0 then fb else val)"
    and st: "2 \<le> uint step" "uint step \<le> 9223372036854775808"
  shows "uint (pg_math_san_quant_u64 val fb step) =
    (quant_ns val fb + (uint step - uint step div 2)) div uint step * uint step"
proof -
  define v where "v = drop_bit 16 ((scast (if val <s 0 then fb else val) :: u64) * 1000000)"
  have v: "uint v = quant_ns val fb" "0 \<le> quant_ns val fb" "quant_ns val fb \<le> 32768000000"
    using uint_v_ns [OF sv] by (simp_all add: v_def)
  have gt: "\<not> step \<le> 1" using st(1) by (simp add: word_le_def)
  show ?thesis
  proof (cases "step AND (step - 1) = 0")
    case True
    obtain k where k: "k < 64" "step = push_bit k 1"
      using pow2_step [OF _ True] gt by fastforce
    have us: "uint step = 2 ^ k"
      using unat_push_bit_1 [OF k(1)] unfolding k(2) [symmetric]
      by (metis of_nat_numeral of_nat_power of_nat_unat)
    have k1: "1 \<le> k" using st(1) us by (cases k) simp_all
    then have even: "uint step - uint step div 2 = uint step div 2"
      unfolding us by (cases k) simp_all
    have "uint (drop_bit 1 step) = uint step div 2" by (simp only: uint_drop_bit) simp
    then have sum: "uint (v + drop_bit 1 step) = quant_ns val fb + uint step div 2"
      using v st by (subst uint_add_64) simp_all
    have "pg_math_san_quant_u64 val fb step = push_bit k (drop_bit k (v + drop_bit 1 step))"
      using gt True and_not_mask [of "v + drop_bit 1 step" k] unfolding k(2) [symmetric]
      by (simp add: pg_math_san_quant_u64_def Let_def v_def)
    also have "uint \<dots> = (quant_ns val fb + uint step div 2) div 2 ^ k * 2 ^ k"
    proof -
      have "(quant_ns val fb + uint step div 2) div 2 ^ k * 2 ^ k \<le> quant_ns val fb + uint step div 2"
        by (simp add: minus_mod_eq_div_mult [symmetric])
      also have "\<dots> < 18446744073709551616" using v st by simp
      finally show ?thesis
        using v us by (simp only: uint_push_bit uint_drop_bit sum)
          (simp add: pos_imp_zdiv_nonneg_iff)
    qed
    finally show ?thesis unfolding even unfolding us .
  next
    case False
    have rem: "uint (v mod step) = quant_ns val fb mod uint step" by (simp add: uint_mod_distrib v)
    have half: "uint (drop_bit 1 step) = uint step div 2" by (simp only: uint_drop_bit) simp
    have "uint (v + step) = quant_ns val fb + uint step" using v st by (subst uint_add_64) simp_all
    moreover have "quant_ns val fb mod uint step \<le> quant_ns val fb" using v st by (intro zmod_le_nonneg_dividend)
    ultimately have "uint (v + step - v mod step) = quant_ns val fb + uint step - quant_ns val fb mod uint step"
      "uint (v - v mod step) = quant_ns val fb - quant_ns val fb mod uint step"
      using v st rem by (simp_all add: uint_diff_64)
    then have "uint (pg_math_san_quant_u64 val fb step) =
      (if uint step div 2 \<le> quant_ns val fb mod uint step
       then quant_ns val fb + uint step - quant_ns val fb mod uint step
       else quant_ns val fb - quant_ns val fb mod uint step)"
      using gt False rem half by (simp add: pg_math_san_quant_u64_def Let_def v_def [symmetric] word_le_def)
    then show ?thesis using round_to_multiple [of "uint step" "quant_ns val fb"] st by simp
  qed
qed

section \<open>Properties\<close>

text \<open>
  C28: The two builds of \<open>q32_mul\<close>, with and without 128-bit integers, compute the same
  value for all operands, the ones whose product overflows included.
\<close>

theorem q32_mul_builds_agree: "q32_mul a b = q32_mul_portable a b"
  by (simp only: q32_mul_eq q32_mul_portable_eq)

text \<open>
  C27: \<open>pg_math_isqrt64\<close> returns the integer square root, rounded down, of every 64-bit value.
\<close>

theorem isqrt64_is_floor_sqrt:
  "(unat (pg_math_isqrt64 v))\<^sup>2 \<le> unat v \<and> unat v < (unat (pg_math_isqrt64 v) + 1)\<^sup>2"
  using isqrt64_floor by simp

text \<open>
  \<open>pg_math_san_quant_u64\<close> converts milliseconds in Q16 to nanoseconds and rounds them to the
  nearest multiple of the step, halves upwards, in the branch for powers of two and in the other
  one alike; a negative value is replaced by the fallback first.
\<close>

theorem san_quant_rounds:
  assumes "0 \<le> sint (if val <s 0 then fallback else val)"
    and "2 \<le> uint step" "uint step \<le> 9223372036854775808"
  shows "uint (pg_math_san_quant_u64 val fallback step) =
    (quant_ns val fallback + (uint step - uint step div 2)) div uint step * uint step"
  using assms by (rule uint_san_quant)

lemma san_quant_rounds_witness:
  "uint (pg_math_san_quant_u64 524288 0 65536) = (quant_ns 524288 0 + (65536 - 65536 div 2)) div 65536 * 65536"
  using san_quant_rounds [of 524288 0 65536] by (simp add: sint_cmp)

text \<open>
  With a non-negative slope, and no overflow on the way, \<open>pg_math_sigmoid\<close> is monotone in the
  value and stays in \<open>[0, 1)\<close>.
\<close>

theorem sigmoid_monotone_unit:
  assumes "0 \<le> sint k" "sint u \<le> sint v"
    and "- 2147483648 \<le> sint u - sint mid" "sint v - sint mid \<le> 2147483647"
    and "- 2147418111 * 65536 \<le> sint k * (sint u - sint mid)" "sint k * (sint v - sint mid) < 2147418111 * 65536"
    and "- 2147418111 \<le> sint (q16_mul k (v - mid))" "sint (q16_mul k (v - mid)) \<le> 2147418111"
  shows "sint (pg_math_sigmoid u k mid) \<le> sint (pg_math_sigmoid v k mid) \<and>
    0 \<le> sint (pg_math_sigmoid v k mid) \<and> sint (pg_math_sigmoid v k mid) \<le> 65535"
  using assms sigmoid_mono sigmoid_range by simp

lemma sigmoid_monotone_unit_witness:
  "sint (pg_math_sigmoid 0 4718 445644) \<le> sint (pg_math_sigmoid 655360 4718 445644) \<and>
    0 \<le> sint (pg_math_sigmoid 655360 4718 445644) \<and> sint (pg_math_sigmoid 655360 4718 445644) \<le> 65535"
  using sigmoid_monotone_unit [of 4718 0 655360 445644] by (simp add: sint_q16_mul no_wrap)

end
