(* ===== verification/Pg_Time.thy ===== *)
theory Pg_Time
  imports Pg_Math "HOL-Library.Product_Lexorder"
begin

text \<open>
  Clock readings and the elapsed time between two of them, \<^verbatim>\<open>include/pg/time.h\<close>.  A
  \<^verbatim>\<open>struct timespec\<close> of the target has two signed 64-bit fields.  The lemmas give the exact
  elapsed time of \<open>pg_dt_sec\<close> in units of \<open>2 ^ - 16\<close> seconds, its error against the true one, its
  sign and its saturation.
\<close>

datatype timespec = Timespec (tv_sec: i64) (tv_nsec: i64)

text \<open>What \<^verbatim>\<open>clock_gettime\<close> returns: the nanoseconds are in \<open>[0, 10 ^ 9)\<close> and the seconds are not negative.\<close>

definition timespec_ok :: "timespec \<Rightarrow> bool" where
  "timespec_ok t \<longleftrightarrow> 0 \<le>s tv_sec t \<and> 0 \<le>s tv_nsec t \<and> tv_nsec t <s 1000000000"

text \<open>The instant in nanoseconds, and the order of instants.\<close>

definition ns_of :: "timespec \<Rightarrow> int" where
  "ns_of t = sint (tv_sec t) * 1000000000 + sint (tv_nsec t)"

instantiation timespec :: linorder
begin

definition less_eq_timespec :: "timespec \<Rightarrow> timespec \<Rightarrow> bool" where
  "less_eq_timespec a b \<longleftrightarrow> (sint (tv_sec a), sint (tv_nsec a)) \<le> (sint (tv_sec b), sint (tv_nsec b))"

definition less_timespec :: "timespec \<Rightarrow> timespec \<Rightarrow> bool" where
  "less_timespec a b \<longleftrightarrow> (sint (tv_sec a), sint (tv_nsec a)) < (sint (tv_sec b), sint (tv_nsec b))"

instance
proof
  fix x y z :: timespec
  show "x < y \<longleftrightarrow> x \<le> y \<and> \<not> y \<le> x" "x \<le> x" "x \<le> y \<or> y \<le> x"
    "x \<le> y \<Longrightarrow> y \<le> z \<Longrightarrow> x \<le> z"
    by (auto simp: less_eq_timespec_def less_timespec_def)
  show "x \<le> y \<Longrightarrow> y \<le> x \<Longrightarrow> x = y"
    by (cases x; cases y) (auto simp: less_eq_timespec_def sint_inj)
qed

end

definition pg_dt_sec :: "timespec \<Rightarrow> timespec \<Rightarrow> q16" where
  "pg_dt_sec prev now =
     (let sec = tv_sec now - tv_sec prev;
          nsec = tv_nsec now - tv_nsec prev;
          sec = (if 32000 <s sec then 32000 else sec);
          sec = (if sec <s - 32000 then - 32000 else sec);
          nsec_q16 = ucast (word_sdiv (nsec * 65536) 1000000000) :: q16
      in ucast (sec * 65536) + nsec_q16)"

section \<open>Elapsed time\<close>

lemma timespec_okD:
  assumes "timespec_ok t"
  shows "0 \<le> sint (tv_sec t)" "0 \<le> sint (tv_nsec t)" "sint (tv_nsec t) < 1000000000"
  using assms by (simp_all add: timespec_ok_def sint_cmp)

lemma timespec_le_ns:
  assumes "timespec_ok a" "timespec_ok b"
  shows "a \<le> b \<longleftrightarrow> ns_of a \<le> ns_of b"
  using timespec_okD [OF assms(1)] timespec_okD [OF assms(2)]
  by (auto simp: less_eq_timespec_def ns_of_def)

text \<open>The whole seconds, saturated, and the nanoseconds, truncated towards zero.\<close>

lemma sint_dt_sec:
  assumes "timespec_ok prev" "timespec_ok now"
  shows "sint (pg_dt_sec prev now) =
    max (- 32000) (min 32000 (sint (tv_sec now) - sint (tv_sec prev))) * 65536
    + ((sint (tv_nsec now) - sint (tv_nsec prev)) * 65536) sdiv 1000000000"
proof -
  note ok = timespec_okD [OF assms(1)] timespec_okD [OF assms(2)] sint64_range [of "tv_sec now"] sint64_range [of "tv_sec prev"]
  define ds where "ds = sint (tv_sec now) - sint (tv_sec prev)"
  define dn where "dn = sint (tv_nsec now) - sint (tv_nsec prev)"
  define cs where "cs = max (- 32000) (min 32000 ds)"
  define sec where "sec = tv_sec now - tv_sec prev"
  have s: "sint sec = ds" unfolding sec_def ds_def using ok by (simp add: sint_push no_wrap)
  have n: "sint (tv_nsec now - tv_nsec prev) = dn" unfolding dn_def using ok by (simp add: sint_push no_wrap)
  have dn: "- 1000000000 < dn" "dn < 1000000000" unfolding dn_def using ok by linarith+
  have q: "- 65536 \<le> (dn * 65536) sdiv 1000000000" "(dn * 65536) sdiv 1000000000 \<le> 65536"
    using dn sdiv_mono [of 1000000000 "- 1000000000 * 65536" "dn * 65536"]
      sdiv_mono [of 1000000000 "dn * 65536" "1000000000 * 65536"]
    by (simp_all add: signed_divide_int_def sgn_if)
  have "sint (word_sdiv ((tv_nsec now - tv_nsec prev) * 65536) 1000000000) = (dn * 65536) sdiv 1000000000"
    using dn q by (simp only: sint_word_sdiv sint_mult n) (simp add: no_wrap)
  then have nq: "sint (ucast (word_sdiv ((tv_nsec now - tv_nsec prev) * 65536) 1000000000) :: q16)
      = (dn * 65536) sdiv 1000000000"
    using q by (simp add: sint_ucast_64_32 no_wrap)
  define sec' where "sec' = (if (if 32000 <s sec then 32000 else sec) <s - 32000 then - 32000
      else (if 32000 <s sec then 32000 else sec))"
  have cs: "sint sec' = cs" unfolding sec'_def cs_def by (simp add: sint_cmp s)
  then have "sint (ucast (sec' * 65536) :: q16) = cs * 65536"
    by (simp add: sint_ucast_64_32 sint_mult no_wrap cs_def)
  moreover have "pg_dt_sec prev now = ucast (sec' * 65536) + ucast (word_sdiv ((tv_nsec now - tv_nsec prev) * 65536) 1000000000)"
    by (simp only: pg_dt_sec_def Let_def sec'_def sec_def)
  ultimately have "sint (pg_dt_sec prev now) = signed_take_bit 31 (cs * 65536 + (dn * 65536) sdiv 1000000000)"
    using nq by (simp only: sint_add) simp
  also have "\<dots> = cs * 65536 + (dn * 65536) sdiv 1000000000"
  proof -
    have "- 32000 \<le> cs" "cs \<le> 32000" unfolding cs_def by simp_all
    then show ?thesis using q by (intro no_wrap) linarith+
  qed
  finally show ?thesis by (simp only: cs_def ds_def dn_def)
qed

text \<open>
  While the whole seconds do not saturate, the result is the true elapsed time in Q16 to less than
  one unit in the last place.
\<close>

lemma sdiv_bounds: "0 < d \<Longrightarrow> d * (n sdiv d) < n + d \<and> n - d < d * (n sdiv d)" for n d :: int
proof -
  assume d: "0 < d"
  show ?thesis
  proof (cases "0 \<le> n")
    case True
    have "d * (n div d) = n - n mod d" by (simp add: minus_mod_eq_mult_div)
    then show ?thesis using d True pos_mod_bound [OF d, of n] pos_mod_sign [OF d, of n] unfolding sdiv_nonneg [OF True d] by linarith
  next
    case False
    then have e: "n sdiv d = - ((- n) div d)" using d by (simp add: sdiv_neg)
    have "d * ((- n) div d) = - n - (- n) mod d" by (simp add: minus_mod_eq_mult_div)
    then show ?thesis using d False pos_mod_bound [OF d, of "- n"] pos_mod_sign [OF d, of "- n"] unfolding e by (simp only: mult_minus_right) linarith
  qed
qed

lemma dt_sec_accurate:
  assumes "timespec_ok prev" "timespec_ok now" "\<bar>sint (tv_sec now) - sint (tv_sec prev)\<bar> \<le> 32000"
  shows "\<bar>1000000000 * sint (pg_dt_sec prev now) - 65536 * (ns_of now - ns_of prev)\<bar> < 1000000000"
proof -
  let ?s = "sint (tv_sec now) - sint (tv_sec prev)" and ?n = "sint (tv_nsec now) - sint (tv_nsec prev)"
  have "max (- 32000) (min 32000 ?s) = ?s" using assms(3) by simp
  then have "1000000000 * sint (pg_dt_sec prev now) - 65536 * (ns_of now - ns_of prev)
      = 1000000000 * ((?n * 65536) sdiv 1000000000) - ?n * 65536"
    unfolding sint_dt_sec [OF assms(1,2)] ns_of_def by (simp add: algebra_simps)
  then show ?thesis using sdiv_bounds [of 1000000000 "?n * 65536"] by linarith
qed

text \<open>Time that does not run backwards is never negative, also past the saturation.\<close>

lemma dt_sec_nonneg:
  assumes "timespec_ok prev" "timespec_ok now" "prev \<le> now"
  shows "0 \<le> sint (pg_dt_sec prev now)"
proof -
  let ?s = "sint (tv_sec now) - sint (tv_sec prev)" and ?n = "sint (tv_nsec now) - sint (tv_nsec prev)"
  have n: "- 1000000000 < ?n" using timespec_okD [OF assms(1)] timespec_okD [OF assms(2)] by linarith
  have "?s = 0 \<and> 0 \<le> ?n \<or> 1 \<le> ?s"
    using assms(3) by (auto simp: less_eq_timespec_def)
  then consider "?s = 0" "0 \<le> ?n" | "1 \<le> ?s" by blast
  then show ?thesis
  proof cases
    case 1
    then show ?thesis unfolding sint_dt_sec [OF assms(1,2)] by (simp add: sdiv_nonneg pos_imp_zdiv_nonneg_iff)
  next
    case 2
    have "(- 1000000000 * 65536) sdiv 1000000000 \<le> (?n * 65536) sdiv (1000000000 :: int)"
      using n by (intro sdiv_mono) simp_all
    then have "- 65536 \<le> (?n * 65536) sdiv (1000000000 :: int)" by (simp add: sdiv_neg)
    moreover have "1 * 65536 \<le> max (- 32000) (min 32000 ?s) * 65536"
      using 2 by (intro mult_right_mono) simp_all
    ultimately show ?thesis unfolding sint_dt_sec [OF assms(1,2)] by linarith
  qed
qed

lemma dt_sec_self: "sint (pg_dt_sec t t) = 0"
  by (simp add: pg_dt_sec_def Let_def sint_cmp word_sdiv_def)

section \<open>Properties\<close>

text \<open>
  C34: Between two valid clock readings at most 32000 seconds apart, \<open>pg_dt_sec\<close> is the elapsed
  time with an error of less than \<open>2 ^ - 16\<close> seconds; between readings in order, however far apart,
  it is not negative.
\<close>

theorem dt_sec_correct:
  assumes "timespec_ok prev" "timespec_ok now" "prev \<le> now"
  shows "0 \<le> sint (pg_dt_sec prev now) \<and>
    (\<bar>sint (tv_sec now) - sint (tv_sec prev)\<bar> \<le> 32000 \<longrightarrow>
      \<bar>1000000000 * sint (pg_dt_sec prev now) - 65536 * (ns_of now - ns_of prev)\<bar> < 1000000000)"
  using dt_sec_nonneg [OF assms] dt_sec_accurate [OF assms(1,2)] by blast

lemma dt_sec_correct_witness:
  "\<bar>1000000000 * sint (pg_dt_sec (Timespec 1 900000000) (Timespec 3 100000000)) - 65536 * 1200000000\<bar> < 1000000000"
  using dt_sec_correct [of "Timespec 1 900000000" "Timespec 3 100000000"]
  by (simp add: timespec_ok_def sint_cmp less_eq_timespec_def ns_of_def)

end
