(* ===== verification/Pg_Os.thy ===== *)
theory Pg_Os
  imports Pg_Time
begin

text \<open>
  The operating system as the daemon sees it.  Its behaviour is a parameter: a record \<open>os\<close> whose
  functions give the result of a system call from the history of everything that was asked and
  answered before it, so every environment, also one that changes between two calls, is an instance.
  The history (newest event first) is the part of the state that is outside the process; a model
  function that does input or output takes it and returns it extended, in the option monad, where
  \<open>None\<close> is a call that never returns.
  What the sources rely on is named: clock readings are well formed and do not run backwards, a
  read returns at most as many bytes as were asked for, a new descriptor is not negative and not one
  that is open, a call is interrupted by a signal only finitely often in a row, and a directory that
  is read long enough ends.
  A negative errno result is \<open>Inl errno\<close>, any other result is \<open>Inr\<close>.  Log output is not modelled
  in the callers.
\<close>

section \<open>Errno values\<close>

abbreviation (input) EPERM :: int where "EPERM \<equiv> 1"
abbreviation (input) ENOENT :: int where "ENOENT \<equiv> 2"
abbreviation (input) EINTR :: int where "EINTR \<equiv> 4"
abbreviation (input) EIO :: int where "EIO \<equiv> 5"
abbreviation (input) EBADF :: int where "EBADF \<equiv> 9"
abbreviation (input) ENODEV :: int where "ENODEV \<equiv> 19"
abbreviation (input) EINVAL :: int where "EINVAL \<equiv> 22"
abbreviation (input) ERANGE :: int where "ERANGE \<equiv> 34"
abbreviation (input) ENODATA :: int where "ENODATA \<equiv> 61"
abbreviation (input) ETIMEDOUT :: int where "ETIMEDOUT \<equiv> 110"
abbreviation (input) ECANCELED :: int where "ECANCELED \<equiv> 125"

section \<open>Calls, events and the environment\<close>

datatype clock = CLOCK_MONOTONIC | CLOCK_REALTIME

datatype oflag = O_RDONLY | O_WRONLY | O_RDWR | O_CLOEXEC | O_NONBLOCK | O_CREAT | O_APPEND | O_NOFOLLOW | O_DIRECTORY | O_NOATIME

datatype epoll_op = EPOLL_CTL_ADD | EPOLL_CTL_DEL

text \<open>
  A directory record as the walkers of \<^verbatim>\<open>fs.c\<close> and \<^verbatim>\<open>sweep.c\<close> visit them in the buffer of
  \<^verbatim>\<open>getdents64\<close> (\<^verbatim>\<open>include/fs.h\<close>), and the two fields they read of a \<^verbatim>\<open>struct stat\<close>.
\<close>

record linux_dirent64 =
  d_ino :: u64
  d_off :: i64
  d_reclen :: "16 word"
  d_type :: u8
  d_name :: string

record stat =
  st_mode :: u32
  st_mtime :: i64

definition S_ISDIR :: "u32 \<Rightarrow> bool" where "S_ISDIR m \<longleftrightarrow> m AND 0xF000 = 0x4000"
definition S_ISREG :: "u32 \<Rightarrow> bool" where "S_ISREG m \<longleftrightarrow> m AND 0xF000 = 0x8000"

text \<open>The argument of \<^verbatim>\<open>sched_setattr\<close>, \<^verbatim>\<open>task.c\<close>.\<close>

record pg_sched_attr =
  at_size :: u32
  sched_policy :: u32
  sched_flags :: u64
  sched_nice :: i32
  sched_priority :: u32
  sched_runtime :: u64
  sched_deadline :: u64
  sched_period :: u64
  sched_util_min :: u32
  sched_util_max :: u32

datatype rlim = RLIMIT_NOFILE | RLIMIT_STACK

text \<open>
  The calls that only control the process or the machine.  Each answers a number; the one of
  \<open>Getrlimit\<close> is the hard limit, the only field the sources keep.
\<close>

datatype ctl =
    Sched_setscheduler int
  | Ioprio_set int
  | Sched_setattr pg_sched_attr
  | Sched_setaffinity "nat set"
  | Prctl_timerslack u64
  | Sysconf_nproc
  | Mlockall bool
  | Access string
  | Getuid
  | Flock int
  | Dup2 int int
  | Block_signals
  | Unblock_signals
  | Signalfd
  | Sigaction int
  | Signal_default int
  | Raise int
  | Getrlimit rlim
  | Setrlimit rlim u64 u64
  | Sleep nat
  | Prop_set string string

datatype event =
    Clock clock timespec
  | Open string "oflag list" "int + int"
  | Close int
  | Read int nat "int + string"
  | Pread int nat "int + string"
  | Write int string "int + nat"
  | Pwrite int string "int + nat"
  | Epoll_create "int + int"
  | Epoll_ctl int epoll_op int "int + unit"
  | Epoll_wait int nat i32 "int + int list"
  | Openat int string "int + int"
  | Getdents int nat "int + linux_dirent64 list"
  | Fstatat int string "int + stat"
  | Unlinkat int string bool "int + unit"
  | Opendir string "int + int"
  | Readdir int "string option"
  | Closedir int
  | Prop_get string string
  | Ctl ctl "int + int"

type_synonym hist = "event list"

record os =
  os_clock :: "hist \<Rightarrow> clock \<Rightarrow> timespec"
  os_open :: "hist \<Rightarrow> string \<Rightarrow> oflag list \<Rightarrow> int + int"
  os_read :: "hist \<Rightarrow> int \<Rightarrow> nat \<Rightarrow> int + string"
  os_pread :: "hist \<Rightarrow> int \<Rightarrow> nat \<Rightarrow> int + string"
  os_write :: "hist \<Rightarrow> int \<Rightarrow> string \<Rightarrow> int + nat"
  os_pwrite :: "hist \<Rightarrow> int \<Rightarrow> string \<Rightarrow> int + nat"
  os_epoll_create :: "hist \<Rightarrow> int + int"
  os_epoll_ctl :: "hist \<Rightarrow> int \<Rightarrow> epoll_op \<Rightarrow> int \<Rightarrow> int + unit"
  os_epoll_wait :: "hist \<Rightarrow> int \<Rightarrow> nat \<Rightarrow> i32 \<Rightarrow> int + int list"
  os_openat :: "hist \<Rightarrow> int \<Rightarrow> string \<Rightarrow> int + int"
  os_getdents :: "hist \<Rightarrow> int \<Rightarrow> nat \<Rightarrow> int + linux_dirent64 list"
  os_fstatat :: "hist \<Rightarrow> int \<Rightarrow> string \<Rightarrow> int + stat"
  os_unlinkat :: "hist \<Rightarrow> int \<Rightarrow> string \<Rightarrow> bool \<Rightarrow> int + unit"
  os_opendir :: "hist \<Rightarrow> string \<Rightarrow> int + int"
  os_readdir :: "hist \<Rightarrow> int \<Rightarrow> string option"
  os_prop_get :: "hist \<Rightarrow> string \<Rightarrow> string"
  os_ctl :: "hist \<Rightarrow> ctl \<Rightarrow> int + int"

definition sys_clock :: "os \<Rightarrow> clock \<Rightarrow> hist \<Rightarrow> timespec \<times> hist" where
  "sys_clock os c h = (let t = os_clock os h c in (t, Clock c t # h))"

definition sys_open :: "os \<Rightarrow> string \<Rightarrow> oflag list \<Rightarrow> hist \<Rightarrow> (int + int) \<times> hist" where
  "sys_open os path fl h = (let r = os_open os h path fl in (r, Open path fl r # h))"

definition sys_close :: "int \<Rightarrow> hist \<Rightarrow> hist" where
  "sys_close fd h = Close fd # h"

definition sys_read :: "os \<Rightarrow> int \<Rightarrow> nat \<Rightarrow> hist \<Rightarrow> (int + string) \<times> hist" where
  "sys_read os fd n h = (let r = os_read os h fd n in (r, Read fd n r # h))"

definition sys_pread :: "os \<Rightarrow> int \<Rightarrow> nat \<Rightarrow> hist \<Rightarrow> (int + string) \<times> hist" where
  "sys_pread os fd n h = (let r = os_pread os h fd n in (r, Pread fd n r # h))"

definition sys_write :: "os \<Rightarrow> int \<Rightarrow> string \<Rightarrow> hist \<Rightarrow> (int + nat) \<times> hist" where
  "sys_write os fd buf h = (let r = os_write os h fd buf in (r, Write fd buf r # h))"

definition sys_pwrite :: "os \<Rightarrow> int \<Rightarrow> string \<Rightarrow> hist \<Rightarrow> (int + nat) \<times> hist" where
  "sys_pwrite os fd buf h = (let r = os_pwrite os h fd buf in (r, Pwrite fd buf r # h))"

definition sys_epoll_create :: "os \<Rightarrow> hist \<Rightarrow> (int + int) \<times> hist" where
  "sys_epoll_create os h = (let r = os_epoll_create os h in (r, Epoll_create r # h))"

definition sys_epoll_ctl :: "os \<Rightarrow> int \<Rightarrow> epoll_op \<Rightarrow> int \<Rightarrow> hist \<Rightarrow> (int + unit) \<times> hist" where
  "sys_epoll_ctl os ep op fd h = (let r = os_epoll_ctl os h ep op fd in (r, Epoll_ctl ep op fd r # h))"

definition sys_epoll_wait :: "os \<Rightarrow> int \<Rightarrow> nat \<Rightarrow> i32 \<Rightarrow> hist \<Rightarrow> (int + int list) \<times> hist" where
  "sys_epoll_wait os ep n timeout h =
     (let r = os_epoll_wait os h ep n timeout in (r, Epoll_wait ep n timeout r # h))"

text \<open>
  \<^verbatim>\<open>openat\<close> is only called with the directory flags (read only, not following links), \<^verbatim>\<open>fstatat\<close>
  only without following links; an empty list is the end of the directory.
\<close>

definition sys_openat :: "os \<Rightarrow> int \<Rightarrow> string \<Rightarrow> hist \<Rightarrow> (int + int) \<times> hist" where
  "sys_openat os dfd name h = (let r = os_openat os h dfd name in (r, Openat dfd name r # h))"

definition sys_getdents :: "os \<Rightarrow> int \<Rightarrow> nat \<Rightarrow> hist \<Rightarrow> (int + linux_dirent64 list) \<times> hist" where
  "sys_getdents os fd n h = (let r = os_getdents os h fd n in (r, Getdents fd n r # h))"

definition sys_fstatat :: "os \<Rightarrow> int \<Rightarrow> string \<Rightarrow> hist \<Rightarrow> (int + stat) \<times> hist" where
  "sys_fstatat os dfd name h = (let r = os_fstatat os h dfd name in (r, Fstatat dfd name r # h))"

definition sys_unlinkat :: "os \<Rightarrow> int \<Rightarrow> string \<Rightarrow> bool \<Rightarrow> hist \<Rightarrow> (int + unit) \<times> hist" where
  "sys_unlinkat os dfd name rmdir h = (let r = os_unlinkat os h dfd name rmdir in (r, Unlinkat dfd name rmdir r # h))"

definition sys_opendir :: "os \<Rightarrow> string \<Rightarrow> hist \<Rightarrow> (int + int) \<times> hist" where
  "sys_opendir os path h = (let r = os_opendir os h path in (r, Opendir path r # h))"

definition sys_readdir :: "os \<Rightarrow> int \<Rightarrow> hist \<Rightarrow> string option \<times> hist" where
  "sys_readdir os d h = (let r = os_readdir os h d in (r, Readdir d r # h))"

definition sys_closedir :: "int \<Rightarrow> hist \<Rightarrow> hist" where
  "sys_closedir d h = Closedir d # h"

definition sys_prop_get :: "os \<Rightarrow> string \<Rightarrow> hist \<Rightarrow> string \<times> hist" where
  "sys_prop_get os name h = (let v = os_prop_get os h name in (v, Prop_get name v # h))"

definition sys_ctl :: "os \<Rightarrow> ctl \<Rightarrow> hist \<Rightarrow> (int + int) \<times> hist" where
  "sys_ctl os c h = (let r = os_ctl os h c in (r, Ctl c r # h))"

text \<open>\<open>do ... while (res < 0 && errno == EINTR)\<close>\<close>

partial_function (option) retry_eintr :: "(hist \<Rightarrow> (int + 'a) \<times> hist) \<Rightarrow> hist \<Rightarrow> ((int + 'a) \<times> hist) option" where
  "retry_eintr call h =
     (case call h of (r, h') \<Rightarrow> if r = Inl EINTR then retry_eintr call h' else Some (r, h'))"

section \<open>Total runs\<close>

text \<open>\<open>runs m Q\<close>: the computation returns, with a result in \<open>Q\<close>.\<close>

definition runs :: "'a option \<Rightarrow> ('a \<Rightarrow> bool) \<Rightarrow> bool" where
  "runs m Q \<longleftrightarrow> (case m of None \<Rightarrow> False | Some x \<Rightarrow> Q x)"

lemma runs_simps [simp]: "runs (Some x) Q = Q x" "runs None Q = False"
  "runs (Option.bind m f) Q = runs m (\<lambda>x. runs (f x) Q)"
  by (auto simp: runs_def split: option.splits Option.bind_splits)

lemma runs_mono: "runs m P \<Longrightarrow> (\<And>x. P x \<Longrightarrow> Q x) \<Longrightarrow> runs m Q"
  by (auto simp: runs_def split: option.splits)

lemma runs_Some: "runs m Q \<Longrightarrow> (\<And>x. m = Some x \<Longrightarrow> Q x \<Longrightarrow> P) \<Longrightarrow> P"
  by (auto simp: runs_def split: option.splits)

lemma runs_iff: "runs m Q \<longleftrightarrow> (\<exists>x. m = Some x \<and> Q x)"
  by (auto simp: runs_def split: option.splits)

lemma runs_conj: "runs m P \<Longrightarrow> runs m Q \<Longrightarrow> runs m (\<lambda>x. P x \<and> Q x)"
  by (auto simp: runs_def split: option.splits)

section \<open>How a history grows\<close>

text \<open>\<open>grows P h h'\<close>: every event added on the way from \<open>h\<close> to \<open>h'\<close> satisfies \<open>P\<close>.\<close>

definition grows :: "(event \<Rightarrow> bool) \<Rightarrow> hist \<Rightarrow> hist \<Rightarrow> bool" where
  "grows P h h' \<longleftrightarrow> (\<exists>new. h' = new @ h \<and> (\<forall>e \<in> set new. P e))"

lemma grows_refl [simp, intro]: "grows P h h"
  by (simp add: grows_def)

lemma grows_Cons [intro]: "grows P h h' \<Longrightarrow> P e \<Longrightarrow> grows P h (e # h')"
  unfolding grows_def by (metis append_Cons set_ConsD)

lemma grows_trans: "grows P h h' \<Longrightarrow> grows P h' h'' \<Longrightarrow> grows P h h''"
  unfolding grows_def by (metis append_assoc Un_iff set_append)

lemma grows_mono: "grows P h h' \<Longrightarrow> (\<And>e. P e \<Longrightarrow> Q e) \<Longrightarrow> grows Q h h'"
  by (auto simp: grows_def)

lemma grows_append [simp]: "grows P h (new @ h) \<longleftrightarrow> (\<forall>e \<in> set new. P e)"
  by (simp add: grows_def)

lemma grows_Cons_append [simp]: "grows P h (e # new @ h) \<longleftrightarrow> P e \<and> (\<forall>e \<in> set new. P e)"
  using grows_append [of P h "e # new"] by simp

lemma grows_Cons_self [simp]: "grows P h (e # h) \<longleftrightarrow> P e"
  using grows_append [of P h "[e]"] by simp

lemma growsI: "h' = new @ h \<Longrightarrow> (\<And>e. e \<in> set new \<Longrightarrow> P e) \<Longrightarrow> grows P h h'"
  by (auto simp: grows_def)

lemma growsE: "grows P h h' \<Longrightarrow> (\<And>new. h' = new @ h \<Longrightarrow> \<forall>e \<in> set new. P e \<Longrightarrow> R) \<Longrightarrow> R"
  by (auto simp: grows_def)

text \<open>The descriptors that are open, and the records handed out since a directory was opened.\<close>

fun open_fds :: "hist \<Rightarrow> int set" where
  "open_fds [] = {}"
| "open_fds (Open p f (Inr fd) # h) = insert fd (open_fds h)"
| "open_fds (Openat d p (Inr fd) # h) = insert fd (open_fds h)"
| "open_fds (Epoll_create (Inr fd) # h) = insert fd (open_fds h)"
| "open_fds (Ctl Signalfd (Inr fd) # h) = insert fd (open_fds h)"
| "open_fds (Close fd # h) = open_fds h - {fd}"
| "open_fds (ev # h) = open_fds h"

fun blocks :: "int \<Rightarrow> hist \<Rightarrow> nat" where
  "blocks fd [] = 0"
| "blocks fd (Open p f (Inr fd') # h) = (if fd' = fd then 0 else blocks fd h)"
| "blocks fd (Openat d p (Inr fd') # h) = (if fd' = fd then 0 else blocks fd h)"
| "blocks fd (Getdents fd' n (Inr (d # ds)) # h) = (if fd' = fd then Suc (blocks fd h) else blocks fd h)"
| "blocks fd (ev # h) = blocks fd h"

fun entries :: "int \<Rightarrow> hist \<Rightarrow> nat" where
  "entries d [] = 0"
| "entries d (Opendir p (Inr d') # h) = (if d' = d then 0 else entries d h)"
| "entries d (Readdir d' (Some e) # h) = (if d' = d then Suc (entries d h) else entries d h)"
| "entries d (ev # h) = entries d h"

section \<open>Assumptions on the environment\<close>

text \<open>The history after a call was made \<open>n\<close> times.\<close>

definition repeated :: "(hist \<Rightarrow> (int + 'a) \<times> hist) \<Rightarrow> nat \<Rightarrow> hist \<Rightarrow> hist" where
  "repeated call n h = ((\<lambda>h. snd (call h)) ^^ n) h"

definition settles :: "(hist \<Rightarrow> (int + 'a) \<times> hist) \<Rightarrow> bool" where
  "settles call \<longleftrightarrow> (\<forall>h. \<exists>n. fst (call (repeated call n h)) \<noteq> Inl EINTR)"

definition eintr_fair :: "os \<Rightarrow> bool" where
  "eintr_fair os \<longleftrightarrow> (\<forall>fd n. settles (sys_read os fd n)) \<and> (\<forall>fd n. settles (sys_pread os fd n)) \<and>
     (\<forall>fd b. settles (sys_write os fd b)) \<and> (\<forall>fd b. settles (sys_pwrite os fd b)) \<and>
     (\<forall>fd n. settles (sys_getdents os fd n))"

definition reads_bounded :: "os \<Rightarrow> bool" where
  "reads_bounded os \<longleftrightarrow> (\<forall>h fd n s. os_read os h fd n = Inr s \<longrightarrow> length s \<le> n) \<and>
     (\<forall>h fd n s. os_pread os h fd n = Inr s \<longrightarrow> length s \<le> n)"

definition fds_valid :: "os \<Rightarrow> bool" where
  "fds_valid os \<longleftrightarrow> (\<forall>h p f fd. os_open os h p f = Inr fd \<longrightarrow> 0 \<le> fd \<and> fd \<notin> open_fds h) \<and>
     (\<forall>h fd. os_epoll_create os h = Inr fd \<longrightarrow> 0 \<le> fd \<and> fd \<notin> open_fds h) \<and>
     (\<forall>h d p fd. os_openat os h d p = Inr fd \<longrightarrow> 0 \<le> fd \<and> fd \<notin> open_fds h) \<and>
     (\<forall>h fd. os_ctl os h Signalfd = Inr fd \<longrightarrow> 0 \<le> fd \<and> fd \<notin> open_fds h)"

text \<open>There is a bound on the number of entries of any directory.\<close>

definition dirs_finite :: "os \<Rightarrow> bool" where
  "dirs_finite os \<longleftrightarrow> (\<exists>N. (\<forall>h fd n d ds. N \<le> blocks fd h \<longrightarrow> os_getdents os h fd n \<noteq> Inr (d # ds)) \<and>
     (\<forall>h d e. N \<le> entries d h \<longrightarrow> os_readdir os h d \<noteq> Some e))"

text \<open>Readings are well formed, and a monotonic reading is not before any earlier (well formed) one.\<close>

definition clock_ok :: "os \<Rightarrow> bool" where
  "clock_ok os \<longleftrightarrow> (\<forall>h c. timespec_ok (os_clock os h c)) \<and>
     (\<forall>h t. Clock CLOCK_MONOTONIC t \<in> set h \<longrightarrow> timespec_ok t \<longrightarrow> t \<le> os_clock os h CLOCK_MONOTONIC)"

text \<open>A failed call has a positive errno.\<close>

definition errno_ok :: "os \<Rightarrow> bool" where
  "errno_ok os \<longleftrightarrow> (\<forall>h p f e. os_open os h p f = Inl e \<longrightarrow> 0 < e) \<and>
     (\<forall>h fd n e. os_read os h fd n = Inl e \<longrightarrow> 0 < e) \<and> (\<forall>h fd n e. os_pread os h fd n = Inl e \<longrightarrow> 0 < e) \<and>
     (\<forall>h fd b e. os_write os h fd b = Inl e \<longrightarrow> 0 < e) \<and> (\<forall>h fd b e. os_pwrite os h fd b = Inl e \<longrightarrow> 0 < e) \<and>
     (\<forall>h e. os_epoll_create os h = Inl e \<longrightarrow> 0 < e) \<and> (\<forall>h ep c fd e. os_epoll_ctl os h ep c fd = Inl e \<longrightarrow> 0 < e) \<and>
     (\<forall>h d p e. os_openat os h d p = Inl e \<longrightarrow> 0 < e) \<and> (\<forall>h fd n e. os_getdents os h fd n = Inl e \<longrightarrow> 0 < e) \<and>
     (\<forall>h p e. os_opendir os h p = Inl e \<longrightarrow> 0 < e) \<and> (\<forall>h c e. os_ctl os h c = Inl e \<longrightarrow> 0 < e)"

definition os_ok :: "os \<Rightarrow> bool" where
  "os_ok os \<longleftrightarrow> eintr_fair os \<and> reads_bounded os \<and> fds_valid os \<and> clock_ok os \<and> errno_ok os \<and> dirs_finite os"

lemma os_okD:
  assumes "os_ok os"
  shows "eintr_fair os" "reads_bounded os" "fds_valid os" "clock_ok os" "errno_ok os" "dirs_finite os"
  using assms by (simp_all add: os_ok_def)

section \<open>The retry loop\<close>

lemma repeated_simps: "repeated call 0 h = h" "repeated call (Suc n) h = repeated call n (snd (call h))"
  by (simp_all only: repeated_def funpow_0 funpow_Suc_right o_apply)

lemma retry_eintr_settles:
  assumes "settles call"
  shows "runs (retry_eintr call h) (\<lambda>(r, h'). r \<noteq> Inl EINTR \<and>
    (\<exists>n. (\<forall>i<n. fst (call (repeated call i h)) = Inl EINTR) \<and> (r, h') = call (repeated call n h)))"
proof -
  obtain n where "fst (call (repeated call n h)) \<noteq> Inl EINTR"
    using assms by (auto simp: settles_def)
  then show ?thesis
  proof (induction n arbitrary: h)
    case 0
    then show ?case
      by (subst retry_eintr.simps) (auto simp: repeated_simps split: prod.splits intro!: exI [of _ 0])
  next
    case (Suc n)
    show ?case
    proof (cases "fst (call h) = Inl EINTR")
      case True
      have rec: "runs (retry_eintr call (snd (call h))) (\<lambda>(r, h'). r \<noteq> Inl EINTR \<and>
        (\<exists>n. (\<forall>i<n. fst (call (repeated call i (snd (call h)))) = Inl EINTR) \<and>
          (r, h') = call (repeated call n (snd (call h)))))"
        using Suc.prems by (intro Suc.IH) (simp add: repeated_simps)
      have eq: "retry_eintr call h = retry_eintr call (snd (call h))"
        using True by (cases "call h") (subst retry_eintr.simps, simp)
      have step: "\<exists>n. (\<forall>i<n. fst (call (repeated call i h)) = Inl EINTR) \<and> x = call (repeated call n h)"
        if "\<forall>i<m. fst (call (repeated call i (snd (call h)))) = Inl EINTR" "x = call (repeated call m (snd (call h)))"
        for x m
        using that True by (intro exI [of _ "Suc m"]) (auto simp: repeated_simps less_Suc_eq_0_disj)
      show ?thesis
        unfolding eq by (rule runs_mono [OF rec]) (use step in blast)
    next
      case False
      then show ?thesis
        by (subst retry_eintr.simps) (auto simp: repeated_simps split: prod.splits intro!: exI [of _ 0])
    qed
  qed
qed

text \<open>
  A call that records itself as one event: the interrupted attempts precede the one whose result
  is returned.
\<close>

lemma repeated_record:
  assumes call: "\<And>h. call h = (res h, ev (res h) # h)"
    and "\<forall>i<n. fst (call (repeated call i h)) = Inl EINTR"
  shows "repeated call n h = replicate n (ev (Inl EINTR)) @ h"
  using assms(2)
proof (induction n)
  case (Suc n)
  have c: "fst (call x) = res x" "snd (call x) = ev (res x) # x" for x
    by (simp_all only: call fst_conv snd_conv)
  have "res (repeated call n h) = Inl EINTR"
    using Suc.prems lessI unfolding c(1) by blast
  moreover have "repeated call (Suc n) h = snd (call (repeated call n h))"
    by (simp add: repeated_def)
  moreover have "repeated call n h = replicate n (ev (Inl EINTR)) @ h"
    using Suc.prems by (intro Suc.IH) simp
  ultimately show ?case by (simp only: c replicate_Suc append_Cons)
qed (simp add: repeated_def)

lemma retry_record:
  assumes call: "\<And>h. call h = (res h, ev (res h) # h)" and "settles call"
  shows "runs (retry_eintr call h) (\<lambda>(r, h'). r \<noteq> Inl EINTR \<and>
    (\<exists>n. h' = ev r # replicate n (ev (Inl EINTR)) @ h \<and> r = res (replicate n (ev (Inl EINTR)) @ h)))"
proof -
  have step: "\<exists>n. h' = ev r # replicate n (ev (Inl EINTR)) @ h \<and> r = res (replicate n (ev (Inl EINTR)) @ h)"
    if a: "\<forall>i<n. fst (call (repeated call i h)) = Inl EINTR" and b: "(r, h') = call (repeated call n h)" for r h' n
  proof -
    let ?h = "replicate n (ev (Inl EINTR)) @ h"
    have "repeated call n h = ?h"
      using a by (rule repeated_record [OF call])
    then have "(r, h') = (res ?h, ev (res ?h) # ?h)"
      using b by (simp only: call)
    then show ?thesis by auto
  qed
  show ?thesis
    by (rule runs_mono [OF retry_eintr_settles [OF assms(2), of h]]) (use step in blast)
qed

lemma eintr_fairD:
  assumes "eintr_fair os"
  shows "settles (sys_read os fd n)" "settles (sys_pread os fd n)"
    "settles (sys_write os fd b)" "settles (sys_pwrite os fd b)" "settles (sys_getdents os fd n)"
  using assms by (simp_all add: eintr_fair_def)

lemma retry_read:
  assumes "eintr_fair os"
  shows "runs (retry_eintr (sys_read os fd n) h) (\<lambda>(r, h'). r \<noteq> Inl EINTR \<and>
    (\<exists>k. h' = Read fd n r # replicate k (Read fd n (Inl EINTR)) @ h \<and>
      r = os_read os (replicate k (Read fd n (Inl EINTR)) @ h) fd n))"
  by (rule retry_record [OF _ eintr_fairD(1) [OF assms]]) (simp add: sys_read_def Let_def)

lemma retry_pread:
  assumes "eintr_fair os"
  shows "runs (retry_eintr (sys_pread os fd n) h) (\<lambda>(r, h'). r \<noteq> Inl EINTR \<and>
    (\<exists>k. h' = Pread fd n r # replicate k (Pread fd n (Inl EINTR)) @ h \<and>
      r = os_pread os (replicate k (Pread fd n (Inl EINTR)) @ h) fd n))"
  by (rule retry_record [OF _ eintr_fairD(2) [OF assms]]) (simp add: sys_pread_def Let_def)

lemma retry_write:
  assumes "eintr_fair os"
  shows "runs (retry_eintr (sys_write os fd b) h) (\<lambda>(r, h'). r \<noteq> Inl EINTR \<and>
    (\<exists>k. h' = Write fd b r # replicate k (Write fd b (Inl EINTR)) @ h \<and>
      r = os_write os (replicate k (Write fd b (Inl EINTR)) @ h) fd b))"
  by (rule retry_record [OF _ eintr_fairD(3) [OF assms]]) (simp add: sys_write_def Let_def)

lemma retry_pwrite:
  assumes "eintr_fair os"
  shows "runs (retry_eintr (sys_pwrite os fd b) h) (\<lambda>(r, h'). r \<noteq> Inl EINTR \<and>
    (\<exists>k. h' = Pwrite fd b r # replicate k (Pwrite fd b (Inl EINTR)) @ h \<and>
      r = os_pwrite os (replicate k (Pwrite fd b (Inl EINTR)) @ h) fd b))"
  by (rule retry_record [OF _ eintr_fairD(4) [OF assms]]) (simp add: sys_pwrite_def Let_def)

lemma retry_getdents:
  assumes "eintr_fair os"
  shows "runs (retry_eintr (sys_getdents os fd n) h) (\<lambda>(r, h'). r \<noteq> Inl EINTR \<and>
    (\<exists>k. h' = Getdents fd n r # replicate k (Getdents fd n (Inl EINTR)) @ h \<and>
      r = os_getdents os (replicate k (Getdents fd n (Inl EINTR)) @ h) fd n))"
  by (rule retry_record [OF _ eintr_fairD(5) [OF assms]]) (simp add: sys_getdents_def Let_def)

section \<open>Histories that leave the descriptors as they were\<close>

text \<open>The events that neither open nor close a descriptor.\<close>

fun idle :: "event \<Rightarrow> bool" where
  "idle (Open p f (Inr fd)) = False"
| "idle (Openat d p (Inr fd)) = False"
| "idle (Epoll_create (Inr fd)) = False"
| "idle (Ctl Signalfd (Inr fd)) = False"
| "idle (Close fd) = False"
| "idle e = True"

text \<open>
  What gives a descriptor another meaning: it is closed, or handed out again.  \<open>keeps_open F h h'\<close>: from
  \<open>h\<close> to \<open>h'\<close> this happened to none of \<open>F\<close>.
\<close>

fun rebinds :: "int \<Rightarrow> event \<Rightarrow> bool" where
  "rebinds fd (Open p f (Inr d)) = (d = fd)"
| "rebinds fd (Openat dfd p (Inr d)) = (d = fd)"
| "rebinds fd (Epoll_create (Inr d)) = (d = fd)"
| "rebinds fd (Ctl Signalfd (Inr d)) = (d = fd)"
| "rebinds fd (Close d) = (d = fd)"
| "rebinds fd e = False"

definition keeps_open :: "int set \<Rightarrow> hist \<Rightarrow> hist \<Rightarrow> bool" where
  "keeps_open F h h' \<longleftrightarrow> grows (\<lambda>e. \<forall>fd \<in> F. \<not> rebinds fd e) h h'"

lemma idle_rebinds: "idle e \<Longrightarrow> \<not> rebinds fd e"
  by (cases "(fd, e)" rule: rebinds.cases) auto

lemma keeps_open_refl [simp, intro]: "keeps_open F h h"
  by (simp add: keeps_open_def)

lemma keeps_open_trans: "keeps_open F h h' \<Longrightarrow> keeps_open F h' h'' \<Longrightarrow> keeps_open F h h''"
  unfolding keeps_open_def by (rule grows_trans)

lemma keeps_open_Cons: "keeps_open F h h' \<Longrightarrow> (\<And>fd. fd \<in> F \<Longrightarrow> \<not> rebinds fd e) \<Longrightarrow> keeps_open F h (e # h')"
  unfolding keeps_open_def by (rule grows_Cons) auto

lemma keeps_open_self [simp]: "keeps_open F h (e # h) \<longleftrightarrow> (\<forall>fd \<in> F. \<not> rebinds fd e)"
  by (simp add: keeps_open_def)

lemma keeps_open_mono: "keeps_open G h h' \<Longrightarrow> F \<subseteq> G \<Longrightarrow> keeps_open F h h'"
  unfolding keeps_open_def by (erule grows_mono) blast

lemma keeps_open_new: "keeps_open F h h' \<Longrightarrow> \<exists>new. h' = new @ h"
  by (auto simp: keeps_open_def grows_def)

text \<open>
  \<open>balanced h h'\<close>: from \<open>h\<close> to \<open>h'\<close> the process closed exactly the descriptors it opened, so it did
  not start over a directory it was reading through one that was open.
\<close>

definition balanced :: "hist \<Rightarrow> hist \<Rightarrow> bool" where
  "balanced h h' \<longleftrightarrow> keeps_open (open_fds h) h h' \<and> open_fds h' = open_fds h \<and>
     (\<forall>fd \<in> open_fds h. blocks fd h \<le> blocks fd h')"

lemma idle_fds: "idle e \<Longrightarrow> open_fds (e # h) = open_fds h"
  by (cases "e # h" rule: open_fds.cases) auto

lemma idle_blocks: "idle e \<Longrightarrow> blocks fd h \<le> blocks fd (e # h)"
  by (cases "(fd, e # h)" rule: blocks.cases) auto

text \<open>As long as no directory is opened, the entries read of one only grow in number.\<close>

definition no_opendir :: "event \<Rightarrow> bool" where
  "no_opendir e \<longleftrightarrow> (\<forall>p r. e \<noteq> Opendir p r)"

lemma entries_grows: "grows no_opendir h h' \<Longrightarrow> entries d h \<le> entries d h'"
proof (elim growsE, clarify)
  fix new assume "\<forall>e \<in> set new. no_opendir e"
  then show "entries d h \<le> entries d (new @ h)"
  proof (induction new)
    case (Cons e new)
    then show ?case by (cases "(d, e # new @ h)" rule: entries.cases) (auto simp: no_opendir_def)
  qed simp
qed

lemma balanced_refl [simp, intro]: "balanced h h"
  by (auto simp: balanced_def)

lemma balanced_trans: "balanced h h' \<Longrightarrow> balanced h' h'' \<Longrightarrow> balanced h h''"
  unfolding balanced_def by (metis keeps_open_trans order_trans)

lemma balanced_fds: "balanced h h' \<Longrightarrow> open_fds h' = open_fds h"
  by (simp add: balanced_def)

lemma balanced_keeps: "balanced h h' \<Longrightarrow> F \<subseteq> open_fds h \<Longrightarrow> keeps_open F h h'"
  by (auto simp: balanced_def elim: keeps_open_mono)

lemma balanced_new: "balanced h h' \<Longrightarrow> \<exists>new. h' = new @ h"
  by (auto simp: balanced_def dest: keeps_open_new)

lemma balanced_blocks: "balanced h h' \<Longrightarrow> fd \<in> open_fds h \<Longrightarrow> blocks fd h \<le> blocks fd h'"
  by (simp add: balanced_def)

lemma balanced_Cons [intro]: "balanced h h' \<Longrightarrow> idle e \<Longrightarrow> balanced h (e # h')"
  unfolding balanced_def
  by (metis keeps_open_Cons idle_rebinds idle_fds idle_blocks order_trans)

lemma balanced_append: "(\<And>e. e \<in> set new \<Longrightarrow> idle e) \<Longrightarrow> balanced h (new @ h)"
  by (induction new) auto

lemma balanced_grows: "grows idle h h' \<Longrightarrow> balanced h h'"
  by (auto simp: grows_def intro: balanced_append)

text \<open>A descriptor that is opened, used and closed.\<close>

lemma keeps_open_bracket:
  assumes "fd \<notin> open_fds h" "\<And>d. d \<noteq> fd \<Longrightarrow> \<not> rebinds d e" "keeps_open (open_fds h) (e # h) h'"
  shows "keeps_open (open_fds h) h (Close fd # h')"
proof -
  have n: "d \<noteq> fd" if "d \<in> open_fds h" for d using assms(1) that by blast
  have "keeps_open (open_fds h) h (e # h)" using n assms(2) by (intro keeps_open_Cons) auto
  then have "keeps_open (open_fds h) h h'" using assms(3) by (rule keeps_open_trans)
  then show ?thesis using n by (intro keeps_open_Cons) auto
qed

lemma balanced_bracket:
  assumes "fd \<notin> open_fds h" and b: "balanced (e # h) h'" and e: "open_fds (e # h) = insert fd (open_fds h)"
    "\<And>d. d \<noteq> fd \<Longrightarrow> blocks d (e # h) = blocks d h" "\<And>d. d \<noteq> fd \<Longrightarrow> \<not> rebinds d e"
  shows "balanced h (Close fd # h')"
proof -
  have "keeps_open (open_fds h) (e # h) h'" using b e(1) by (intro balanced_keeps) auto
  then have "keeps_open (open_fds h) h (Close fd # h')" by (rule keeps_open_bracket [OF assms(1), rotated]) (rule e(3))
  moreover have "open_fds (Close fd # h') = open_fds h"
    using assms(1) b unfolding balanced_def e by auto
  moreover have "\<forall>d \<in> open_fds h. blocks d h \<le> blocks d (Close fd # h')"
  proof
    fix d assume d: "d \<in> open_fds h"
    then have "d \<noteq> fd" using assms(1) by blast
    moreover have "blocks d (e # h) \<le> blocks d h'" using balanced_blocks [OF b] d e(1) by blast
    ultimately show "blocks d h \<le> blocks d (Close fd # h')" using e(2) by simp
  qed
  ultimately show ?thesis using b unfolding balanced_def e by simp
qed

lemma balanced_open: "fd \<notin> open_fds h \<Longrightarrow> balanced (Open p f (Inr fd) # h) h' \<Longrightarrow> balanced h (Close fd # h')"
  by (erule balanced_bracket) auto

lemma balanced_openat: "fd \<notin> open_fds h \<Longrightarrow> balanced (Openat d p (Inr fd) # h) h' \<Longrightarrow> balanced h (Close fd # h')"
  by (erule balanced_bracket) auto

lemma fresh_fd:
  assumes "os_ok os"
  shows "os_open os h p f = Inr fd \<Longrightarrow> fd \<notin> open_fds h" "os_openat os h d n = Inr fd \<Longrightarrow> fd \<notin> open_fds h"
    "os_open os h p f = Inr fd \<Longrightarrow> 0 \<le> fd" "os_openat os h d n = Inr fd \<Longrightarrow> 0 \<le> fd"
  using os_okD(3) [OF assms] by (auto simp: fds_valid_def)

section \<open>What is removed from the file system\<close>

text \<open>
  \<open>deletes_ok n D h\<close>: every removal in the history, but for its oldest \<open>n\<close> events, was allowed by
  \<open>D\<close>, which sees what had happened by then.
\<close>

fun deletes_ok :: "nat \<Rightarrow> (int \<Rightarrow> string \<Rightarrow> bool \<Rightarrow> hist \<Rightarrow> bool) \<Rightarrow> hist \<Rightarrow> bool" where
  "deletes_ok n D [] = True"
| "deletes_ok n D (Unlinkat dfd name rmdir r # h) = ((n \<le> length h \<longrightarrow> D dfd name rmdir h) \<and> deletes_ok n D h)"
| "deletes_ok n D (e # h) = deletes_ok n D h"

lemma deletes_ok_old: "length h \<le> n \<Longrightarrow> deletes_ok n D h"
  by (induction n D h rule: deletes_ok.induct) auto

lemma deletes_ok_append: "deletes_ok n D h \<Longrightarrow> deletes_ok (length h) D (new @ h) \<Longrightarrow> deletes_ok n D (new @ h)"
proof (induction new)
  case (Cons e new)
  then show ?case by (cases "(n, D, e # new @ h)" rule: deletes_ok.cases) auto
qed simp

lemma deletes_okD: "deletes_ok n D (xs @ Unlinkat dfd name rmdir r # ys) \<Longrightarrow> n \<le> length ys \<Longrightarrow> D dfd name rmdir ys"
proof (induction xs)
  case (Cons e xs)
  then show ?case by (cases "(n, D, e # xs @ Unlinkat dfd name rmdir r # ys)" rule: deletes_ok.cases) auto
qed simp

text \<open>Descriptors as they were, nothing written to a file, and no removal since but the allowed ones.\<close>

fun writes :: "event \<Rightarrow> bool" where
  "writes (Write fd b r) = True"
| "writes (Pwrite fd b r) = True"
| "writes e = False"

text \<open>Neither a write to a file nor a change of a system property.\<close>

fun sets_prop :: "event \<Rightarrow> bool" where
  "sets_prop (Ctl (Prop_set n v) r) = True"
| "sets_prop e = False"

definition quiet :: "event \<Rightarrow> bool" where
  "quiet e \<longleftrightarrow> \<not> writes e \<and> \<not> sets_prop e"

lemma quiet_simps [simp]: "quiet (Clock c t)" "quiet (Open p f ro)" "quiet (Close fd)" "quiet (Read fd n rs)" "quiet (Pread fd n rs)"
  "quiet (Epoll_create ro)" "quiet (Epoll_ctl ep op fd ru)" "quiet (Epoll_wait ep n w re)" "quiet (Openat d p ro)" "quiet (Getdents fd n rd)"
  "quiet (Fstatat d p rt)" "quiet (Unlinkat d p rmdir ru)" "quiet (Opendir p ro)" "quiet (Readdir d rr)" "quiet (Closedir d)" "quiet (Prop_get p v)"
  "\<not> quiet (Write fd b rn)" "\<not> quiet (Pwrite fd b rn)" "quiet (Ctl ctl ro) \<longleftrightarrow> (\<forall>p v. ctl \<noteq> Prop_set p v)"
  by (auto simp: quiet_def elim: sets_prop.elims)

definition tame :: "(int \<Rightarrow> string \<Rightarrow> bool \<Rightarrow> hist \<Rightarrow> bool) \<Rightarrow> hist \<Rightarrow> hist \<Rightarrow> bool" where
  "tame D h h' \<longleftrightarrow> balanced h h' \<and> deletes_ok (length h) D h' \<and> grows quiet h h'"

lemma tame_refl [simp, intro]: "tame D h h"
  by (simp add: tame_def deletes_ok_old)

lemma tame_trans: "tame D h h' \<Longrightarrow> tame D h' h'' \<Longrightarrow> tame D h h''"
proof -
  assume t: "tame D h h'" "tame D h' h''"
  then obtain new where "h'' = new @ h'" by (auto simp: tame_def dest: balanced_new)
  then have "deletes_ok (length h) D h''" using t by (auto simp: tame_def intro: deletes_ok_append)
  then show ?thesis using t by (auto simp: tame_def intro: balanced_trans grows_trans)
qed

lemma tame_fds: "tame D h h' \<Longrightarrow> open_fds h' = open_fds h"
  by (simp add: tame_def balanced_fds)

definition inert :: "event \<Rightarrow> bool" where
  "inert e \<longleftrightarrow> idle e \<and> quiet e \<and> (\<forall>dfd name rmdir r. e \<noteq> Unlinkat dfd name rmdir r)"

lemma inert_deletes: "inert e \<Longrightarrow> deletes_ok n D (e # h) = deletes_ok n D h"
  by (cases "(n, D, e # h)" rule: deletes_ok.cases) (auto simp: inert_def)

lemma tame_Cons: "tame D h h' \<Longrightarrow> inert e \<Longrightarrow> tame D h (e # h')"
  by (auto simp: tame_def inert_deletes inert_def)

lemma tame_append: "(\<And>e. e \<in> set new \<Longrightarrow> inert e) \<Longrightarrow> tame D h (new @ h)"
  by (induction new) (auto intro: tame_Cons)

lemma tame_grows: "grows inert h h' \<Longrightarrow> tame D h h'"
  by (auto simp: grows_def intro: tame_append)

lemma tame_delete: "tame D h h' \<Longrightarrow> D dfd name rmdir h' \<Longrightarrow> tame D h (Unlinkat dfd name rmdir r # h')"
  by (auto simp: tame_def)

lemma tame_bracket:
  assumes "balanced h (Close fd # h')" "tame D (e # h) h'"
    and "\<And>n h. deletes_ok n D (e # h) = deletes_ok n D h" and w: "quiet e"
  shows "tame D h (Close fd # h')"
proof -
  obtain new where "h' = new @ e # h" using assms(2) by (auto simp: tame_def dest: balanced_new)
  have "grows quiet h h'"
    using assms(2) w grows_trans [of _ h "e # h" h'] by (auto simp: tame_def)
  moreover from this have "deletes_ok (length h) D h'"
    using assms(2,3) deletes_ok_append [of "length h" D "e # h" new] \<open>h' = new @ e # h\<close> by (simp add: tame_def deletes_ok_old)
  ultimately show ?thesis using assms(1) by (auto simp: tame_def)
qed

lemma tame_open: "fd \<notin> open_fds h \<Longrightarrow> tame D (Open p f (Inr fd) # h) h' \<Longrightarrow> tame D h (Close fd # h')"
  by (rule tame_bracket) (auto simp: tame_def inert_def quiet_def intro: balanced_open)

lemma tame_openat: "fd \<notin> open_fds h \<Longrightarrow> tame D (Openat d p (Inr fd) # h) h' \<Longrightarrow> tame D h (Close fd # h')"
  by (rule tame_bracket) (auto simp: tame_def inert_def quiet_def intro: balanced_openat)

section \<open>Looking without touching\<close>

text \<open>The events that change something outside the process or about it.\<close>

fun changes :: "event \<Rightarrow> bool" where
  "changes (Write fd b r) = True"
| "changes (Pwrite fd b r) = True"
| "changes (Unlinkat d p rmdir r) = True"
| "changes (Epoll_ctl ep c fd r) = True"
| "changes (Ctl Sysconf_nproc r) = False"
| "changes (Ctl Getuid r) = False"
| "changes (Ctl (Access p) r) = False"
| "changes (Ctl c r) = True"
| "changes e = False"

lemma changes_quiet: "\<not> changes e \<Longrightarrow> quiet e"
  by (cases e rule: changes.cases) (auto simp: quiet_def)

text \<open>\<open>looks h h'\<close>: the process looked at the machine, and left it and its own descriptors as they were.\<close>

definition looks :: "hist \<Rightarrow> hist \<Rightarrow> bool" where
  "looks h h' \<longleftrightarrow> balanced h h' \<and> grows (\<lambda>e. \<not> changes e) h h'"

lemma looks_refl [simp, intro]: "looks h h"
  by (simp add: looks_def)

lemma looks_trans: "looks h h' \<Longrightarrow> looks h' h'' \<Longrightarrow> looks h h''"
  by (auto simp: looks_def intro: balanced_trans grows_trans)

lemma looks_Cons: "looks h h' \<Longrightarrow> idle e \<Longrightarrow> \<not> changes e \<Longrightarrow> looks h (e # h')"
  by (auto simp: looks_def)

lemma looks_append: "(\<And>e. e \<in> set new \<Longrightarrow> idle e \<and> \<not> changes e) \<Longrightarrow> looks h (new @ h)"
  by (induction new) (auto intro: looks_Cons)

lemma looks_open:
  assumes "fd \<notin> open_fds h" "looks (Open p f (Inr fd) # h) h'"
  shows "looks h (Close fd # h')"
proof -
  have "grows (\<lambda>e. \<not> changes e) h h'"
    using assms(2) by (auto simp: looks_def intro: grows_trans [of _ h "Open p f (Inr fd) # h"])
  then show ?thesis
    using assms balanced_open [OF assms(1), of p f h'] by (auto simp: looks_def)
qed

lemma looks_fds: "looks h h' \<Longrightarrow> open_fds h' = open_fds h"
  by (simp add: looks_def balanced_fds)

lemma looks_tame: "looks h h' \<Longrightarrow> tame D h h'"
proof -
  assume l: "looks h h'"
  then obtain new where new: "h' = new @ h" "\<forall>e \<in> set new. \<not> changes e" by (auto simp: looks_def grows_def)
  have "deletes_ok (length h) D (new @ h)"
    using new(2)
  proof (induction new)
    case (Cons e new)
    then show ?case by (cases "(length h, D, e # new @ h)" rule: deletes_ok.cases) auto
  qed (simp add: deletes_ok_old)
  moreover have "\<forall>e \<in> set new. quiet e"
    using new(2) changes_quiet by blast
  ultimately show ?thesis using l new(1) by (auto simp: tame_def looks_def)
qed

text \<open>Opening a file, reading it once (with retries) and closing it.\<close>

lemma looks_read:
  assumes "fd \<notin> open_fds h"
  shows "looks h (Close fd # Read fd n r # replicate k (Read fd n r') @ Open p f (Inr fd) # h)"
  by (rule looks_open [OF assms, of p f], rule looks_Cons [OF looks_append]) auto

section \<open>A concrete environment\<close>

text \<open>
  A machine on which every call succeeds, every file reads \<open>42\<close>, every directory is empty, a new
  descriptor is above all earlier ones and the clock stands still: it shows the latest reading
  already made. It satisfies all the assumptions, so the theorems that rest on them are not vacuous.
\<close>

fun sample_time :: "hist \<Rightarrow> timespec" where
  "sample_time [] = Timespec 100 0"
| "sample_time (Clock CLOCK_MONOTONIC t # h) = (if timespec_ok t then max t (sample_time h) else sample_time h)"
| "sample_time (ev # h) = sample_time h"

fun sample_fd :: "hist \<Rightarrow> int" where
  "sample_fd [] = 3"
| "sample_fd (Open p f (Inr fd) # h) = max (fd + 1) (sample_fd h)"
| "sample_fd (Openat d p (Inr fd) # h) = max (fd + 1) (sample_fd h)"
| "sample_fd (Epoll_create (Inr fd) # h) = max (fd + 1) (sample_fd h)"
| "sample_fd (Ctl Signalfd (Inr fd) # h) = max (fd + 1) (sample_fd h)"
| "sample_fd (ev # h) = sample_fd h"

definition sample_os :: os where
  "sample_os = \<lparr>os_clock = \<lambda>h c. sample_time h, os_open = \<lambda>h p f. Inr (sample_fd h), os_read = \<lambda>h fd n. Inr (take n ''42''),
     os_pread = \<lambda>h fd n. Inr (take n ''42''), os_write = \<lambda>h fd b. Inr (length b), os_pwrite = \<lambda>h fd b. Inr (length b),
     os_epoll_create = \<lambda>h. Inr (sample_fd h), os_epoll_ctl = \<lambda>h ep c fd. Inr (), os_epoll_wait = \<lambda>h ep n t. Inr [],
     os_openat = \<lambda>h d p. Inr (sample_fd h), os_getdents = \<lambda>h fd n. Inr [], os_fstatat = \<lambda>h d p. Inl ENOENT,
     os_unlinkat = \<lambda>h d p r. Inr (), os_opendir = \<lambda>h p. Inr 1, os_readdir = \<lambda>h d. None, os_prop_get = \<lambda>h p. ''1'',
     os_ctl = \<lambda>h c. Inr (if c = Signalfd then sample_fd h else 0)\<rparr>"

lemma settles_ok: "(\<And>h. fst (call h) \<noteq> Inl EINTR) \<Longrightarrow> settles call"
  unfolding settles_def by blast

lemma sample_time_ok: "timespec_ok (sample_time h)"
  by (induction h rule: sample_time.induct) (auto simp: timespec_ok_def max_def word_sle_eq word_sless_alt)

lemma sample_time_mono: "Clock CLOCK_MONOTONIC t \<in> set h \<Longrightarrow> timespec_ok t \<Longrightarrow> t \<le> sample_time h"
  by (induction h rule: sample_time.induct) (auto simp: le_max_iff_disj)

lemma sample_fd_fresh: "3 \<le> sample_fd h" "\<forall>fd \<in> open_fds h. fd < sample_fd h"
  by (induction h rule: sample_fd.induct) auto

lemma sample_os_ok: "os_ok sample_os"
proof -
  have "clock_ok sample_os"
    by (simp add: clock_ok_def sample_os_def sample_time_ok sample_time_mono)
  moreover have "fds_valid sample_os"
    unfolding fds_valid_def sample_os_def using sample_fd_fresh less_irrefl by (auto intro: order_trans [of 0 3])
  moreover have "eintr_fair sample_os" "reads_bounded sample_os" "errno_ok sample_os" "dirs_finite sample_os"
    by (auto simp: eintr_fair_def reads_bounded_def errno_ok_def dirs_finite_def sample_os_def sys_read_def sys_pread_def
        sys_write_def sys_pwrite_def sys_getdents_def Let_def intro!: settles_ok)
  ultimately show ?thesis by (simp add: os_ok_def)
qed

end
