(* ===== verification/Pg_Parser.thy ===== *)
theory Pg_Parser
  imports Pg_Math
begin

text \<open>
  Text to number and back, \<^verbatim>\<open>include/parser.h\<close>.  A byte buffer is a \<open>string\<close> (a list of
  bytes); the buffers passed to the parsers are never longer than the bytes they hold, so the
  length argument \<open>len\<close> of the C functions is at most the length of the list.
  The lemmas give the round trip of \<open>pg_fmt_u64\<close> and \<open>pg_parse_u64\<close>, the saturation of
  \<open>pg_parse_i32\<close>, the value of \<open>pg_parse_q16\<close>, and the sizes of the formatted texts.
\<close>

section \<open>Formatting\<close>

abbreviation newline :: char where
  "newline \<equiv> CHR 0x0A"

text \<open>\<open>*(--p) = (char)((val % 10) + '0'); val /= 10\<close> until \<open>val\<close> is 0.\<close>

function fmt_u64_loop :: "u64 \<Rightarrow> string \<Rightarrow> string" where
  "fmt_u64_loop val acc =
     (if 0 < val then fmt_u64_loop (val div 10) (char_of (unat (val mod 10 + 48)) # acc) else acc)"
  by pat_completeness auto
termination
  by (relation "measure (\<lambda>(val, acc). unat val)") (auto simp: word_gt_0 unat_div unat_gt_0)

declare fmt_u64_loop.simps [simp del]

definition pg_fmt_u64 :: "u64 \<Rightarrow> string" where
  "pg_fmt_u64 val = (if val = 0 then [CHR ''0'', newline] else fmt_u64_loop val [newline])"

function fmt_u32_loop :: "u32 \<Rightarrow> string \<Rightarrow> string" where
  "fmt_u32_loop val acc =
     (if 0 < val then fmt_u32_loop (val div 10) (char_of (unat (val mod 10 + 48)) # acc) else acc)"
  by pat_completeness auto
termination
  by (relation "measure (\<lambda>(val, acc). unat val)") (auto simp: word_gt_0 unat_div unat_gt_0)

declare fmt_u32_loop.simps [simp del]

definition pg_fmt_u32 :: "u32 \<Rightarrow> string" where
  "pg_fmt_u32 val = (if val = 0 then [CHR ''0''] else fmt_u32_loop val [])"

section \<open>Parsing\<close>

definition is_digit :: "char \<Rightarrow> bool" where
  "is_digit b \<longleftrightarrow> 48 \<le> (of_char b :: nat) \<and> (of_char b :: nat) \<le> 57"

definition is_ws :: "char \<Rightarrow> bool" where
  "is_ws b \<longleftrightarrow> b = CHR 0x0A \<or> b = CHR 0x0D \<or> b = CHR '' '' \<or> b = CHR 0x09"

text \<open>
  The loop of \<open>pg_parse_i32\<close> over the remaining bytes, with its three variables; \<open>None\<close> is the
  early \<open>return 0\<close> with \<open>*valid = false\<close>.
\<close>

fun parse_i32_loop :: "string \<Rightarrow> u64 \<Rightarrow> i32 \<Rightarrow> bool \<Rightarrow> (u64 \<times> i32 \<times> bool) option" where
  "parse_i32_loop [] val sign valid = Some (val, sign, valid)"
| "parse_i32_loop (b # bs) val sign valid =
     (if is_digit b
      then parse_i32_loop bs (if val \<le> 2147483648 then val * 10 + (of_char b - 48) else val) sign True
      else if b = CHR ''-'' \<and> \<not> valid then parse_i32_loop bs val (- 1) valid
      else if is_ws b then (if valid then Some (val, sign, valid) else parse_i32_loop bs val sign valid)
      else None)"

text \<open>The result and \<open>*valid\<close>.\<close>

definition pg_parse_i32 :: "string \<Rightarrow> nat \<Rightarrow> i32 \<times> bool" where
  "pg_parse_i32 buf len =
     (case parse_i32_loop (take len buf) 0 1 False of
        None \<Rightarrow> (0, False)
      | Some (val, sign, valid) \<Rightarrow>
          (let res = val * (scast sign :: i64)
           in if scast INT32_MAX <s res then (INT32_MAX, valid)
              else if res <s scast INT32_MIN then (INT32_MIN, valid)
              else (ucast res, valid)))"

text \<open>The value and \<open>*next\<close>.\<close>

function parse_u64_loop :: "string \<Rightarrow> nat \<Rightarrow> nat \<Rightarrow> u64 \<Rightarrow> u64 \<times> nat" where
  "parse_u64_loop buf len pos val =
     (if pos < len
      then (let b = buf ! pos
            in if \<not> is_digit b then (val, pos)
               else parse_u64_loop buf len (pos + 1)
                      (if val \<le> 1844674407370955161 then val * 10 + (of_char b - 48) else val))
      else (val, pos))"
  by pat_completeness auto
termination
  by (relation "measure (\<lambda>(buf, len, pos, val). len - pos)") auto

declare parse_u64_loop.simps [simp del]

definition pg_parse_u64 :: "string \<Rightarrow> nat \<Rightarrow> nat \<Rightarrow> u64 \<times> nat" where
  "pg_parse_u64 buf len start = parse_u64_loop buf len start 0"

function parse_q16_loop ::
    "string \<Rightarrow> nat \<Rightarrow> nat \<Rightarrow> u32 \<Rightarrow> u32 \<Rightarrow> u32 \<Rightarrow> bool \<Rightarrow> u32 \<times> u32 \<times> u32 \<times> bool \<times> nat" where
  "parse_q16_loop buf len pos int_val f_val f_div frac =
     (if pos < len
      then (let b = buf ! pos
            in if b = CHR ''.'' then parse_q16_loop buf len (pos + 1) int_val f_val f_div True
               else if \<not> is_digit b then (int_val, f_val, f_div, frac, pos)
               else if \<not> frac
                 then parse_q16_loop buf len (pos + 1) (int_val * 10 + (of_char b - 48)) f_val f_div frac
               else if f_div < 1000000
                 then parse_q16_loop buf len (pos + 1) int_val (f_val * 10 + (of_char b - 48)) (f_div * 10) frac
               else parse_q16_loop buf len (pos + 1) int_val f_val f_div frac)
      else (int_val, f_val, f_div, frac, pos))"
  by pat_completeness auto
termination
  by (relation "measure (\<lambda>(buf, len, pos, i, f, d, fr). len - pos)") auto

declare parse_q16_loop.simps [simp del]

definition pg_parse_q16 :: "string \<Rightarrow> nat \<Rightarrow> nat \<Rightarrow> q16 \<times> nat" where
  "pg_parse_q16 buf len start =
     (case parse_q16_loop buf len start 0 0 1 False of
        (int_val, f_val, f_div, frac, pos) \<Rightarrow>
          (let val = push_bit 16 int_val
           in if frac \<and> 1 < f_div
              then (val + ucast (push_bit 16 (ucast f_val :: u64) div ucast f_div), pos)
              else (val, pos)))"

section \<open>Decimal texts\<close>

text \<open>The reference: the decimal text of a number, and the number of a list of digits.\<close>

definition digit :: "nat \<Rightarrow> char" where
  "digit n = char_of (n + 48)"

fun decimal :: "nat \<Rightarrow> string" where
  "decimal n = (if n < 10 then [digit n] else decimal (n div 10) @ [digit (n mod 10)])"

declare decimal.simps [simp del]

definition dval :: "char \<Rightarrow> nat" where
  "dval c = of_char c - 48"

definition dec_from :: "nat \<Rightarrow> string \<Rightarrow> nat" where
  "dec_from a ds = foldl (\<lambda>a c. 10 * a + dval c) a ds"

abbreviation dec :: "string \<Rightarrow> nat" where
  "dec ds \<equiv> dec_from 0 ds"

abbreviation digits :: "string \<Rightarrow> bool" where
  "digits ds \<equiv> list_all is_digit ds"

lemma dec_from_simps [simp]:
  "dec_from a [] = a" "dec_from a (d # ds) = dec_from (10 * a + dval d) ds"
  "dec_from a (ds @ es) = dec_from (dec_from a ds) es"
  by (simp_all add: dec_from_def)

lemma dec_from_ge: "a \<le> dec_from a ds"
proof (induction ds arbitrary: a)
  case (Cons d ds)
  have "10 * a + dval d \<le> dec_from (10 * a + dval d) ds" by (rule Cons.IH)
  then show ?case by simp
qed simp

lemma dval_less: "is_digit c \<Longrightarrow> dval c < 10"
  by (auto simp: is_digit_def dval_def)

lemma dec_less: "digits ds \<Longrightarrow> dec ds < 10 ^ length ds"
proof (induction ds rule: rev_induct)
  case (snoc d ds)
  then have "dec ds < 10 ^ length ds" "dval d < 10" by (simp_all add: dval_less)
  then have "10 * dec ds + dval d < 10 * 10 ^ length ds" by linarith
  then show ?case by simp
qed simp

lemma digit_simps [simp]: "n < 10 \<Longrightarrow> is_digit (digit n)" "n < 10 \<Longrightarrow> dval (digit n) = n"
  by (simp_all add: digit_def is_digit_def dval_def)

lemma decimal_digits: "digits (decimal n)" and dec_decimal: "dec (decimal n) = n"
  and decimal_not_Nil: "decimal n \<noteq> []"
  by (induction n rule: decimal.induct; subst decimal.simps; simp)+

lemma length_decimal: "n < 10 ^ Suc k \<Longrightarrow> length (decimal n) \<le> Suc k"
proof (induction k arbitrary: n)
  case 0
  then show ?case by (simp add: decimal.simps)
next
  case (Suc k)
  then have "n div 10 < 10 ^ Suc k" by (simp add: div_less_iff_less_mult mult.commute)
  with Suc.IH show ?case by (subst decimal.simps) auto
qed

lemma of_char_word: "(of_char c :: 'a::len word) = word_of_nat (of_char c)"
  by (cases c) (simp add: if_distrib [of of_nat] cong: if_cong)

lemma is_digit_obtain: "is_digit c \<Longrightarrow> (\<And>n. of_char c = 48 + (n::nat) \<Longrightarrow> n < 10 \<Longrightarrow> dval c = n \<Longrightarrow> P) \<Longrightarrow> P"
proof -
  assume d: "is_digit c" and P: "\<And>n. of_char c = 48 + (n::nat) \<Longrightarrow> n < 10 \<Longrightarrow> dval c = n \<Longrightarrow> P"
  have "of_char c = 48 + dval c" "dval c < 10"
    using d by (auto simp: is_digit_def dval_def)
  then show P by (intro P [of "dval c"]) simp_all
qed

lemma of_char_dval: "is_digit c \<Longrightarrow> (of_char c - 48 :: 'a::len word) = word_of_nat (dval c)"
  by (erule is_digit_obtain) (simp add: of_char_word)

lemma unat_dval_64: "is_digit c \<Longrightarrow> unat (of_char c - 48 :: u64) = dval c"
  and unat_dval_32: "is_digit c \<Longrightarrow> unat (of_char c - 48 :: u32) = dval c"
  using dval_less [of c] by (simp_all add: of_char_dval unat_of_nat)

lemma char_of_digit_64: "char_of (unat (v mod 10 + 48 :: u64)) = digit (unat v mod 10)"
  and char_of_digit_32: "char_of (unat (w mod 10 + 48 :: u32)) = digit (unat w mod 10)"
proof -
  have "unat (v mod 10 + 48) = unat v mod 10 + 48" "unat (w mod 10 + 48) = unat w mod 10 + 48"
    by (simp_all add: unat_word_ariths unat_mod)
  then show "char_of (unat (v mod 10 + 48)) = digit (unat v mod 10)"
    "char_of (unat (w mod 10 + 48)) = digit (unat w mod 10)"
    by (simp_all only: digit_def)
qed

lemma fmt_u64_loop_eq: "0 < v \<Longrightarrow> fmt_u64_loop v acc = decimal (unat v) @ acc"
proof (induction v acc rule: fmt_u64_loop.induct)
  case (1 v acc)
  show ?case
  proof (cases "unat v < 10")
    case True
    then have "v div 10 = 0" by (simp add: word_unat_eq_iff unat_div)
    with 1 True show ?thesis
      by (subst fmt_u64_loop.simps, subst fmt_u64_loop.simps, subst decimal.simps) (simp only: char_of_digit_64, simp)
  next
    case False
    then have "0 < v div 10" by (simp add: word_less_nat_alt unat_div)
    with 1 False show ?thesis
      by (subst fmt_u64_loop.simps, subst decimal.simps) (simp only: char_of_digit_64, simp add: unat_div)
  qed
qed

lemma fmt_u32_loop_eq: "0 < v \<Longrightarrow> fmt_u32_loop v acc = decimal (unat v) @ acc"
proof (induction v acc rule: fmt_u32_loop.induct)
  case (1 v acc)
  show ?case
  proof (cases "unat v < 10")
    case True
    then have "v div 10 = 0" by (simp add: word_unat_eq_iff unat_div)
    with 1 True show ?thesis
      by (subst fmt_u32_loop.simps, subst fmt_u32_loop.simps, subst decimal.simps) (simp only: char_of_digit_32, simp)
  next
    case False
    then have "0 < v div 10" by (simp add: word_less_nat_alt unat_div)
    with 1 False show ?thesis
      by (subst fmt_u32_loop.simps, subst decimal.simps) (simp only: char_of_digit_32, simp add: unat_div)
  qed
qed

lemma decimal_0: "decimal 0 = ''0''"
  by (simp add: decimal.simps digit_def char_of_def bit_0)

lemma fmt_u64_eq: "pg_fmt_u64 v = decimal (unat v) @ [newline]"
  by (simp add: pg_fmt_u64_def fmt_u64_loop_eq decimal_0 word_gt_0)

lemma fmt_u32_eq: "pg_fmt_u32 v = decimal (unat v)"
  by (simp add: pg_fmt_u32_def fmt_u32_loop_eq decimal_0 word_gt_0)

text \<open>Both temporaries, \<open>tmp[32]\<close> and \<open>tmp[16]\<close>, hold the longest text.\<close>

lemma length_fmt_u64: "length (pg_fmt_u64 v) \<le> 21"
  and length_fmt_u32: "length (pg_fmt_u32 w) \<le> 10"
  using length_decimal [of "unat v" 19] length_decimal [of "unat w" 9]
    unsigned_less [of v, where ?'a = nat] unsigned_less [of w, where ?'a = nat]
  by (simp_all add: fmt_u64_eq fmt_u32_eq)

section \<open>What the parsers compute\<close>

lemma parse_u64_step:
  fixes val :: u64
  assumes "is_digit d" "10 * unat val + dval d < 2 ^ 64"
  shows "unat (if val \<le> 1844674407370955161 then val * 10 + (of_char d - 48) else val) = 10 * unat val + dval d"
proof -
  have "unat (val * 10) = unat val * 10"
    using assms by (subst unat_mult_lem [THEN iffD1]) simp_all
  moreover from this have "unat (val * 10 + (of_char d - 48)) = unat val * 10 + dval d"
    using assms by (subst unat_add_lem [THEN iffD1]) (simp_all add: unat_dval_64)
  ultimately show ?thesis
    using assms by (simp add: word_le_nat_alt)
qed

lemma parse_u64_loop_digits:
  assumes "digits ds" "dec_from (unat val) ds < 2 ^ 64" "stop = [] \<or> \<not> is_digit (hd stop)"
  shows "parse_u64_loop (pre @ ds @ stop) (length (pre @ ds @ stop)) (length pre) val =
    (word_of_nat (dec_from (unat val) ds), length (pre @ ds))"
  using assms(1,2)
proof (induction ds arbitrary: pre val)
  case Nil
  then show ?case using assms(3)
    by (cases stop) (subst parse_u64_loop.simps; simp add: nth_append Let_def)+
next
  case (Cons d ds)
  let ?val' = "if val \<le> 1844674407370955161 then val * 10 + (of_char d - 48) else val"
  have "10 * unat val + dval d < 2 ^ 64"
    using Cons.prems dec_from_ge [of "10 * unat val + dval d" ds] by simp
  with Cons.prems have u: "unat ?val' = 10 * unat val + dval d"
    by (intro parse_u64_step) simp_all
  have "parse_u64_loop ((pre @ [d]) @ ds @ stop) (length ((pre @ [d]) @ ds @ stop)) (length (pre @ [d])) ?val' =
    (word_of_nat (dec_from (unat ?val') ds), length ((pre @ [d]) @ ds))"
    using Cons.prems u by (intro Cons.IH) simp_all
  then show ?case
    using Cons.prems u by (subst parse_u64_loop.simps) (simp add: Let_def)
qed

lemma parse_u64_digits:
  assumes "digits ds" "dec ds < 2 ^ 64" "stop = [] \<or> \<not> is_digit (hd stop)"
  shows "pg_parse_u64 (pre @ ds @ stop) (length (pre @ ds @ stop)) (length pre) =
    (word_of_nat (dec ds), length (pre @ ds))"
  using parse_u64_loop_digits [of ds 0] assms by (simp add: pg_parse_u64_def)

text \<open>The saturation test admits a last digit that does not fit: the accumulator wraps.\<close>

lemma parse_u64_wraps: "fst (pg_parse_u64 ''18446744073709551617'' 20 0) = 1"
  by (simp add: pg_parse_u64_def parse_u64_loop.simps is_digit_def Let_def of_char_word nth_Cons')

lemma parse_i32_step:
  assumes "is_digit d" "unat val \<le> 21474836489"
  shows "let val' = (if val \<le> 2147483648 then val * 10 + (of_char d - 48 :: u64) else val)
    in min 2147483649 (unat val') = min 2147483649 (10 * unat val + dval d) \<and> unat val' \<le> 21474836489"
proof (cases "unat val \<le> 2147483648")
  case True
  then have "unat (val * 10) = unat val * 10"
    by (subst unat_mult_lem [THEN iffD1]) simp_all
  moreover from this have "unat (val * 10 + (of_char d - 48)) = unat val * 10 + dval d"
    using True assms dval_less [of d] by (subst unat_add_lem [THEN iffD1]) (simp_all add: unat_dval_64)
  ultimately show ?thesis
    using True dval_less [of d] assms by (simp add: word_le_nat_alt Let_def)
next
  case False
  then show ?thesis using assms by (simp add: word_le_nat_alt Let_def)
qed

lemma dec_from_min: "min m (dec_from (min m a) ds) = min m (dec_from a ds)"
proof (induction ds arbitrary: a)
  case (Cons d ds)
  show ?case
  proof (cases "a \<le> m")
    case False
    then have "m \<le> dec_from (10 * m + dval d) ds" "m \<le> dec_from (10 * a + dval d) ds"
      using dec_from_ge [of "10 * m + dval d" ds] dec_from_ge [of "10 * a + dval d" ds] by linarith+
    then show ?thesis using False by simp
  qed simp
qed simp

lemma dec_from_min_cong: "min m a = min m b \<Longrightarrow> min m (dec_from a ds) = min m (dec_from b ds)"
  using dec_from_min [of m a ds] dec_from_min [of m b ds] by simp

text \<open>What may follow the digits: the end of the buffer, or white space and anything.\<close>

lemma parse_i32_loop_digits:
  assumes "digits ds" "unat val \<le> 21474836489" "valid \<or> ds \<noteq> []" "stop = [] \<or> is_ws (hd stop)"
  shows "\<exists>val'. parse_i32_loop (ds @ stop) val sign valid = Some (val', sign, True) \<and>
    min 2147483649 (unat val') = min 2147483649 (dec_from (unat val) ds) \<and> unat val' \<le> 21474836489"
  using assms
proof (induction ds arbitrary: val valid)
  case Nil
  then have "valid" "\<not> is_digit (hd stop)" "hd stop \<noteq> CHR ''-''" if "stop \<noteq> []"
    using that by (auto simp: is_ws_def is_digit_def)
  with Nil show ?case by (cases stop) auto
next
  case (Cons d ds)
  let ?val' = "if val \<le> 2147483648 then val * 10 + (of_char d - 48) else val"
  have st: "min 2147483649 (unat ?val') = min 2147483649 (10 * unat val + dval d)" "unat ?val' \<le> 21474836489"
    using parse_i32_step [of d val] Cons.prems unfolding Let_def by auto
  obtain val' where v: "parse_i32_loop (ds @ stop) ?val' sign True = Some (val', sign, True)"
    "min 2147483649 (unat val') = min 2147483649 (dec_from (unat ?val') ds)" "unat val' \<le> 21474836489"
    using Cons.IH [of ?val' True] Cons.prems st by auto
  have "min 2147483649 (dec_from (unat ?val') ds) = min 2147483649 (dec_from (10 * unat val + dval d) ds)"
    using st(1) by (rule dec_from_min_cong)
  then show ?case using v Cons.prems by simp
qed

lemma parse_i32_result:
  assumes "unat val \<le> 21474836489" "min 2147483649 (unat val) = min 2147483649 n" "sign = 1 \<or> sign = - 1"
  defines "res \<equiv> val * (scast (sign :: i32) :: i64)"
  shows "sint (if scast INT32_MAX <s res then INT32_MAX else if res <s scast INT32_MIN then INT32_MIN else ucast res)
    = max (- 2147483648) (min 2147483647 (sint sign * int n))"
proof -
  have s: "sint val = int (unat val)"
    using sint_64_small [of val] assms(1) by (simp add: nat_less_iff)
  have "int (unat val) \<le> int 21474836489" using assms(1) by (simp only: of_nat_le_iff)
  then have sb: "0 \<le> sint val" "sint val \<le> 21474836489" unfolding s by simp_all
  have res: "sint res = sint sign * int (unat val)"
    using assms(3) sb unfolding res_def s [symmetric] by (auto simp: sint_mult no_wrap)
  have mx: "sint (scast INT32_MAX :: i64) = 2147483647" "sint (scast INT32_MIN :: i64) = - 2147483648"
    by simp_all
  show ?thesis
  proof (cases "n \<le> 2147483648")
    case True
    then have "unat val = n" using assms(2) by (auto simp: min_def split: if_splits)
    then show ?thesis using True assms(3)
      unfolding sint_cmp mx if_distrib [of sint] sint_ucast_64_32 res by (elim disjE) (simp_all add: no_wrap)
  next
    case False
    then have "2147483648 < unat val" using assms(2) by (auto simp: min_def split: if_splits)
    then have "int 2147483648 < int (unat val)" by (simp only: of_nat_less_iff)
    then have "2147483648 < sint val" unfolding s by simp
    then show ?thesis using False assms(3)
      unfolding sint_cmp mx if_distrib [of sint] sint_ucast_64_32 res s [symmetric] by (elim disjE) simp_all
  qed
qed

lemma parse_i32_digits:
  assumes ds: "digits ds" "ds \<noteq> []" and "stop = [] \<or> is_ws (hd stop)" and sgn: "sg = '''' \<or> sg = ''-''"
    and ws: "list_all is_ws ws"
  shows "\<exists>v. pg_parse_i32 (ws @ sg @ ds @ stop) (length (ws @ sg @ ds @ stop)) = (v, True) \<and>
    sint v = max (- 2147483648) (min 2147483647 (if sg = ''-'' then - int (dec ds) else int (dec ds)))"
proof -
  let ?s = "if sg = ''-'' then - 1 else 1 :: i32"
  have skip: "parse_i32_loop (ws @ rest) 0 1 False = parse_i32_loop rest 0 1 False" for rest
    using ws by (induction ws) (auto simp: is_ws_def is_digit_def)
  have "parse_i32_loop (sg @ ds @ stop) 0 1 False = parse_i32_loop (ds @ stop) 0 ?s False"
    using sgn by (auto simp: is_digit_def)
  moreover obtain val where val: "parse_i32_loop (ds @ stop) 0 ?s False = Some (val, ?s, True)"
    "min 2147483649 (unat val) = min 2147483649 (dec ds)" "unat val \<le> 21474836489"
    using parse_i32_loop_digits [of ds 0 False stop ?s] assms by auto
  ultimately show ?thesis
    using parse_i32_result [OF val(3,2), of ?s] skip
    by (auto simp: pg_parse_i32_def Let_def split: if_splits)
qed

lemma of_char_step: "is_digit d \<Longrightarrow> word_of_nat a * 10 + (of_char d - 48) = (word_of_nat (10 * a + dval d) :: 'a::len word)"
  by (simp add: of_char_dval)

lemma digit_not_dot: "is_digit d \<Longrightarrow> d \<noteq> CHR ''.''"
  by (auto simp: is_digit_def)

lemma parse_q16_int:
  assumes "digits ip"
  shows "parse_q16_loop (pre @ ip @ rest) (length (pre @ ip @ rest)) (length pre) (word_of_nat a) fv fd False =
    parse_q16_loop (pre @ ip @ rest) (length (pre @ ip @ rest)) (length (pre @ ip))
      (word_of_nat (dec_from a ip)) fv fd False"
  using assms
proof (induction ip arbitrary: pre a)
  case (Cons d ip)
  then have "parse_q16_loop ((pre @ [d]) @ ip @ rest) (length ((pre @ [d]) @ ip @ rest)) (length (pre @ [d]))
      (word_of_nat (10 * a + dval d)) fv fd False =
    parse_q16_loop ((pre @ [d]) @ ip @ rest) (length ((pre @ [d]) @ ip @ rest)) (length ((pre @ [d]) @ ip))
      (word_of_nat (dec_from (10 * a + dval d) ip)) fv fd False"
    by (intro Cons.IH) simp
  with Cons.prems show ?case
    by (subst parse_q16_loop.simps) (simp add: Let_def of_char_step digit_not_dot del: of_nat_add of_nat_mult)
qed simp

lemma frac_div_less: "k \<le> 6 \<Longrightarrow> (word_of_nat (10 ^ k) :: u32) < 1000000 \<longleftrightarrow> k < 6"
  by (cases "k = 6"; subgoal_tac "k \<in> {0, 1, 2, 3, 4, 5, 6}") auto

lemma parse_q16_frac:
  assumes "digits fp" "k \<le> 6" "stop = [] \<or> \<not> is_digit (hd stop) \<and> hd stop \<noteq> CHR ''.''"
  shows "parse_q16_loop (pre @ fp @ stop) (length (pre @ fp @ stop)) (length pre) iv
      (word_of_nat f) (word_of_nat (10 ^ k)) True =
    (iv, word_of_nat (dec_from f (take (6 - k) fp)), word_of_nat (10 ^ min 6 (k + length fp)), True,
      length (pre @ fp))"
  using assms(1,2)
proof (induction fp arbitrary: pre f k)
  case Nil
  then show ?case using assms(3)
    by (cases stop) (subst parse_q16_loop.simps; simp add: Let_def)+
next
  case (Cons d fp)
  show ?case
  proof (cases "k < 6")
    case True
    have "parse_q16_loop ((pre @ [d]) @ fp @ stop) (length ((pre @ [d]) @ fp @ stop)) (length (pre @ [d])) iv
        (word_of_nat (10 * f + dval d)) (word_of_nat (10 ^ Suc k)) True =
      (iv, word_of_nat (dec_from (10 * f + dval d) (take (6 - Suc k) fp)),
        word_of_nat (10 ^ min 6 (Suc k + length fp)), True, length ((pre @ [d]) @ fp))"
      using Cons.prems True by (intro Cons.IH) simp_all
    moreover have "take (6 - k) (d # fp) = d # take (6 - Suc k) fp"
      using True by (simp add: take_Cons' Suc_diff_Suc)
    ultimately show ?thesis
      using Cons.prems True frac_div_less [of k]
      by (subst parse_q16_loop.simps)
        (simp add: Let_def of_char_step digit_not_dot mult.commute del: of_nat_add of_nat_mult of_nat_power, simp)
  next
    case False
    have "parse_q16_loop ((pre @ [d]) @ fp @ stop) (length ((pre @ [d]) @ fp @ stop)) (length (pre @ [d])) iv
        (word_of_nat f) (word_of_nat (10 ^ k)) True =
      (iv, word_of_nat (dec_from f (take (6 - k) fp)), word_of_nat (10 ^ min 6 (k + length fp)), True,
        length ((pre @ [d]) @ fp))"
      using Cons.prems by (intro Cons.IH) simp_all
    with Cons.prems False frac_div_less [of k] show ?thesis
      by (subst parse_q16_loop.simps) (simp add: Let_def digit_not_dot min_def del: of_nat_power)
  qed
qed

lemma dec_take_less:
  assumes "digits ds"
  shows "dec (take n ds) < 10 ^ min n (length ds)"
proof -
  have "digits (take n ds)" using assms by (auto simp: list_all_iff dest: in_set_takeD)
  then show ?thesis using dec_less [of "take n ds"] by (simp add: min.commute)
qed

lemma sint_of_nat_32: "n < 2147483648 \<Longrightarrow> sint (word_of_nat n :: 32 word) = int n"
proof -
  assume n: "n < 2147483648"
  have "word_of_nat n = (word_of_int (int n) :: 32 word)" by simp
  then have "sint (word_of_nat n :: 32 word) = signed_take_bit 31 (int n)"
    by (simp only: sint_sbintrunc') simp
  then show ?thesis using n by (simp add: no_wrap)
qed

lemma one_less_div: "k \<le> 6 \<Longrightarrow> (1::u32) < word_of_nat (10 ^ k) \<longleftrightarrow> 0 < k"
  by (subgoal_tac "k \<in> {0, 1, 2, 3, 4, 5, 6}") auto

lemma parse_q16_fraction:
  assumes "f < 10 ^ k" "k \<le> 6"
  shows "ucast (push_bit 16 (ucast (word_of_nat f :: u32) :: u64) div ucast (word_of_nat (10 ^ k) :: u32)) =
    (word_of_nat (f * 65536 div 10 ^ k) :: u32)"
proof -
  have p: "(10::nat) ^ k \<le> 10 ^ 6" using assms(2) by (intro power_increasing) simp_all
  then have f: "f < 1000000" using assms(1) by simp
  have u: "unat (ucast (word_of_nat n :: u32) :: u64) = n" if "n \<le> 1000000" for n
    using that by (simp add: unsigned_ucast_eq take_bit_nat_eq_self unat_of_nat)
  have "unat (push_bit 16 (ucast (word_of_nat f :: u32) :: u64)) = f * 65536"
    using f u [of f] by (simp add: push_bit_eq_mult unat_word_ariths)
  then have "unat (push_bit 16 (ucast (word_of_nat f :: u32) :: u64) div ucast (word_of_nat (10 ^ k) :: u32)) =
    f * 65536 div 10 ^ k"
    using u [of "10 ^ k"] p by (simp only: unat_div) simp
  then show ?thesis
    by (intro trans [OF of_nat_unat [symmetric] arg_cong [of _ _ of_nat]])
qed

lemma parse_q16_decimal:
  fixes pre :: string
  assumes "digits ip" "digits fp" "dec ip < 32768" "stop = [] \<or> \<not> is_digit (hd stop) \<and> hd stop \<noteq> CHR ''.''"
  defines "buf \<equiv> pre @ ip @ ''.'' @ fp @ stop"
  shows "\<exists>v. pg_parse_q16 buf (length buf) (length pre) = (v, length (pre @ ip @ ''.'' @ fp)) \<and>
    sint v = int (dec ip) * 65536 + int (dec (take 6 fp) * 65536 div 10 ^ min 6 (length fp))"
proof -
  let ?f = "dec (take 6 fp)" and ?k = "min 6 (length fp)"
  have "parse_q16_loop buf (length buf) (length pre) 0 0 1 False =
    parse_q16_loop buf (length buf) (length (pre @ ip)) (word_of_nat (dec ip)) 0 1 False"
    using parse_q16_int [of ip pre "''.'' @ fp @ stop" 0 0 1] assms(1) by (simp add: buf_def)
  also have "\<dots> = parse_q16_loop ((pre @ ip @ ''.'') @ fp @ stop) (length ((pre @ ip @ ''.'') @ fp @ stop))
      (length (pre @ ip @ ''.'')) (word_of_nat (dec ip)) 0 1 True"
    by (subst parse_q16_loop.simps) (simp add: buf_def nth_append)
  also have "\<dots> = (word_of_nat (dec ip), word_of_nat ?f, word_of_nat (10 ^ ?k), True, length (pre @ ip @ ''.'' @ fp))"
    using parse_q16_frac [of fp 0 stop "pre @ ip @ ''.''" "word_of_nat (dec ip)" 0] assms by simp
  finally have loop: "parse_q16_loop buf (length buf) (length pre) 0 0 1 False =
    (word_of_nat (dec ip), word_of_nat ?f, word_of_nat (10 ^ ?k), True, length (pre @ ip @ ''.'' @ fp))" .
  have f: "?f < 10 ^ ?k" using assms(2) by (rule dec_take_less)
  then have q: "?f * 65536 div 10 ^ ?k < 65536"
    by (simp add: div_less_iff_less_mult mult.commute)
  have "(1::u32) < word_of_nat (10 ^ ?k) \<longleftrightarrow> 0 < ?k"
    by (rule one_less_div) simp
  moreover have "?k = 0 \<Longrightarrow> ?f = 0" by (simp add: min_def split: if_splits)
  ultimately have v: "fst (pg_parse_q16 buf (length buf) (length pre)) = word_of_nat (dec ip * 65536 + ?f * 65536 div 10 ^ ?k)"
    "snd (pg_parse_q16 buf (length buf) (length pre)) = length (pre @ ip @ ''.'' @ fp)"
    using parse_q16_fraction [OF f] unfolding pg_parse_q16_def loop by (auto simp: push_bit_eq_mult Let_def)
  have "sint (fst (pg_parse_q16 buf (length buf) (length pre))) = int (dec ip * 65536 + ?f * 65536 div 10 ^ ?k)"
    unfolding v using assms(3) q by (intro sint_of_nat_32) simp
  then show ?thesis using v(2) by (cases "pg_parse_q16 buf (length buf) (length pre)") auto
qed

lemma parse_q16_integer:
  fixes pre :: string
  assumes "digits ip" "dec ip < 32768" "stop = [] \<or> \<not> is_digit (hd stop) \<and> hd stop \<noteq> CHR ''.''"
  defines "buf \<equiv> pre @ ip @ stop"
  shows "\<exists>v. pg_parse_q16 buf (length buf) (length pre) = (v, length (pre @ ip)) \<and> sint v = int (dec ip) * 65536"
proof -
  have "parse_q16_loop buf (length buf) (length pre) 0 0 1 False =
    parse_q16_loop buf (length buf) (length (pre @ ip)) (word_of_nat (dec ip)) 0 1 False"
    using parse_q16_int [of ip pre stop 0 0 1] assms(1) by (simp add: buf_def)
  also have "\<dots> = (word_of_nat (dec ip), 0, 1, False, length (pre @ ip))"
    using assms(3) by (cases stop) (subst parse_q16_loop.simps; simp add: buf_def nth_append Let_def)+
  finally have "pg_parse_q16 buf (length buf) (length pre) = (word_of_nat (dec ip * 65536), length (pre @ ip))"
    by (simp add: pg_parse_q16_def push_bit_eq_mult)
  then show ?thesis using assms(2) by (simp add: sint_of_nat_32 del: of_nat_mult)
qed

section \<open>Properties\<close>

text \<open>
  C29: Formatting a value with \<open>pg_fmt_u64\<close> and parsing the text with \<open>pg_parse_u64\<close> gives the
  value back and stops at the newline, for all 64-bit values; the text is the usual decimal one,
  with a newline, and fits the 32-byte buffers of the callers.
\<close>

theorem fmt_parse_u64_roundtrip:
  "pg_parse_u64 (pg_fmt_u64 v) (length (pg_fmt_u64 v)) 0 = (v, length (pg_fmt_u64 v) - 1) \<and>
   pg_fmt_u64 v = decimal (unat v) @ [newline] \<and> length (pg_fmt_u64 v) \<le> 21"
proof -
  have lt: "dec (decimal (unat v)) < 2 ^ 64"
    using unsigned_less [of v, where ?'a = nat] by (simp add: dec_decimal)
  have "[newline] = [] \<or> \<not> is_digit (hd [newline])" by (simp add: is_digit_def)
  from parse_u64_digits [OF decimal_digits lt this, of "[]"] show ?thesis
    using length_fmt_u64 [of v] by (simp add: fmt_u64_eq dec_decimal)
qed

text \<open>
  C30: \<open>pg_parse_i32\<close> reads optional white space, an optional minus sign and digits up to the end
  or the next white space, reports success, and returns the number saturated to the 32-bit range,
  however many digits there are.
\<close>

theorem parse_i32_saturates:
  assumes "digits ds" "ds \<noteq> []" "stop = [] \<or> is_ws (hd stop)" "sg = '''' \<or> sg = ''-''" "list_all is_ws ws"
  shows "\<exists>v. pg_parse_i32 (ws @ sg @ ds @ stop) (length (ws @ sg @ ds @ stop)) = (v, True) \<and>
    sint v = max (- 2147483648) (min 2147483647 (if sg = ''-'' then - int (dec ds) else int (dec ds)))"
  using assms by (rule parse_i32_digits)

lemma parse_i32_saturates_witness:
  "\<exists>v. pg_parse_i32 '' -3000000000 x'' (length '' -3000000000 x'') = (v, True) \<and> sint v = - 2147483648"
  using parse_i32_saturates [of "''3000000000''" "'' x''" "''-''" "'' ''"]
  by (simp add: is_digit_def is_ws_def dval_def)

text \<open>
  C31: \<open>pg_parse_q16\<close> returns the value of a decimal fraction in Q16, rounded down after the sixth
  decimal place, and the position after it.
\<close>

theorem parse_q16_value:
  fixes pre :: string
  assumes "digits ip" "digits fp" "dec ip < 32768" "stop = [] \<or> \<not> is_digit (hd stop) \<and> hd stop \<noteq> CHR ''.''"
  shows "\<exists>v. pg_parse_q16 (pre @ ip @ ''.'' @ fp @ stop) (length (pre @ ip @ ''.'' @ fp @ stop)) (length pre) =
      (v, length (pre @ ip @ ''.'' @ fp)) \<and>
    sint v = int (dec ip) * 65536 + int (dec (take 6 fp) * 65536 div 10 ^ min 6 (length fp))"
  using assms by (rule parse_q16_decimal)

lemma parse_q16_value_witness:
  "\<exists>v. pg_parse_q16 ''avg10=12.34 x'' (length ''avg10=12.34 x'') (length ''avg10='') = (v, length ''avg10=12.34'') \<and> sint v = 808714"
  using parse_q16_value [of "''12''" "''34''" "'' x''" "''avg10=''"] by (simp add: is_digit_def dval_def)

end
