(* ===== verification/Pg_Sysfs.thy ===== *)
theory Pg_Sysfs
  imports Pg_Os Pg_Parser
begin

text \<open>
  Sysfs nodes, \<^verbatim>\<open>sys/sysfs.c\<close>: one-shot reads and writes, and the cache that keeps a node open,
  writes it only when the value has moved far enough from the last one written, backs off after
  failed writes, and writes the value found at start-up back on exit.
  The fields of \<open>struct pg_sysfs_cache\<close> keep their names with the prefix \<open>sc_\<close>.
  The lemmas are total-correctness contracts over the recorded system calls: which writes an
  operation issues, with which value, and what it keeps of the invariant \<open>cache_ok\<close>.
\<close>

section \<open>Types\<close>

datatype pg_sysfs_chk_type = PG_CHK_ABS | PG_CHK_REL | PG_CHK_STRICT

record pg_sysfs_chk =
  chk_type :: pg_sysfs_chk_type
  chk_thresh :: u64

record pg_sysfs_cache =
  sc_last :: u64
  sc_fd :: int
  sc_base :: u32
  sc_retry_ms :: u32
  sc_fails :: u8
  sc_has_base :: bool
  sc_active :: bool

abbreviation (input) SYSFS_BACKOFF_BASE_MS :: u32 where "SYSFS_BACKOFF_BASE_MS \<equiv> 1000"
abbreviation (input) SYSFS_BACKOFF_MAX_MS :: u32 where "SYSFS_BACKOFF_MAX_MS \<equiv> 60000"
abbreviation (input) PG_SYSFS_FAIL_MAX :: u8 where "PG_SYSFS_FAIL_MAX \<equiv> 7"

section \<open>Reading and writing\<close>

definition mono_ms :: "os \<Rightarrow> hist \<Rightarrow> u32 \<times> hist" where
  "mono_ms os h =
     (let (ts, h) = sys_clock os CLOCK_MONOTONIC h
      in (ucast (tv_sec ts * 1000 + tv_nsec ts div 1000000), h))"

text \<open>\<open>Inl\<close> is the negated errno of the C result, \<open>Inr\<close> the value stored through \<open>out_val\<close>.\<close>

definition pg_sysfs_read_i32 :: "os \<Rightarrow> string \<Rightarrow> hist \<Rightarrow> ((int + i32) \<times> hist) option" where
  "pg_sysfs_read_i32 os path h =
     (case sys_open os path [O_RDONLY, O_CLOEXEC] h of
        (Inl err, h) \<Rightarrow> Some (Inl err, h)
      | (Inr fd, h) \<Rightarrow> do {
          (bytes, h) \<leftarrow> retry_eintr (sys_read os fd 32) h;
          let ret = (case bytes of
                Inl err \<Rightarrow> Inl err
              | Inr buf \<Rightarrow>
                  if buf = [] then Inl ENODATA
                  else let (val, valid) = pg_parse_i32 buf (length buf)
                       in if valid then Inr val else Inl EINVAL);
          Some (ret, sys_close fd h)
        })"

definition pg_sysfs_write_strm :: "os \<Rightarrow> int \<Rightarrow> u64 \<Rightarrow> hist \<Rightarrow> (int \<times> hist) option" where
  "pg_sysfs_write_strm os fd value h =
     (if fd < 0 then Some (- EBADF, h)
      else do {
        let buf = pg_fmt_u64 value;
        (res, h) \<leftarrow> retry_eintr (sys_pwrite os fd buf) h;
        Some (case res of Inl err \<Rightarrow> - err
              | Inr n \<Rightarrow> if n \<noteq> length buf then - EIO else 0, h)
      })"

definition pg_sysfs_write :: "os \<Rightarrow> string \<Rightarrow> string \<Rightarrow> hist \<Rightarrow> (int \<times> hist) option" where
  "pg_sysfs_write os path val h =
     (case sys_open os path [O_WRONLY, O_CLOEXEC] h of
        (Inl err, h) \<Rightarrow> Some (- err, h)
      | (Inr fd, h) \<Rightarrow> do {
          let w_val = (if 0 < length val \<and> last val \<noteq> newline \<and> length val < 63
                       then val @ [newline] else val);
          (res, h) \<leftarrow> retry_eintr (sys_pwrite os fd w_val) h;
          Some (case res of Inl err \<Rightarrow> - err
                | Inr n \<Rightarrow> if n \<noteq> length w_val then - EIO else 0, sys_close fd h)
        })"

section \<open>The cache\<close>

fun sysfs_probe :: "os \<Rightarrow> string list \<Rightarrow> pg_sysfs_cache \<Rightarrow> hist \<Rightarrow> (int \<times> pg_sysfs_cache \<times> hist) option" where
  "sysfs_probe os [] cache h = Some (0, cache, h)"
| "sysfs_probe os (path # paths) cache h =
     (case sys_open os path [O_WRONLY, O_CLOEXEC] h of
        (Inl err, h) \<Rightarrow> sysfs_probe os paths cache h
      | (Inr fd, h) \<Rightarrow> do {
          let cache = cache\<lparr>sc_fd := fd, sc_active := True\<rparr>;
          (cur, h) \<leftarrow> pg_sysfs_read_i32 os path h;
          Some (1, (case cur of
                      Inl err \<Rightarrow> cache
                    | Inr cur \<Rightarrow> if 0 \<le>s cur then cache\<lparr>sc_base := cur, sc_has_base := True\<rparr> else cache), h)
        })"

definition pg_sysfs_cache_init ::
    "os \<Rightarrow> pg_sysfs_cache \<Rightarrow> string list \<Rightarrow> hist \<Rightarrow> (int \<times> pg_sysfs_cache \<times> hist) option" where
  "pg_sysfs_cache_init os cache paths h =
     sysfs_probe os paths
       (cache\<lparr>sc_active := False, sc_has_base := False, sc_fails := 0, sc_retry_ms := 0,
          sc_last := UINT64_MAX, sc_base := 0, sc_fd := - 1\<rparr>) h"

definition pg_sysfs_restore :: "os \<Rightarrow> pg_sysfs_cache \<Rightarrow> hist \<Rightarrow> (pg_sysfs_cache \<times> hist) option" where
  "pg_sysfs_restore os cache h =
     (if \<not> sc_active cache \<or> \<not> sc_has_base cache \<or> sc_last cache = UINT64_MAX \<or>
         sc_last cache = ucast (sc_base cache)
      then Some (cache, h)
      else do {
        (ret, h) \<leftarrow> pg_sysfs_write_strm os (sc_fd cache) (ucast (sc_base cache)) h;
        Some (if ret = 0 then cache\<lparr>sc_last := ucast (sc_base cache)\<rparr> else cache, h)
      })"

definition pg_sysfs_cache_cleanup :: "pg_sysfs_cache \<Rightarrow> hist \<Rightarrow> pg_sysfs_cache \<times> hist" where
  "pg_sysfs_cache_cleanup cache h =
     (let (cache, h) = (if 0 \<le> sc_fd cache then (cache\<lparr>sc_fd := - 1\<rparr>, sys_close (sc_fd cache) h) else (cache, h))
      in (cache\<lparr>sc_active := False\<rparr>, h))"

definition absolute :: "u64 \<Rightarrow> u64 \<Rightarrow> u64 \<Rightarrow> bool" where
  "absolute cur tgt thresh =
     (if cur = UINT64_MAX then True
      else if cur = tgt then False
      else let diff = (if tgt < cur then cur - tgt else tgt - cur) in thresh \<le> diff)"

definition relative :: "u64 \<Rightarrow> u64 \<Rightarrow> u64 \<Rightarrow> bool" where
  "relative cur tgt tol =
     (if cur = UINT64_MAX then True
      else if cur = tgt then False
      else if cur = 0 then tgt \<noteq> 0
      else let diff = (if tgt < cur then cur - tgt else tgt - cur) in cur * tol \<le> diff * 1000)"

definition sysfs_due :: "u64 \<Rightarrow> u64 \<Rightarrow> pg_sysfs_chk \<Rightarrow> bool" where
  "sysfs_due cur value strat =
     (case chk_type strat of
        PG_CHK_ABS \<Rightarrow> absolute cur value (chk_thresh strat)
      | PG_CHK_REL \<Rightarrow> relative cur value (chk_thresh strat)
      | PG_CHK_STRICT \<Rightarrow> cur \<noteq> value)"

text \<open>\<open>None\<close> for \<open>strat\<close> is the NULL pointer.  The back-off test reads the clock only after a failure.\<close>

definition sysfs_backed_off :: "os \<Rightarrow> pg_sysfs_cache \<Rightarrow> hist \<Rightarrow> bool \<times> hist" where
  "sysfs_backed_off os cache h =
     (if sc_fails cache \<noteq> 0
      then let (ms, h) = mono_ms os h in (ms - sc_retry_ms cache <s 0, h)
      else (False, h))"

definition pg_sysfs_update ::
    "os \<Rightarrow> pg_sysfs_cache \<Rightarrow> u64 \<Rightarrow> bool \<Rightarrow> pg_sysfs_chk option \<Rightarrow> hist \<Rightarrow> (pg_sysfs_cache \<times> hist) option" where
  "pg_sysfs_update os cache value force strat h =
     (if \<not> sc_active cache then Some (cache, h)
      else if \<not> force \<and> strat = None then Some (cache, h)
      else if \<not> (force \<or> sysfs_due (sc_last cache) value (the strat)) then Some (cache, h)
      else let (backed_off, h) = sysfs_backed_off os cache h
      in if backed_off then Some (cache, h)
      else do {
        (ret, h) \<leftarrow> pg_sysfs_write_strm os (sc_fd cache) value h;
        if ret = 0 then Some (cache\<lparr>sc_last := value, sc_fails := 0\<rparr>, h)
        else do {
          let fails = (if sc_fails cache < PG_SYSFS_FAIL_MAX then sc_fails cache + 1 else sc_fails cache);
          let delay = push_bit (unat (fails - 1)) SYSFS_BACKOFF_BASE_MS;
          let delay = (if SYSFS_BACKOFF_MAX_MS < delay then SYSFS_BACKOFF_MAX_MS else delay);
          let (ms, h) = mono_ms os h;
          Some (cache\<lparr>sc_fails := fails, sc_retry_ms := ms + delay\<rparr>, h)
        }
      })"

section \<open>Contracts\<close>

text \<open>The events of a write that was interrupted \<open>k\<close> times before its result \<open>r\<close>.\<close>

definition write_events :: "int \<Rightarrow> string \<Rightarrow> int + nat \<Rightarrow> nat \<Rightarrow> hist" where
  "write_events fd b r k = Pwrite fd b r # replicate k (Pwrite fd b (Inl EINTR))"

definition write_result :: "string \<Rightarrow> int + nat \<Rightarrow> int" where
  "write_result b r = (case r of Inl err \<Rightarrow> - err | Inr n \<Rightarrow> if n \<noteq> length b then - EIO else 0)"

lemma write_result_0: "errno_ok os \<Longrightarrow> r = os_pwrite os h fd b \<Longrightarrow> write_result b r = 0 \<longleftrightarrow> r = Inr (length b)"
proof -
  assume e: "errno_ok os" and r: "r = os_pwrite os h fd b"
  have "os_pwrite os h fd b \<noteq> Inl 0" using e unfolding errno_ok_def by (metis less_irrefl)
  then show ?thesis using r by (auto simp: write_result_def split: sum.splits)
qed

lemma write_strm_spec:
  assumes "os_ok os" "0 \<le> fd"
  shows "runs (pg_sysfs_write_strm os fd v h) (\<lambda>(ret, h'). \<exists>k r. h' = write_events fd (pg_fmt_u64 v) r k @ h \<and>
    r \<noteq> Inl EINTR \<and> ret = write_result (pg_fmt_u64 v) r \<and> (ret = 0 \<longleftrightarrow> r = Inr (length (pg_fmt_u64 v))))"
  using assms(2) unfolding pg_sysfs_write_strm_def Let_def
  by (auto simp: write_events_def write_result_def [symmetric] write_result_0 [OF os_okD(5) [OF assms(1)]]
      intro!: runs_mono [OF retry_pwrite [OF os_okD(1) [OF assms(1)]]] split: if_splits)

text \<open>The newest complete write to a node: what the kernel holds unless something else writes it.\<close>

fun last_done :: "int \<Rightarrow> hist \<Rightarrow> string option" where
  "last_done fd [] = None"
| "last_done fd (Pwrite fd' b (Inr n) # h) = (if fd' = fd \<and> n = length b then Some b else last_done fd h)"
| "last_done fd (ev # h) = last_done fd h"

lemma last_done_events:
  "last_done fd (write_events fd' b r k @ h) = (if fd' = fd \<and> r = Inr (length b) then Some b else last_done fd h)"
proof -
  have rep: "last_done fd (replicate k (Pwrite fd' b (Inl e)) @ h) = last_done fd h" for e
    by (induction k) simp_all
  show ?thesis by (cases r) (auto simp: write_events_def rep)
qed

definition cache_ok :: "pg_sysfs_cache \<Rightarrow> bool" where
  "cache_ok c \<longleftrightarrow> (sc_active c \<longrightarrow> 0 \<le> sc_fd c) \<and> sc_fails c \<le> 7"

text \<open>The cache agrees with the node: \<open>sc_last\<close> is what was last written completely.\<close>

definition cache_tracks :: "pg_sysfs_cache \<Rightarrow> hist \<Rightarrow> bool" where
  "cache_tracks c h \<longleftrightarrow>
     last_done (sc_fd c) h = (if sc_last c = UINT64_MAX then None else Some (pg_fmt_u64 (sc_last c)))"

text \<open>Three outcomes of an update: nothing, a look at the clock, or one write of the value.\<close>

lemma update_quiet:
  assumes "\<not> sc_active c \<or> \<not> force \<and> (case strat of None \<Rightarrow> True | Some s \<Rightarrow> \<not> sysfs_due (sc_last c) v s)"
  shows "pg_sysfs_update os c v force strat h = Some (c, h)"
  using assms by (auto simp: pg_sysfs_update_def split: option.splits)

definition sysfs_delay :: "u8 \<Rightarrow> nat" where
  "sysfs_delay fails = min 60000 (1000 * 2 ^ (unat fails - 1))"

lemma u8_cases: "f \<le> 7 \<Longrightarrow> f \<in> {0, 1, 2, 3, 4, 5, 6, 7 :: u8}"
proof -
  assume "f \<le> 7"
  then have "unat f \<le> 7" by (simp add: word_le_nat_alt)
  then have "unat f \<in> {0, 1, 2, 3, 4, 5, 6, 7}" by auto
  then show ?thesis by (auto simp: word_unat_eq_iff)
qed

lemma delay_eq:
  assumes "f \<le> (7 :: u8)"
  defines "f' \<equiv> if f < PG_SYSFS_FAIL_MAX then f + 1 else f"
  defines "d \<equiv> push_bit (unat (f' - 1)) SYSFS_BACKOFF_BASE_MS"
  shows "unat f' = min 7 (unat f + 1)"
    "unat (if SYSFS_BACKOFF_MAX_MS < d then SYSFS_BACKOFF_MAX_MS else d) = sysfs_delay f'"
  using u8_cases [OF assms(1)] unfolding d_def f'_def sysfs_delay_def by auto

definition ms_of :: "timespec \<Rightarrow> u32" where
  "ms_of ts = ucast (tv_sec ts * 1000 + tv_nsec ts div 1000000)"

text \<open>
  The abstract specification of an update: what may happen to a cache when \<open>v\<close> is to be written,
  with the events added to the history.
\<close>

inductive sysfs_step :: "pg_sysfs_cache \<Rightarrow> u64 \<Rightarrow> pg_sysfs_cache \<Rightarrow> hist \<Rightarrow> bool" where
  quiet: "sysfs_step c v c []"
| backed_off: "sc_fails c \<noteq> 0 \<Longrightarrow> ms_of t - sc_retry_ms c <s 0 \<Longrightarrow> sysfs_step c v c [Clock CLOCK_MONOTONIC t]"
| written: "sc_active c \<Longrightarrow> (sc_fails c = 0 \<and> pre = [] \<or> sc_fails c \<noteq> 0 \<and> pre = [Clock CLOCK_MONOTONIC t] \<and> 0 \<le>s ms_of t - sc_retry_ms c) \<Longrightarrow>
    r = Inr (length (pg_fmt_u64 v)) \<Longrightarrow>
    sysfs_step c v (c\<lparr>sc_last := v, sc_fails := 0\<rparr>) (write_events (sc_fd c) (pg_fmt_u64 v) r k @ pre)"
| failed: "sc_active c \<Longrightarrow> (sc_fails c = 0 \<and> pre = [] \<or> sc_fails c \<noteq> 0 \<and> pre = [Clock CLOCK_MONOTONIC t] \<and> 0 \<le>s ms_of t - sc_retry_ms c) \<Longrightarrow>
    r \<noteq> Inr (length (pg_fmt_u64 v)) \<Longrightarrow> unat f = min 7 (unat (sc_fails c) + 1) \<Longrightarrow>
    sysfs_step c v (c\<lparr>sc_fails := f, sc_retry_ms := ms_of t' + word_of_nat (sysfs_delay f)\<rparr>)
      (Clock CLOCK_MONOTONIC t' # write_events (sc_fd c) (pg_fmt_u64 v) r k @ pre)"

inductive_cases sysfs_stepE: "sysfs_step c v c' new"

lemma mono_ms_eq: "mono_ms os h = (ms_of (os_clock os h CLOCK_MONOTONIC),
    Clock CLOCK_MONOTONIC (os_clock os h CLOCK_MONOTONIC) # h)"
  by (simp add: mono_ms_def sys_clock_def ms_of_def Let_def)

text \<open>The update refines its specification, and returns.\<close>

lemma update_refines:
  assumes os: "os_ok os" and c: "cache_ok c"
  shows "runs (pg_sysfs_update os c v force strat h) (\<lambda>(c', h'). \<exists>new. h' = new @ h \<and> sysfs_step c v c' new)"
proof (cases "\<not> sc_active c \<or> \<not> force \<and> (case strat of None \<Rightarrow> True | Some s \<Rightarrow> \<not> sysfs_due (sc_last c) v s)")
  case True
  then show ?thesis by (simp add: update_quiet sysfs_step.quiet)
next
  case False
  then have act: "sc_active c" and due: "force \<or> sysfs_due (sc_last c) v (the strat)" "\<not> (\<not> force \<and> strat = None)"
    by (auto split: option.splits)
  then have fd: "0 \<le> sc_fd c" and f: "sc_fails c \<le> 7" using c by (simp_all add: cache_ok_def)
  define b where "b = sysfs_backed_off os c h"
  define t where "t = os_clock os h CLOCK_MONOTONIC"
  show ?thesis
  proof (cases "fst b")
    case True
    then have "sc_fails c \<noteq> 0" "ms_of t - sc_retry_ms c <s 0" "snd b = Clock CLOCK_MONOTONIC t # h"
      by (auto simp: b_def t_def sysfs_backed_off_def mono_ms_eq split: if_splits)
    then have "sysfs_step c v c [Clock CLOCK_MONOTONIC t]" "snd b = [Clock CLOCK_MONOTONIC t] @ h"
      by (simp_all add: sysfs_step.backed_off)
    moreover have "pg_sysfs_update os c v force strat h = Some (c, snd b)"
      using act due True unfolding pg_sysfs_update_def b_def [symmetric] Let_def case_prod_unfold by auto
    ultimately show ?thesis by auto
  next
    case nb: False
    obtain pre where pre: "snd b = pre @ h"
      "sc_fails c = 0 \<and> pre = [] \<or> sc_fails c \<noteq> 0 \<and> pre = [Clock CLOCK_MONOTONIC t] \<and> 0 \<le>s ms_of t - sc_retry_ms c"
      using nb by (auto simp: b_def t_def sysfs_backed_off_def mono_ms_eq word_sless_alt word_sle_eq split: if_splits)
    let ?b = "pg_fmt_u64 v"
    let ?f = "if sc_fails c < PG_SYSFS_FAIL_MAX then sc_fails c + 1 else sc_fails c"
    let ?d = "push_bit (unat (?f - 1)) SYSFS_BACKOFF_BASE_MS"
    have d: "(if SYSFS_BACKOFF_MAX_MS < ?d then SYSFS_BACKOFF_MAX_MS else ?d) = word_of_nat (sysfs_delay ?f)"
      by (subst delay_eq(2) [OF f, symmetric]) simp
    have ok: "sysfs_step c v (c\<lparr>sc_last := v, sc_fails := 0\<rparr>) (write_events (sc_fd c) ?b (Inr (length ?b)) k @ pre)" for k
      using act pre(2) by (intro sysfs_step.written) simp_all
    have bad: "sysfs_step c v (c\<lparr>sc_fails := ?f, sc_retry_ms := ms_of t' + word_of_nat (sysfs_delay ?f)\<rparr>)
      (Clock CLOCK_MONOTONIC t' # write_events (sc_fd c) ?b r k @ pre)" if "r \<noteq> Inr (length ?b)" for r k t'
      using act pre(2) that delay_eq(1) [OF f] by (intro sysfs_step.failed) simp_all
    have eq: "pg_sysfs_update os c v force strat h = do {
        (ret, h) \<leftarrow> pg_sysfs_write_strm os (sc_fd c) v (pre @ h);
        if ret = 0 then Some (c\<lparr>sc_last := v, sc_fails := 0\<rparr>, h)
        else let (ms, h) = mono_ms os h in
          Some (c\<lparr>sc_fails := ?f, sc_retry_ms := ms + word_of_nat (sysfs_delay ?f)\<rparr>, h) }"
    proof -
      have n: "(\<not> force \<and> strat = None) = False" using due(2) by blast
      show ?thesis
        using act due(1) nb pre(1) unfolding pg_sysfs_update_def b_def [symmetric] Let_def case_prod_unfold d n
        by simp
    qed
    show ?thesis
      unfolding eq runs_simps
    proof (rule runs_mono [OF write_strm_spec [OF os fd]], clarsimp simp: mono_ms_eq, intro conjI impI)
    qed (use ok bad in auto)
  qed
qed


section \<open>What a step keeps\<close>

lemma last_done_step:
  assumes "sysfs_step c v c' new" "v \<noteq> UINT64_MAX"
  shows "cache_tracks c h \<Longrightarrow> cache_tracks c' (new @ h)" "sc_fd c' = sc_fd c" "sc_active c' = sc_active c"
    "sc_has_base c' = sc_has_base c" "sc_base c' = sc_base c" "cache_ok c \<Longrightarrow> cache_ok c'"
    "sc_last c' = sc_last c \<or> sc_last c' = v"
  using assms
  by (cases; force simp: cache_tracks_def cache_ok_def last_done_events word_le_nat_alt)+

text \<open>Writes go to the node of the cache only, and carry the value.\<close>

lemma step_writes:
  assumes "sysfs_step c v c' new" "Pwrite fd b r \<in> set new"
  shows "fd = sc_fd c" "b = pg_fmt_u64 v" "sc_active c"
  using assms by (cases; auto simp: write_events_def)+

lemma step_calls: 
  assumes "sysfs_step c v c' new"
  shows "set new \<subseteq> {Clock CLOCK_MONOTONIC t | t. True} \<union> {Pwrite (sc_fd c) (pg_fmt_u64 v) r | r. True}"
  using assms by cases (auto simp: write_events_def)

text \<open>The back-off: a failed write is not repeated before the deadline of at most a minute.\<close>

lemma delay_bounds: "f \<noteq> 0 \<Longrightarrow> 1000 \<le> sysfs_delay f \<and> sysfs_delay f \<le> 60000"
  by (simp add: sysfs_delay_def)

section \<open>Restoring\<close>

text \<open>
  After a restore whose write succeeds, the newest complete write to the node is the value found
  at start-up, if the daemon ever wrote the node.
\<close>

lemma restore_spec:
  assumes os: "os_ok os" and c: "cache_ok c" "cache_tracks c h" "sc_active c" "sc_has_base c"
  shows "runs (pg_sysfs_restore os c h) (\<lambda>(c', h'). cache_tracks c' h' \<and> cache_ok c' \<and>
    (last_done (sc_fd c) h' = None \<or> last_done (sc_fd c) h' = Some (pg_fmt_u64 (ucast (sc_base c))) \<or>
     (\<exists>r. Pwrite (sc_fd c) (pg_fmt_u64 (ucast (sc_base c))) r \<in> set h' \<and> r \<noteq> Inr (length (pg_fmt_u64 (ucast (sc_base c)))) \<and> r \<noteq> Inl EINTR)))"
proof (cases "sc_last c = UINT64_MAX \<or> sc_last c = ucast (sc_base c)")
  case True
  then show ?thesis using c by (auto simp: pg_sysfs_restore_def cache_tracks_def)
next
  case False
  have fd: "0 \<le> sc_fd c" using c by (simp add: cache_ok_def)
  have nm: "(ucast (sc_base c) :: u64) \<noteq> UINT64_MAX"
  proof
    assume "(ucast (sc_base c) :: u64) = UINT64_MAX"
    then have "unat (ucast (sc_base c) :: u64) = 18446744073709551615" by (simp add: unsigned_minus_1_eq_mask mask_eq_exp_minus_1)
    then show False using unsigned_less [of "sc_base c", where ?'a = nat] by (simp only: unat_ucast_32_64) simp
  qed
  show ?thesis
    using False c fd unfolding pg_sysfs_restore_def
    by (auto simp: cache_tracks_def cache_ok_def last_done_events nm
        intro!: runs_mono [OF write_strm_spec [OF os fd, of "ucast (sc_base c)" h]])
      (auto simp: write_events_def)
qed

section \<open>Opening and closing\<close>

text \<open>Reading a file of one number leaves the machine and the descriptors as they were.\<close>

lemma read_i32_looks:
  assumes os: "os_ok os"
  shows "runs (pg_sysfs_read_i32 os path h) (\<lambda>(r, h'). looks h h')"
proof (cases "os_open os h path [O_RDONLY, O_CLOEXEC]")
  case (Inl err)
  then show ?thesis by (auto simp: pg_sysfs_read_i32_def sys_open_def Let_def intro: looks_Cons)
next
  case (Inr fd)
  show ?thesis
    unfolding pg_sysfs_read_i32_def sys_open_def Let_def Inr
    using looks_read [OF fresh_fd(1) [OF os Inr]]
    by (auto simp: sys_close_def split: sum.splits prod.splits
        intro!: runs_mono [OF retry_read [OF os_okD(1) [OF os], of fd]])
qed

section \<open>Properties\<close>

text \<open>What is left between the node and the wanted value when no write is due.\<close>

definition within_band :: "pg_sysfs_chk \<Rightarrow> nat \<Rightarrow> nat \<Rightarrow> bool" where
  "within_band s cur tgt \<longleftrightarrow> cur = tgt \<or>
     (case chk_type s of
        PG_CHK_ABS \<Rightarrow> \<bar>int cur - int tgt\<bar> < int (unat (chk_thresh s))
      | PG_CHK_REL \<Rightarrow> \<bar>int cur - int tgt\<bar> * 1000 < int cur * int (unat (chk_thresh s))
      | PG_CHK_STRICT \<Rightarrow> False)"

lemma unat_dist:
  fixes a b :: u64
  shows "int (unat (if b < a then a - b else b - a)) = \<bar>int (unat a) - int (unat b)\<bar>"
proof (cases "b < a")
  case True
  then have "unat b < unat a" by (simp add: word_less_nat_alt)
  then show ?thesis using True by (simp only: if_True unat_sub [OF less_imp_le])
next
  case False
  then have le: "a \<le> b" "unat a \<le> unat b" by (simp_all add: not_less word_le_nat_alt)
  show ?thesis unfolding if_not_P [OF False] unat_sub [OF le(1)] using le(2) by linarith
qed

lemma not_due_within:
  assumes "\<not> sysfs_due cur tgt s" "unat cur < 2 ^ 48" "unat tgt < 2 ^ 48" "unat (chk_thresh s) < 2 ^ 15"
  shows "within_band s (unat cur) (unat tgt)"
proof -
  let ?d = "if tgt < cur then cur - tgt else tgt - cur"
  have d: "int (unat ?d) = \<bar>int (unat cur) - int (unat tgt)\<bar>" by (rule unat_dist)
  have "int (unat cur) < int (2 ^ 48)" "int (unat tgt) < int (2 ^ 48)"
    using assms(2,3) by (simp_all only: of_nat_less_iff)
  then have "int (unat ?d) < int (2 ^ 48)"
    unfolding d abs_less_iff using of_nat_0_le_iff [of "unat cur"] of_nat_0_le_iff [of "unat tgt"] by linarith
  then have dn: "unat ?d < 2 ^ 48" by (simp only: of_nat_less_iff)
  then have m1: "unat (?d * 1000) = unat ?d * 1000"
    by (subst unat_mult_lem [THEN iffD1]) (simp_all del: unat_mult_lem)
  have "unat cur * unat (chk_thresh s) \<le> 2 ^ 48 * 2 ^ 15" using assms by (intro mult_mono) simp_all
  then have m2: "unat (cur * chk_thresh s) = unat cur * unat (chk_thresh s)"
    by (intro unat_mult_lem [THEN iffD1]) simp
  have i1: "int (unat (?d * 1000)) = \<bar>int (unat cur) - int (unat tgt)\<bar> * 1000"
    unfolding m1 of_nat_mult d by simp
  show ?thesis
  proof (cases "chk_type s")
    case PG_CHK_ABS
    then have "cur = tgt \<or> ?d < chk_thresh s"
      using assms(1) by (auto simp: sysfs_due_def absolute_def Let_def not_le split: if_splits)
    then have "cur = tgt \<or> int (unat ?d) < int (unat (chk_thresh s))" by (simp only: word_less_nat_alt of_nat_less_iff)
    then show ?thesis using PG_CHK_ABS unfolding d by (auto simp: within_band_def)
  next
    case PG_CHK_REL
    then have "cur = tgt \<or> ?d * 1000 < cur * chk_thresh s"
      using assms(1) by (auto simp: sysfs_due_def relative_def Let_def not_le split: if_splits)
    then have "cur = tgt \<or> int (unat (?d * 1000)) < int (unat (cur * chk_thresh s))"
      by (simp only: word_less_nat_alt of_nat_less_iff)
    then show ?thesis using PG_CHK_REL unfolding i1 m2 by (auto simp: within_band_def)
  next
    case PG_CHK_STRICT
    then show ?thesis using assms(1) by (auto simp: sysfs_due_def within_band_def)
  qed
qed

lemma not_due_written: "\<not> sysfs_due cur tgt s \<Longrightarrow> tgt \<noteq> UINT64_MAX \<Longrightarrow> cur \<noteq> UINT64_MAX"
  by (auto simp: sysfs_due_def absolute_def relative_def split: pg_sysfs_chk_type.splits)

text \<open>A step that was due ends with the value on the node or with a failure on record.\<close>

lemma due_update:
  assumes os: "os_ok os" and c: "cache_ok c" "sc_active c" and due: "sysfs_due (sc_last c) v s"
  shows "runs (pg_sysfs_update os c v force (Some s) h) (\<lambda>(c', h'). sc_fails c' = 0 \<longrightarrow> sc_last c' = v)"
proof -
  have fd: "0 \<le> sc_fd c" using c by (simp add: cache_ok_def)
  define b where "b = sysfs_backed_off os c h"
  show ?thesis
  proof (cases "fst b")
    case True
    then have "sc_fails c \<noteq> 0" by (auto simp: b_def sysfs_backed_off_def split: if_splits)
    then show ?thesis using True c due unfolding pg_sysfs_update_def b_def [symmetric] Let_def case_prod_unfold by simp
  next
    case False
    have f: "sc_fails c \<le> 7" using c by (simp add: cache_ok_def)
    have nz: "(if sc_fails c < PG_SYSFS_FAIL_MAX then sc_fails c + 1 else sc_fails c) \<noteq> 0"
      using u8_cases [OF f] by auto
    show ?thesis
      using False c due nz unfolding pg_sysfs_update_def b_def [symmetric] Let_def case_prod_unfold
      by (auto intro!: runs_mono [OF write_strm_spec [OF os fd, of v "snd b"]])
  qed
qed

definition sample_cache :: "u64 \<Rightarrow> pg_sysfs_cache" where
  "sample_cache v = \<lparr>sc_last = v, sc_fd = 3, sc_base = 7, sc_retry_ms = 0, sc_fails = 0, sc_has_base = True, sc_active = True\<rparr>"

text \<open>
  C18: A call of \<open>pg_sysfs_update\<close> returns, refines the abstract step \<open>sysfs_step\<close> (nothing, a look at the
  clock, one complete write, or one failed write with its back-off), keeps the cache well formed and
  in agreement with the node, and writes nothing but the decimal value to the cache's own node.
\<close>

theorem sysfs_update_refines:
  assumes "os_ok os" "cache_ok c" "v \<noteq> UINT64_MAX"
  shows "runs (pg_sysfs_update os c v force strat h) (\<lambda>(c', h'). \<exists>new. h' = new @ h \<and> sysfs_step c v c' new \<and>
    cache_ok c' \<and> (cache_tracks c h \<longrightarrow> cache_tracks c' h') \<and>
    (\<forall>fd b r. Pwrite fd b r \<in> set new \<longrightarrow> fd = sc_fd c \<and> b = pg_fmt_u64 v))"
  using assms last_done_step [OF _ assms(3)] step_writes
  by (auto intro!: runs_mono [OF update_refines [OF assms(1,2)]])

lemma sysfs_update_refines_witness:
  "runs (pg_sysfs_update sample_os
      (sample_cache 100)
      200 False (Some \<lparr>chk_type = PG_CHK_ABS, chk_thresh = 32\<rparr>) [])
    (\<lambda>(c', h'). cache_ok c')"
  by (rule runs_mono [OF sysfs_update_refines [OF sample_os_ok]]) (auto simp: sample_cache_def cache_ok_def)



text \<open>
  Restoring puts the value found at start-up back: afterwards the newest complete write to the
  node is that value, unless the daemon never wrote the node or the write of the restore itself
  did not go through.
\<close>

theorem sysfs_restore_base:
  assumes "os_ok os" "cache_ok c" "cache_tracks c h" "sc_active c" "sc_has_base c"
  defines "base \<equiv> pg_fmt_u64 (ucast (sc_base c))"
  shows "runs (pg_sysfs_restore os c h) (\<lambda>(c', h'). cache_tracks c' h' \<and>
    (last_done (sc_fd c) h' = None \<or> last_done (sc_fd c) h' = Some base \<or>
     (\<exists>r. Pwrite (sc_fd c) base r \<in> set h' \<and> r \<noteq> Inr (length base) \<and> r \<noteq> Inl EINTR)))"
  unfolding base_def by (rule runs_mono [OF restore_spec [OF assms(1-5)]]) auto

lemma sysfs_restore_base_witness:
  "runs (pg_sysfs_restore sample_os
      (sample_cache 0)
      [Pwrite 3 (pg_fmt_u64 0) (Inr 2)])
    (\<lambda>(c', h'). cache_tracks c' h')"
  by (rule runs_mono [OF sysfs_restore_base [OF sample_os_ok]])
    (auto simp: sample_cache_def cache_ok_def cache_tracks_def pg_fmt_u64_def)

end
