(* ===== verification/Pg_Kalman.thy ===== *)
theory Pg_Kalman
  imports Pg_Math
begin

text \<open>
  The fixed-point Kalman filter, \<^verbatim>\<open>core/kalman.c\<close>: position and velocity of a measured signal,
  a two by two covariance in Q32, and noise estimates adapted from the innovation.
  \<open>pg_kalman_update\<close> is split at the place where the code passes from the prediction (lines 44 to
  73) to the correction (lines 75 to 120).  The lemmas give the invariant of the adapted noise and
  of the innovation average, which every operation keeps from every state of the covariance; the
  reset on a long gap; and the convexity of the correction.
\<close>

section \<open>State\<close>

record pg_kalman_state =
  x_pos :: q16
  x_vel :: q16
  p00 :: q32
  p01 :: q32
  p10 :: q32
  p11 :: q32
  q_vel :: q16
  r_meas :: q16
  cov_y :: q32
  nis :: q16
  first_run :: bool

definition pg_kalman_reset :: "pg_kalman_state \<Rightarrow> pg_kalman_state" where
  "pg_kalman_reset state =
     state\<lparr>first_run := True, x_pos := 0, x_vel := 0,
       p00 := Q16_TO_Q32 (INT_TO_Q16 100), p01 := 0, p10 := 0, p11 := Q16_TO_Q32 (INT_TO_Q16 100),
       q_vel := FLOAT_TO_Q16 1 1, r_meas := FLOAT_TO_Q16 4 1,
       cov_y := Q16_TO_Q32 (FLOAT_TO_Q16 16 1), nis := 0\<rparr>"

definition pg_kalman_init :: "pg_kalman_state \<Rightarrow> pg_kalman_state" where
  "pg_kalman_init state = pg_kalman_reset state"

section \<open>Prediction and correction\<close>

record kalman_pred =
  x_pos_pred :: q16
  x_vel_pred :: q16
  p00_pred :: q32
  p01_pred :: q32
  p10_pred :: q32
  p11_pred :: q32

definition kalman_predict :: "pg_kalman_state \<Rightarrow> q16 \<Rightarrow> kalman_pred" where
  "kalman_predict state dt_sec =
     (let dt = (if FLOAT_TO_Q16 1 10000 <s dt_sec then dt_sec else FLOAT_TO_Q16 1 10000);
          dt_q32 = Q16_TO_Q32 dt;
          dt2 = q32_mul dt_q32 dt_q32;
          dt3 = q32_mul dt2 dt_q32;
          dt4 = q32_mul dt3 dt_q32;
          x_pos_p = x_pos state + q16_mul (x_vel state) dt;
          x_vel_p = x_vel state;
          q_pos = q16_mul (q_vel state) (FLOAT_TO_Q16 1 100);
          q_pos_q32 = Q16_TO_Q32 q_pos;
          q_vel_q32 = Q16_TO_Q32 (q_vel state);
          q_pos_dt = q32_mul q_pos_q32 dt_q32;
          q00 = word_sdiv (q32_mul q_vel_q32 dt4) 4 + q_pos_dt;
          q01 = word_sdiv (q32_mul q_vel_q32 dt3) 2;
          q10 = q01;
          q11 = q32_mul q_vel_q32 dt2 + q_pos_dt;
          f_p00 = p00 state + q32_mul (p10 state) dt_q32;
          f_p01 = p01 state + q32_mul (p11 state) dt_q32;
          f_p10 = p10 state;
          f_p11 = p11 state
      in \<lparr>x_pos_pred = x_pos_p, x_vel_pred = x_vel_p,
          p00_pred = f_p00 + q32_mul f_p01 dt_q32 + q00,
          p01_pred = f_p01 + q01,
          p10_pred = f_p10 + q32_mul f_p11 dt_q32 + q10,
          p11_pred = f_p11 + q11\<rparr>)"

definition kalman_correct :: "pg_kalman_state \<Rightarrow> kalman_pred \<Rightarrow> q16 \<Rightarrow> q16 \<times> pg_kalman_state" where
  "kalman_correct state pr z =
     (let y = z - x_pos_pred pr;
          y_clamp = pg_math_clamp y (INT_TO_Q16 (- 20)) (INT_TO_Q16 20);
          y_q32 = Q16_TO_Q32 y_clamp;
          y_sq = q32_mul y_q32 y_q32;
          a_ema = Q16_TO_Q32 (FLOAT_TO_Q16 5 100);
          inv_a = Q16_TO_Q32 (FLOAT_TO_Q16 95 100);
          cov = q32_mul inv_a (cov_y state) + q32_mul a_ema y_sq;
          cy_q16 = Q32_TO_Q16 cov;
          p00_q16 = Q32_TO_Q16 (p00_pred pr);
          calc_r = cy_q16 - p00_q16;
          r = pg_math_clamp calc_r (FLOAT_TO_Q16 1 10) (INT_TO_Q16 50);
          s_pred = p00_q16 + r;
          next_q = (if s_pred <s cy_q16
                    then q_vel state + q16_mul (FLOAT_TO_Q16 5 100) (cy_q16 - s_pred)
                    else q16_mul (FLOAT_TO_Q16 95 100) (q_vel state));
          q = pg_math_clamp next_q (FLOAT_TO_Q16 1 100) (INT_TO_Q16 20);
          s = s_pred;
          inv_s = (if 0 <s s then q16_div Q16_ONE s else 0);
          k0 = q16_mul p00_q16 inv_s;
          k1 = q16_mul (Q32_TO_Q16 (p10_pred pr)) inv_s;
          pos = x_pos_pred pr + q16_mul k0 y;
          vel = x_vel_pred pr + q16_mul k1 y;
          term_k0 = Q16_ONE - k0;
          r_y_q32 = Q16_TO_Q32 y;
          r_y_sq = q32_mul r_y_q32 r_y_q32;
          state' = state\<lparr>cov_y := cov, r_meas := r, q_vel := q, x_pos := pos, x_vel := vel,
            p00 := q32_mul (Q16_TO_Q32 term_k0) (p00_pred pr),
            p01 := q32_mul (Q16_TO_Q32 term_k0) (p01_pred pr),
            p10 := p10_pred pr - q32_mul (Q16_TO_Q32 k1) (p00_pred pr),
            p11 := p11_pred pr - q32_mul (Q16_TO_Q32 k1) (p01_pred pr),
            nis := Q32_TO_Q16 (q32_mul r_y_sq (Q16_TO_Q32 inv_s))\<rparr>
      in (if 0 <s pos then pos else 0, state'))"

definition pg_kalman_update :: "pg_kalman_state \<Rightarrow> q16 \<Rightarrow> q16 \<Rightarrow> q16 \<times> pg_kalman_state" where
  "pg_kalman_update state z_meas dt_sec =
     (let z = pg_math_clamp z_meas 0 (INT_TO_Q16 500);
          state = (if INT_TO_Q16 5 <s dt_sec then pg_kalman_reset state else state)
      in if first_run state then (z, state\<lparr>x_pos := z, x_vel := 0, first_run := False\<rparr>)
         else kalman_correct state (kalman_predict state dt_sec) z)"

section \<open>The adapted noise stays in its range\<close>

text \<open>
  Measurement noise in \<open>[0.1, 50]\<close>, process noise in \<open>[0.01, 20]\<close>, and the average of the squared
  innovation, which is clipped at 20, in \<open>[0, 400]\<close>.
\<close>

definition kalman_ok :: "pg_kalman_state \<Rightarrow> bool" where
  "kalman_ok s \<longleftrightarrow>
     6553 \<le> sint (r_meas s) \<and> sint (r_meas s) \<le> 3276800 \<and>
     655 \<le> sint (q_vel s) \<and> sint (q_vel s) \<le> 1310720 \<and>
     0 \<le> sint (cov_y s) \<and> sint (cov_y s) \<le> 1717986918400"

lemma kalman_ok_reset: "kalman_ok (pg_kalman_reset s)"
  by (simp add: kalman_ok_def pg_kalman_reset_def q16_consts Q16_TO_Q32_def)

lemma y_sq_range:
  assumes "y = pg_math_clamp v (INT_TO_Q16 (- 20)) (INT_TO_Q16 20)"
  shows "0 \<le> sint (q32_mul (Q16_TO_Q32 y) (Q16_TO_Q32 y))"
    and "sint (q32_mul (Q16_TO_Q32 y) (Q16_TO_Q32 y)) \<le> 1717986918400"
proof -
  have y: "- 1310720 \<le> sint y" "sint y \<le> 1310720"
    using clamp_range [of "INT_TO_Q16 (- 20)" "INT_TO_Q16 20" v] by (simp_all add: assms q16_consts)
  then have "\<bar>sint y\<bar> * \<bar>sint y\<bar> \<le> 1310720 * 1310720" by (intro mult_mono) auto
  then have sq: "sint y * sint y \<le> 1717986918400" "0 \<le> sint y * sint y" by simp_all
  have "sint (Q16_TO_Q32 y) * sint (Q16_TO_Q32 y) div 4294967296 = sint y * sint y"
    by (simp add: sint_Q16_TO_Q32)
  then have "sint (q32_mul (Q16_TO_Q32 y) (Q16_TO_Q32 y)) = sint y * sint y"
    unfolding sint_q32_mul using sq by (simp only:) (intro no_wrap; linarith)
  then show "0 \<le> sint (q32_mul (Q16_TO_Q32 y) (Q16_TO_Q32 y))"
    and "sint (q32_mul (Q16_TO_Q32 y) (Q16_TO_Q32 y)) \<le> 1717986918400" using sq by simp_all
qed

text \<open>The two weights of the moving average add up to less than one.\<close>

lemma ema_range:
  assumes "0 \<le> sint c" "sint c \<le> 1717986918400" "0 \<le> sint y" "sint y \<le> 1717986918400"
  shows "0 \<le> sint (q32_mul (Q16_TO_Q32 (FLOAT_TO_Q16 95 100)) c + q32_mul (Q16_TO_Q32 (FLOAT_TO_Q16 5 100)) y)"
    and "sint (q32_mul (Q16_TO_Q32 (FLOAT_TO_Q16 95 100)) c + q32_mul (Q16_TO_Q32 (FLOAT_TO_Q16 5 100)) y) \<le> 1717986918400"
proof -
  have m: "sint (q32_mul (Q16_TO_Q32 (FLOAT_TO_Q16 95 100)) c) = sint c * 62259 div 65536"
    "sint (q32_mul (Q16_TO_Q32 (FLOAT_TO_Q16 5 100)) y) = sint y * 3276 div 65536"
    using assms by (simp_all add: sint_q32_mul sint_Q16_TO_Q32 q16_consts)
      (subst no_wrap; simp add: mult.commute)+
  show "0 \<le> sint (q32_mul (Q16_TO_Q32 (FLOAT_TO_Q16 95 100)) c + q32_mul (Q16_TO_Q32 (FLOAT_TO_Q16 5 100)) y)"
    and "sint (q32_mul (Q16_TO_Q32 (FLOAT_TO_Q16 95 100)) c + q32_mul (Q16_TO_Q32 (FLOAT_TO_Q16 5 100)) y) \<le> 1717986918400"
    using assms by (simp_all add: sint_add m no_wrap)
qed


lemma kalman_ok_correct:
  assumes "kalman_ok s"
  shows "kalman_ok (snd (kalman_correct s pr z))"
proof -
  let ?y = "pg_math_clamp (z - x_pos_pred pr) (INT_TO_Q16 (- 20)) (INT_TO_Q16 20)"
  have y: "0 \<le> sint (q32_mul (Q16_TO_Q32 ?y) (Q16_TO_Q32 ?y))"
    "sint (q32_mul (Q16_TO_Q32 ?y) (Q16_TO_Q32 ?y)) \<le> 1717986918400"
    using y_sq_range [OF refl, of "z - x_pos_pred pr"] .
  have c: "0 \<le> sint (cov_y s)" "sint (cov_y s) \<le> 1717986918400"
    using assms by (simp_all add: kalman_ok_def)
  have r: "sint (FLOAT_TO_Q16 1 10) = 6553" "sint (INT_TO_Q16 50) = 3276800"
    "sint (FLOAT_TO_Q16 1 100) = 655" "sint (INT_TO_Q16 20) = 1310720"
    by (simp_all add: q16_consts)
  show ?thesis
    using ema_range [OF c y] clamp_range [of "FLOAT_TO_Q16 1 10" "INT_TO_Q16 50"]
      clamp_range [of "FLOAT_TO_Q16 1 100" "INT_TO_Q16 20"]
    by (simp add: kalman_ok_def kalman_correct_def Let_def r del: One_nat_def)
qed

theorem kalman_ok_update:
  assumes "kalman_ok s"
  shows "kalman_ok (snd (pg_kalman_update s z dt))"
  using assms kalman_ok_reset kalman_ok_correct
  by (auto simp: pg_kalman_update_def Let_def) (auto simp: kalman_ok_def)

lemma update_nonneg: "0 \<le> sint (fst (pg_kalman_update s z dt))"
  using clamp_range [of 0 "INT_TO_Q16 500" z]
  by (auto simp: pg_kalman_update_def kalman_correct_def Let_def sint_cmp q16_consts)

lemma update_not_first [simp]: "\<not> first_run (snd (pg_kalman_update s z dt))"
  by (simp add: pg_kalman_update_def kalman_correct_def Let_def pg_kalman_reset_def)

section \<open>First run and reset\<close>

text \<open>
  On the first run, and after a gap of more than five seconds, the filter starts over from the
  measurement and forgets its history.
\<close>

lemma update_restart:
  assumes "first_run s \<or> 327680 < sint dt"
  shows "\<exists>s'. pg_kalman_update s z dt = (pg_math_clamp z 0 (INT_TO_Q16 500), s') \<and>
    x_pos s' = pg_math_clamp z 0 (INT_TO_Q16 500) \<and> x_vel s' = 0 \<and> \<not> first_run s' \<and>
    (327680 < sint dt \<longrightarrow> s' = (pg_kalman_reset s)\<lparr>x_pos := pg_math_clamp z 0 (INT_TO_Q16 500), first_run := False\<rparr>)"
  using assms by (auto simp: pg_kalman_update_def Let_def sint_cmp q16_consts pg_kalman_reset_def)

section \<open>The correction is a convex combination\<close>

lemma gain_range:
  assumes "0 \<le> sint p" "6553 \<le> sint r" "sint p + sint r \<le> 2147483647"
  shows "0 <s p + r" "0 \<le> sint (q16_mul p (q16_div Q16_ONE (p + r)))"
    "sint (q16_mul p (q16_div Q16_ONE (p + r))) \<le> 65536"
proof -
  let ?s = "sint p + sint r"
  have s: "sint (p + r) = ?s" using assms by (simp add: sint_push no_wrap)
  then show "0 <s p + r" using assms by (simp add: sint_cmp)
  have nz: "p + r \<noteq> 0" using s assms word_neq_0_sint [of "p + r"] by simp
  have pos: "0 \<le> 4294967296 div ?s" using assms by (simp add: pos_imp_zdiv_nonneg_iff)
  have "4294967296 div ?s \<le> 4294967296 div 6553" using assms by (intro zdiv_mono2) simp_all
  then have d: "sint (q16_div Q16_ONE (p + r)) = 4294967296 div ?s"
    using assms pos unfolding sint_q16_div [OF nz] s by (simp add: sdiv_nonneg no_wrap)
  have "sint p * (4294967296 div ?s) \<le> ?s * (4294967296 div ?s)"
    using assms pos by (intro mult_right_mono) simp_all
  also have "\<dots> \<le> 4294967296"
    using assms pos_mod_sign [of ?s 4294967296] by (simp add: minus_mod_eq_mult_div [symmetric] del: pos_mod_sign)
  finally have le: "sint p * (4294967296 div ?s) \<le> 4294967296" .
  have ge: "0 \<le> sint p * (4294967296 div ?s)" using assms pos by simp
  have k: "sint (q16_mul p (q16_div Q16_ONE (p + r))) = sint p * (4294967296 div ?s) div 65536"
    using le ge by (subst sint_q16_mul_exact) (simp_all add: d)
  show "0 \<le> sint (q16_mul p (q16_div Q16_ONE (p + r)))"
    using ge by (simp add: k pos_imp_zdiv_nonneg_iff)
  show "sint (q16_mul p (q16_div Q16_ONE (p + r))) \<le> 65536"
    using zdiv_mono1 [OF le, of 65536] by (simp add: k)
qed

text \<open>The corrected position lies between the predicted one and the measurement.\<close>

lemma correct_convex:
  fixes s :: pg_kalman_state
  assumes "0 \<le> sint (Q32_TO_Q16 (p00_pred pr))" "sint (Q32_TO_Q16 (p00_pred pr)) \<le> 2144206847"
    and "- 2147483648 \<le> sint z - sint (x_pos_pred pr)" "sint z - sint (x_pos_pred pr) \<le> 2147483647"
  defines "pos \<equiv> sint (x_pos (snd (kalman_correct s pr z)))"
  shows "min (sint (x_pos_pred pr)) (sint z) \<le> pos" "pos \<le> max (sint (x_pos_pred pr)) (sint z)"
proof -
  let ?p = "Q32_TO_Q16 (p00_pred pr)"
  define r where "r = r_meas (snd (kalman_correct s pr z))"
  define k where "k = q16_mul ?p (q16_div Q16_ONE (?p + r))"
  have r: "6553 \<le> sint r" "sint r \<le> 3276800"
    unfolding r_def using clamp_range [of "FLOAT_TO_Q16 1 10" "INT_TO_Q16 50"]
    by (simp_all add: kalman_correct_def Let_def float_literals INT_TO_Q16_numeral del: One_nat_def)
  have "0 <s ?p + r" "0 \<le> sint k" "sint k \<le> 65536"
    unfolding k_def using assms r by (intro gain_range; linarith)+
  moreover from this have "x_pos (snd (kalman_correct s pr z)) = pg_math_lerp (x_pos_pred pr) z k"
    by (simp add: kalman_correct_def Let_def pg_math_lerp_def k_def r_def q16_mul_comm [of "z - x_pos_pred pr"] del: One_nat_def)
  ultimately show "min (sint (x_pos_pred pr)) (sint z) \<le> pos" "pos \<le> max (sint (x_pos_pred pr)) (sint z)"
    unfolding pos_def using sint_lerp(2,3) [of z "x_pos_pred pr" k] assms by simp_all
qed

text \<open>A measurement that equals the prediction moves neither position nor velocity.\<close>

lemma correct_exact_prediction:
  "x_pos (snd (kalman_correct s pr (x_pos_pred pr))) = x_pos_pred pr"
  "x_vel (snd (kalman_correct s pr (x_pos_pred pr))) = x_vel_pred pr"
  "nis (snd (kalman_correct s pr (x_pos_pred pr))) = 0"
  by (simp_all add: kalman_correct_def Let_def Q16_TO_Q32_def q32_mul_def Q32_TO_Q16_def)

section \<open>Properties\<close>

text \<open>
  C26: From a reset on, after any sequence of measurements and time steps, also overflowing ones, the
  filter has its measurement noise in \<open>[0.1, 50]\<close>, its process noise in \<open>[0.01, 20]\<close> and the average
  of the squared innovation in \<open>[0, 400]\<close>.
\<close>

theorem kalman_run_ok:
  "kalman_ok (foldl (\<lambda>s (z, dt). snd (pg_kalman_update s z dt)) (pg_kalman_reset s0) inputs)"
proof (induction inputs rule: rev_induct)
  case Nil
  then show ?case by (simp add: kalman_ok_reset)
next
  case (snoc x xs)
  then show ?case using kalman_ok_update by (simp add: case_prod_unfold)
qed

text \<open>
  After a gap of more than five seconds, and on its first run, the filter returns the clamped
  measurement and is at rest there; after a gap it has forgotten everything else.
\<close>

theorem kalman_restarts:
  assumes "first_run s \<or> 327680 < sint dt"
  shows "\<exists>s'. pg_kalman_update s z dt = (pg_math_clamp z 0 (INT_TO_Q16 500), s') \<and>
    x_pos s' = pg_math_clamp z 0 (INT_TO_Q16 500) \<and> x_vel s' = 0 \<and> \<not> first_run s' \<and>
    (327680 < sint dt \<longrightarrow> s' = (pg_kalman_reset s)\<lparr>x_pos := pg_math_clamp z 0 (INT_TO_Q16 500), first_run := False\<rparr>)"
  using assms by (rule update_restart)

lemma kalman_restarts_witness:
  "\<exists>s'. pg_kalman_update \<lparr>x_pos = 1, x_vel = 2, p00 = 3, p01 = 4, p10 = 5, p11 = 6, q_vel = 7, r_meas = 8,
      cov_y = 9, nis = 10, first_run = False\<rparr> 655360 400000 = (655360, s') \<and> x_pos s' = 655360 \<and> x_vel s' = 0"
  using kalman_restarts [of "\<lparr>x_pos = 1, x_vel = 2, p00 = 3, p01 = 4, p10 = 5, p11 = 6, q_vel = 7, r_meas = 8,
      cov_y = 9, nis = 10, first_run = False\<rparr>" 400000 655360]
  by (auto simp: pg_math_clamp_def sint_cmp q16_consts)

text \<open>
  When the predicted variance of the position is not negative, the corrected position lies
  between the predicted one and the measurement.
\<close>

theorem kalman_correct_between:
  assumes "0 \<le> sint (Q32_TO_Q16 (p00_pred pr))" "sint (Q32_TO_Q16 (p00_pred pr)) \<le> 2144206847"
    and "- 2147483648 \<le> sint z - sint (x_pos_pred pr)" "sint z - sint (x_pos_pred pr) \<le> 2147483647"
  shows "min (sint (x_pos_pred pr)) (sint z) \<le> sint (x_pos (snd (kalman_correct s pr z))) \<and>
    sint (x_pos (snd (kalman_correct s pr z))) \<le> max (sint (x_pos_pred pr)) (sint z)"
  using correct_convex [OF assms] by blast

lemma kalman_correct_between_witness:
  "655360 \<le> sint (x_pos (snd (kalman_correct (pg_kalman_reset \<lparr>x_pos = 1, x_vel = 2, p00 = 3, p01 = 4, p10 = 5,
      p11 = 6, q_vel = 7, r_meas = 8, cov_y = 9, nis = 10, first_run = False\<rparr>)
     \<lparr>x_pos_pred = 655360, x_vel_pred = 0, p00_pred = 429496729600, p01_pred = 0, p10_pred = 0, p11_pred = 0\<rparr> 1310720)))"
  using kalman_correct_between [of "\<lparr>x_pos_pred = 655360, x_vel_pred = 0, p00_pred = 429496729600, p01_pred = 0,
      p10_pred = 0, p11_pred = 0\<rparr>" 1310720 "pg_kalman_reset \<lparr>x_pos = 1, x_vel = 2, p00 = 3, p01 = 4, p10 = 5,
      p11 = 6, q_vel = 7, r_meas = 8, cov_y = 9, nis = 10, first_run = False\<rparr>"]
  by (simp add: sint_Q32_TO_Q16 no_wrap)

end
