(* ===== verification/Pg_Psi.thy ===== *)
theory Pg_Psi
  imports Pg_Sysfs Pg_Kalman
begin

text \<open>
  The pressure-stall monitor, \<^verbatim>\<open>sys/psi.c\<close>: it reads \<^verbatim>\<open>/proc/pressure/cpu\<close>, finds the line that
  starts with \<open>some\<close>, takes the averages and the stall total from it, turns the growth of the total
  into a stall percentage and filters that.
  The fields of \<open>struct pg_psi_monitor\<close> keep their names, with a prefix where two records have the
  same one.  The 512-byte buffer holds the bytes of the read that precedes the parse and is not part
  of the state.  NULL arguments do not occur.
  The lemmas show what the parser takes from a line in the format of the kernel, that every read
  returns, that the filter keeps its invariant, and the percentage.
\<close>

section \<open>State\<close>

record pg_psi_trend =
  tr_cur :: q16
  tr_vel :: q16
  avg10 :: q16
  avg300 :: q16
  tr_nis :: q16

record pg_psi_data =
  some_trend :: pg_psi_trend

record pg_psi_monitor =
  mon_fd :: int
  last_read_ts :: timespec
  last_tot :: u64
  mon_first_run :: bool
  mon_filter :: pg_kalman_state

section \<open>Trigger and life cycle\<close>

definition trigger_text :: "u32 \<Rightarrow> u32 \<Rightarrow> string" where
  "trigger_text threshold_us window_us = ''some '' @ pg_fmt_u32 threshold_us @ '' '' @ pg_fmt_u32 window_us @ [newline]"

text \<open>The descriptor, or the negated errno.\<close>

definition pg_psi_open_trg :: "os \<Rightarrow> string \<Rightarrow> u32 \<Rightarrow> u32 \<Rightarrow> hist \<Rightarrow> (int \<times> hist) option" where
  "pg_psi_open_trg os path threshold_us window_us h =
     (case sys_open os path [O_RDWR, O_CLOEXEC, O_NONBLOCK] h of
        (Inl err, h) \<Rightarrow> Some (- err, h)
      | (Inr fd, h) \<Rightarrow> do {
          (sz, h) \<leftarrow> retry_eintr (sys_write os fd (trigger_text threshold_us window_us)) h;
          case sz of
            Inl err \<Rightarrow> Some (- err, sys_close fd h)
          | Inr n \<Rightarrow> Some (fd, h)
        })"

definition pg_psi_close_trg :: "int \<Rightarrow> hist \<Rightarrow> hist" where
  "pg_psi_close_trg fd h = (if 0 \<le> fd then sys_close fd h else h)"

definition pg_psi_recov :: "os \<Rightarrow> pg_psi_monitor \<Rightarrow> string \<Rightarrow> hist \<Rightarrow> int \<times> pg_psi_monitor \<times> hist" where
  "pg_psi_recov os mon path h =
     (let (mon, h) = (if 0 \<le> mon_fd mon then (mon\<lparr>mon_fd := - 1\<rparr>, sys_close (mon_fd mon) h) else (mon, h))
      in case sys_open os path [O_RDONLY, O_CLOEXEC] h of
           (Inl err, h) \<Rightarrow> (- err, mon\<lparr>mon_fd := - 1\<rparr>, h)
         | (Inr fd, h) \<Rightarrow>
             (0, mon\<lparr>mon_fd := fd, mon_filter := pg_kalman_reset (mon_filter mon), mon_first_run := True\<rparr>, h))"

definition pg_psi_init :: "os \<Rightarrow> pg_psi_monitor \<Rightarrow> string \<Rightarrow> hist \<Rightarrow> pg_psi_monitor \<times> hist" where
  "pg_psi_init os mon path h =
     (let (r, h) = sys_open os path [O_RDONLY, O_CLOEXEC] h;
          fd = (case r of Inl err \<Rightarrow> - 1 | Inr fd \<Rightarrow> fd);
          (t, h) = sys_clock os CLOCK_MONOTONIC h
      in (mon\<lparr>mon_fd := fd, last_read_ts := t, last_tot := 0, mon_first_run := True,
            mon_filter := pg_kalman_init (mon_filter mon)\<rparr>, h))"

definition pg_psi_cleanup :: "pg_psi_monitor \<Rightarrow> hist \<Rightarrow> pg_psi_monitor \<times> hist" where
  "pg_psi_cleanup mon h =
     (if 0 \<le> mon_fd mon then (mon\<lparr>mon_fd := - 1\<rparr>, sys_close (mon_fd mon) h) else (mon, h))"

section \<open>The parser\<close>

text \<open>\<open>buffer_cmp (drop pos buf) str len\<close> stands for \<open>buffer_cmp(&buf[pos], str, len)\<close>.\<close>

fun buffer_cmp :: "string \<Rightarrow> string \<Rightarrow> nat \<Rightarrow> int" where
  "buffer_cmp buf str 0 = 0"
| "buffer_cmp (b # buf) (s # str) (Suc len) = (if b \<noteq> s then - 1 else buffer_cmp buf str len)"
| "buffer_cmp buf str (Suc len) = - 1"

function skip_token :: "string \<Rightarrow> nat \<Rightarrow> nat \<Rightarrow> nat" where
  "skip_token buf len pos =
     (if pos < len \<and> buf ! pos \<noteq> CHR '' '' \<and> buf ! pos \<noteq> newline then skip_token buf len (pos + 1) else pos)"
  by pat_completeness auto
termination
  by (relation "measure (\<lambda>(buf, len, pos). len - pos)") auto

declare skip_token.simps [simp del]

lemma skip_token_ge: "pos \<le> skip_token buf len pos"
proof (induction buf len pos rule: skip_token.induct)
  case (1 buf len pos)
  then show ?case by (subst skip_token.simps) auto
qed

lemma parse_q16_loop_ge: "pos \<le> snd (snd (snd (snd (parse_q16_loop buf len pos i f d fr))))"
proof (induction buf len pos i f d fr rule: parse_q16_loop.induct)
  case (1 buf len pos i f d fr)
  then show ?case by (subst parse_q16_loop.simps) (auto simp: Let_def digit_not_dot dest: Suc_leD digit_not_dot)
qed

lemma parse_q16_ge: "start \<le> snd (pg_parse_q16 buf len start)"
  using parse_q16_loop_ge [of start buf len 0 0 1 False]
  by (auto simp: pg_parse_q16_def Let_def split: prod.splits)

lemma parse_u64_ge: "start \<le> snd (pg_parse_u64 buf len start)"
proof -
  have "pos \<le> snd (parse_u64_loop buf len pos v)" for pos v
  proof (induction buf len pos v rule: parse_u64_loop.induct)
    case (1 buf len pos v)
    then show ?case by (subst parse_u64_loop.simps) (auto simp: Let_def)
  qed
  then show ?thesis by (simp add: pg_parse_u64_def)
qed

text \<open>Every step advances.\<close>

lemma advance:
  "pos < len \<Longrightarrow> len - skip_token buf len (pos + 6) < len - pos"
  "pos < len \<Longrightarrow> len - snd (pg_parse_q16 buf len (pos + 6)) < len - pos"
  "pos < len \<Longrightarrow> len - snd (pg_parse_q16 buf len (pos + 7)) < len - pos"
  "pos < len \<Longrightarrow> len - snd (pg_parse_u64 buf len (pos + 6)) < len - pos"
  "pos < len \<Longrightarrow> buf ! pos \<noteq> newline \<Longrightarrow> buf ! pos \<noteq> CHR '' '' \<Longrightarrow> len - skip_token buf len pos < len - pos"
proof -
  assume p: "pos < len"
  show "len - skip_token buf len (pos + 6) < len - pos" "len - snd (pg_parse_q16 buf len (pos + 6)) < len - pos"
    "len - snd (pg_parse_q16 buf len (pos + 7)) < len - pos" "len - snd (pg_parse_u64 buf len (pos + 6)) < len - pos"
    using p skip_token_ge [of "pos + 6" buf len] parse_q16_ge [of "pos + 6" buf len] parse_q16_ge [of "pos + 7" buf len]
      parse_u64_ge [of "pos + 6" buf len] by linarith+
  assume "buf ! pos \<noteq> newline" "buf ! pos \<noteq> CHR '' ''"
  then have "skip_token buf len pos = skip_token buf len (pos + 1)"
    using p by (subst skip_token.simps) simp
  then show "len - skip_token buf len pos < len - pos"
    using p skip_token_ge [of "pos + 1" buf len] by linarith
qed

text \<open>The rest of a line; the results are \<open>pos\<close>, \<open>*trend\<close> and \<open>*cur_tot\<close>.\<close>

function psi_parse :: "string \<Rightarrow> nat \<Rightarrow> nat \<Rightarrow> bool \<Rightarrow> pg_psi_trend \<Rightarrow> u64 \<Rightarrow> nat \<times> pg_psi_trend \<times> u64" where
  "psi_parse buf len pos first trend cur_tot =
     (if pos < len \<and> buf ! pos \<noteq> newline
      then if buf ! pos = CHR '' '' then psi_parse buf len (pos + 1) first trend cur_tot
        else if pos + 6 \<le> len \<and> buffer_cmp (drop pos buf) ''avg10='' 6 = 0
          then if \<not> first then psi_parse buf len (skip_token buf len (pos + 6)) first trend cur_tot
            else psi_parse buf len (snd (pg_parse_q16 buf len (pos + 6))) first
                   (trend\<lparr>avg10 := fst (pg_parse_q16 buf len (pos + 6))\<rparr>) cur_tot
        else if pos + 7 \<le> len \<and> buffer_cmp (drop pos buf) ''avg300='' 7 = 0
          then psi_parse buf len (snd (pg_parse_q16 buf len (pos + 7))) first
                 (trend\<lparr>avg300 := fst (pg_parse_q16 buf len (pos + 7))\<rparr>) cur_tot
        else if pos + 6 \<le> len \<and> buffer_cmp (drop pos buf) ''total='' 6 = 0
          then psi_parse buf len (snd (pg_parse_u64 buf len (pos + 6))) first trend
                 (if pos + 6 < snd (pg_parse_u64 buf len (pos + 6)) then fst (pg_parse_u64 buf len (pos + 6))
                  else cur_tot)
        else psi_parse buf len (skip_token buf len pos) first trend cur_tot
      else (pos, trend, cur_tot))"
  by pat_completeness auto
termination
  by (relation "measure (\<lambda>(buf, len, pos, _). len - pos)") (auto intro!: advance)

declare psi_parse.simps [simp del]

text \<open>The search for the line: the position after \<open>some \<close>, or \<open>None\<close> for \<open>!found\<close>.\<close>

function skip_line :: "string \<Rightarrow> nat \<Rightarrow> nat \<Rightarrow> nat" where
  "skip_line buf len pos = (if pos < len \<and> buf ! pos \<noteq> newline then skip_line buf len (pos + 1) else pos)"
  by pat_completeness auto
termination
  by (relation "measure (\<lambda>(buf, len, pos). len - pos)") auto

declare skip_line.simps [simp del]

lemma skip_line_ge: "pos \<le> skip_line buf len pos"
proof (induction buf len pos rule: skip_line.induct)
  case (1 buf len pos)
  then show ?case by (subst skip_line.simps) auto
qed

function find_some :: "string \<Rightarrow> nat \<Rightarrow> nat \<Rightarrow> nat option" where
  "find_some buf len pos =
     (if pos < len
      then if pos + 5 \<le> len \<and> buffer_cmp (drop pos buf) ''some '' 5 = 0 then Some (pos + 5)
        else find_some buf len (skip_line buf len pos + 1)
      else None)"
  by pat_completeness auto
termination
  by (relation "measure (\<lambda>(buf, len, pos). len - pos)") (auto simp: le_imp_less_Suc skip_line_ge diff_less_mono2)

declare find_some.simps [simp del]


section \<open>Filtering\<close>

text \<open>The stall percentage: microseconds of stall in microseconds of time, at most 500.\<close>

definition stall_pct :: "u64 \<Rightarrow> u64 \<Rightarrow> q16 \<Rightarrow> q16" where
  "stall_pct cur_tot last_t dt_sec =
     (if last_t < cur_tot
      then let delta = cur_tot - last_t;
               dt_us = drop_bit 16 ((scast dt_sec :: u64) * 1000000);
               dt_us = (if dt_us = 0 then 1 else dt_us);
               raw_u64 = push_bit 16 (delta * 100) div dt_us
           in if scast (INT_TO_Q16 500) < raw_u64 then INT_TO_Q16 500 else ucast raw_u64
      else 0)"

definition calc_kalman :: "pg_psi_monitor \<Rightarrow> pg_psi_trend \<Rightarrow> u64 \<Rightarrow> q16 \<Rightarrow> pg_psi_monitor \<times> pg_psi_trend" where
  "calc_kalman mon trend cur_tot dt_sec =
     (if mon_first_run mon
      then let trend = trend\<lparr>tr_cur := avg10 trend, tr_vel := 0\<rparr>;
               filt = pg_kalman_reset (mon_filter mon);
               (_, filt) = pg_kalman_update filt (avg10 trend) Q16_ONE
           in (mon\<lparr>mon_filter := filt, mon_first_run := False\<rparr>, trend)
      else let r_some = stall_pct cur_tot (last_tot mon) dt_sec;
               (cur, filt) = pg_kalman_update (mon_filter mon) r_some dt_sec
           in (mon\<lparr>mon_filter := filt\<rparr>, trend\<lparr>tr_cur := cur, tr_vel := x_vel filt, tr_nis := nis filt\<rparr>))"

definition psi_dt :: "pg_psi_monitor \<Rightarrow> timespec \<Rightarrow> q16" where
  "psi_dt mon now =
     (if mon_first_run mon then Q16_ONE
      else let dt_sec = pg_dt_sec (last_read_ts mon) now
           in if dt_sec <s FLOAT_TO_Q16 1 1000 then FLOAT_TO_Q16 1 1000 else dt_sec)"

abbreviation zero_trend :: pg_psi_trend where
  "zero_trend \<equiv> \<lparr>tr_cur = 0, tr_vel = 0, avg10 = 0, avg300 = 0, tr_nis = 0\<rparr>"

text \<open>\<open>Inl\<close> is the negated errno, \<open>Inr\<close> the value of \<open>*data\<close> after a return of 0.\<close>

definition psi_feed :: "pg_psi_monitor \<Rightarrow> string \<Rightarrow> timespec \<Rightarrow> (int + pg_psi_data) \<times> pg_psi_monitor" where
  "psi_feed mon buf now =
     (let dt_sec = psi_dt mon now;
          len = length buf
      in case find_some buf len 0 of
           None \<Rightarrow> (Inl ENODATA, mon)
         | Some pos \<Rightarrow>
             (let (_, trend, cur_tot) = psi_parse buf len pos (mon_first_run mon) zero_trend (last_tot mon);
                  (mon, trend) = calc_kalman mon trend cur_tot dt_sec
              in (Inr \<lparr>some_trend = trend\<rparr>, mon\<lparr>last_read_ts := now, last_tot := cur_tot\<rparr>)))"

definition pg_psi_read ::
    "os \<Rightarrow> pg_psi_monitor \<Rightarrow> timespec \<Rightarrow> hist \<Rightarrow> ((int + pg_psi_data) \<times> pg_psi_monitor \<times> hist) option" where
  "pg_psi_read os mon now h =
     (if mon_fd mon < 0 then Some (Inl EBADF, mon, h)
      else do {
        (sz, h) \<leftarrow> retry_eintr (sys_pread os (mon_fd mon) 512) h;
        case sz of
          Inl err \<Rightarrow> Some (Inl EIO, mon, h)
        | Inr buf \<Rightarrow>
            if buf = [] then Some (Inl EIO, mon, h)
            else let (r, mon) = psi_feed mon buf now in Some (r, mon, h)
      })"

text \<open>The one-shot read of the long average, which scans for the first \<open>avg10=\<close>.\<close>

function raw_scan :: "string \<Rightarrow> nat \<Rightarrow> nat \<Rightarrow> int + q16" where
  "raw_scan buf len pos =
     (if pos + 6 \<le> len
      then if buffer_cmp (drop pos buf) ''avg10='' 6 = 0 then Inr (fst (pg_parse_q16 buf len (pos + 6)))
        else raw_scan buf len (pos + 1)
      else Inl ENOENT)"
  by pat_completeness auto
termination
  by (relation "measure (\<lambda>(buf, len, pos). len - pos)") auto

declare raw_scan.simps [simp del]

definition pg_psi_read_raw :: "os \<Rightarrow> string \<Rightarrow> hist \<Rightarrow> ((int + q16) \<times> hist) option" where
  "pg_psi_read_raw os path h =
     (case sys_open os path [O_RDONLY, O_CLOEXEC] h of
        (Inl err, h) \<Rightarrow> Some (Inl err, h)
      | (Inr fd, h) \<Rightarrow> do {
          (sz, h) \<leftarrow> retry_eintr (sys_read os fd 256) h;
          let h = sys_close fd h;
          Some (case sz of Inl err \<Rightarrow> Inl EIO
                | Inr buf \<Rightarrow> if buf = [] then Inl EIO else raw_scan buf (length buf) 0, h)
        })"

section \<open>The filter keeps its invariant\<close>

definition psi_ok :: "pg_psi_monitor \<Rightarrow> bool" where
  "psi_ok mon \<longleftrightarrow> kalman_ok (mon_filter mon)"

lemma calc_kalman_ok:
  assumes "psi_ok mon"
  shows "psi_ok (fst (calc_kalman mon trend tot dt))" "\<not> mon_first_run (fst (calc_kalman mon trend tot dt))"
    "mon_fd (fst (calc_kalman mon trend tot dt)) = mon_fd mon"
    "\<not> mon_first_run mon \<Longrightarrow> 0 \<le> sint (tr_cur (snd (calc_kalman mon trend tot dt)))"
    "mon_first_run mon \<Longrightarrow> tr_cur (snd (calc_kalman mon trend tot dt)) = avg10 trend \<and> tr_vel (snd (calc_kalman mon trend tot dt)) = 0"
    "avg300 (snd (calc_kalman mon trend tot dt)) = avg300 trend"
  using assms kalman_ok_update kalman_ok_reset update_nonneg
  by (auto simp: psi_ok_def calc_kalman_def Let_def case_prod_unfold)

lemma psi_feed_ok:
  assumes "psi_ok mon"
  shows "psi_ok (snd (psi_feed mon buf now))" "mon_fd (snd (psi_feed mon buf now)) = mon_fd mon"
    "fst (psi_feed mon buf now) = Inl e \<Longrightarrow> snd (psi_feed mon buf now) = mon \<and> e = ENODATA"
    "fst (psi_feed mon buf now) = Inr d \<Longrightarrow> \<not> mon_first_run (snd (psi_feed mon buf now)) \<and> last_read_ts (snd (psi_feed mon buf now)) = now"
    "fst (psi_feed mon buf now) = Inr d \<Longrightarrow> \<not> mon_first_run mon \<Longrightarrow> 0 \<le> sint (tr_cur (some_trend d))"
  using assms calc_kalman_ok [OF assms]
  by (auto simp: psi_feed_def psi_ok_def Let_def case_prod_unfold split: option.splits)

lemma psi_read_spec:
  assumes os: "os_ok os" and m: "psi_ok mon"
  shows "runs (pg_psi_read os mon now h) (\<lambda>(r, mon', h'). psi_ok mon' \<and> mon_fd mon' = mon_fd mon \<and>
    (\<exists>new. h' = new @ h \<and> set new \<subseteq> range (Pread (mon_fd mon) 512)) \<and>
    (case r of Inl e \<Rightarrow> mon' = mon \<and> (e = EBADF \<or> e = EIO \<or> e = ENODATA)
     | Inr d \<Rightarrow> 0 \<le> mon_fd mon \<and> \<not> mon_first_run mon' \<and> last_read_ts mon' = now \<and>
         (\<not> mon_first_run mon \<longrightarrow> 0 \<le> sint (tr_cur (some_trend d)))))"
proof (cases "mon_fd mon < 0")
  case True
  then show ?thesis using m by (simp add: pg_psi_read_def)
next
  case False
  show ?thesis
    using False m unfolding pg_psi_read_def
    by (auto simp: psi_feed_ok case_prod_unfold Let_def split: sum.splits
        intro!: runs_mono [OF retry_pread [OF os_okD(1) [OF os], of "mon_fd mon" 512 h]]
        dest: psi_feed_ok(3) [OF m] psi_feed_ok(4,5) [OF m])
qed

lemma psi_recov_ok:
  assumes "psi_ok mon"
  shows "psi_ok (fst (snd (pg_psi_recov os mon path h)))"
  using assms kalman_ok_reset by (auto simp: psi_ok_def pg_psi_recov_def sys_open_def Let_def split: sum.splits)

text \<open>The one-shot read leaves the machine and the descriptors as they were.\<close>

lemma raw_looks:
  assumes os: "os_ok os"
  shows "runs (pg_psi_read_raw os path h) (\<lambda>(r, h'). looks h h')"
proof (cases "os_open os h path [O_RDONLY, O_CLOEXEC]")
  case (Inl err)
  then show ?thesis by (auto simp: pg_psi_read_raw_def sys_open_def Let_def intro: looks_Cons)
next
  case (Inr fd)
  show ?thesis
    unfolding pg_psi_read_raw_def sys_open_def Let_def Inr
    using looks_read [OF fresh_fd(1) [OF os Inr]]
    by (auto simp: sys_close_def split: sum.splits prod.splits
        intro!: runs_mono [OF retry_read [OF os_okD(1) [OF os], of fd]])
qed

section \<open>The line the kernel writes\<close>

definition psi_line :: "string \<Rightarrow> string \<Rightarrow> string \<Rightarrow> string \<Rightarrow> string \<Rightarrow> string \<Rightarrow> string" where
  "psi_line i10 f10 x60 i300 f300 tot =
     ''some avg10='' @ i10 @ ''.'' @ f10 @ '' avg60='' @ x60 @ '' avg300='' @ i300 @ ''.'' @ f300 @
     '' total='' @ tot @ [newline]"

definition q16_of_decimal :: "string \<Rightarrow> string \<Rightarrow> int" where
  "q16_of_decimal ip fp = int (dec ip) * 65536 + int (dec (take 6 fp) * 65536 div 10 ^ min 6 (length fp))"

definition token_chars :: "string \<Rightarrow> bool" where
  "token_chars w \<longleftrightarrow> CHR '' '' \<notin> set w \<and> newline \<notin> set w"

definition at_stop :: "string \<Rightarrow> bool" where
  "at_stop r \<longleftrightarrow> r = [] \<or> hd r = CHR '' '' \<or> hd r = newline"

lemma at_stop_not_digit: "at_stop r \<Longrightarrow> r = [] \<or> \<not> is_digit (hd r) \<and> hd r \<noteq> CHR ''.''"
  by (auto simp: at_stop_def is_digit_def)

lemma skip_token_eq:
  assumes "token_chars w" "at_stop r"
  shows "skip_token (pre @ w @ r) (length (pre @ w @ r)) (length pre) = length (pre @ w)"
  using assms(1)
proof (induction w arbitrary: pre)
  case Nil
  then show ?case using assms(2) by (subst skip_token.simps) (cases r; auto simp: at_stop_def)
next
  case (Cons c w)
  have "skip_token ((pre @ [c]) @ w @ r) (length ((pre @ [c]) @ w @ r)) (length (pre @ [c])) = length ((pre @ [c]) @ w)"
    using Cons.prems by (intro Cons.IH) (simp add: token_chars_def)
  then show ?case using Cons.prems by (subst skip_token.simps) (auto simp: token_chars_def)
qed

lemma buffer_cmp_eq: "buffer_cmp (s @ r) s (length s) = 0"
  by (induction s) simp_all

lemma buffer_cmp_6: "length s = 6 \<Longrightarrow> buffer_cmp (s @ r) s 6 = 0"
  and buffer_cmp_7: "length s = 7 \<Longrightarrow> buffer_cmp (s @ r) s 7 = 0"
  and buffer_cmp_5: "length s = 5 \<Longrightarrow> buffer_cmp (s @ r) s 5 = 0"
  using buffer_cmp_eq [of s r] by simp_all

lemma buffer_cmp_Cons: "0 < n \<Longrightarrow> buffer_cmp (b # bs) (s # str) n = (if b \<noteq> s then - 1 else buffer_cmp bs str (n - 1))"
  by (cases n) simp_all

text \<open>One step of the parser at each kind of token.\<close>

lemma psi_at_space:
  "psi_parse (pre @ '' '' @ r) (length (pre @ '' '' @ r)) (length pre) fr tr tot =
   psi_parse (pre @ '' '' @ r) (length (pre @ '' '' @ r)) (length (pre @ '' '')) fr tr tot"
  by (subst psi_parse.simps) (simp add: nth_append)

lemma psi_at_newline:
  "psi_parse (pre @ newline # r) (length (pre @ newline # r)) (length pre) fr tr tot = (length pre, tr, tot)"
  by (subst psi_parse.simps) (simp add: nth_append)

lemma psi_at_avg10:
  fixes pre :: string
  assumes "digits ip" "digits fp" "dec ip < 32768" "at_stop r"
  defines "buf \<equiv> pre @ ''avg10='' @ ip @ ''.'' @ fp @ r"
  shows "\<exists>v. sint v = q16_of_decimal ip fp \<and>
    psi_parse buf (length buf) (length pre) True tr tot =
    psi_parse buf (length buf) (length (pre @ ''avg10='' @ ip @ ''.'' @ fp)) True (tr\<lparr>avg10 := v\<rparr>) tot"
proof -
  obtain v where v: "pg_parse_q16 buf (length buf) (length (pre @ ''avg10='')) =
      (v, length ((pre @ ''avg10='') @ ip @ ''.'' @ fp))" "sint v = q16_of_decimal ip fp"
    using parse_q16_decimal [OF assms(1,2,3) at_stop_not_digit [OF assms(4)], of "pre @ ''avg10=''"]
    unfolding buf_def q16_of_decimal_def by auto
  have "psi_parse buf (length buf) (length pre) True tr tot =
      psi_parse buf (length buf) (length (pre @ ''avg10='' @ ip @ ''.'' @ fp)) True (tr\<lparr>avg10 := v\<rparr>) tot"
    using v(1) buffer_cmp_6 [of "''avg10=''" "ip @ ''.'' @ fp @ r"]
    by (subst psi_parse.simps) (simp add: buf_def nth_append eval_nat_numeral)
  then show ?thesis using v(2) by blast
qed

lemma psi_skip_avg10:
  fixes pre :: string
  assumes "token_chars w" "at_stop r"
  defines "buf \<equiv> pre @ ''avg10='' @ w @ r"
  shows "psi_parse buf (length buf) (length pre) False tr tot =
    psi_parse buf (length buf) (length (pre @ ''avg10='' @ w)) False tr tot"
  using skip_token_eq [OF assms(1,2), of "pre @ ''avg10=''"] buffer_cmp_6 [of "''avg10=''" "w @ r"]
  by (subst psi_parse.simps) (simp add: buf_def nth_append eval_nat_numeral)

lemma psi_at_avg300:
  fixes pre :: string
  assumes "digits ip" "digits fp" "dec ip < 32768" "at_stop r"
  defines "buf \<equiv> pre @ ''avg300='' @ ip @ ''.'' @ fp @ r"
  shows "\<exists>v. sint v = q16_of_decimal ip fp \<and>
    psi_parse buf (length buf) (length pre) fr tr tot =
    psi_parse buf (length buf) (length (pre @ ''avg300='' @ ip @ ''.'' @ fp)) fr (tr\<lparr>avg300 := v\<rparr>) tot"
proof -
  obtain v where v: "pg_parse_q16 buf (length buf) (length (pre @ ''avg300='')) =
      (v, length ((pre @ ''avg300='') @ ip @ ''.'' @ fp))" "sint v = q16_of_decimal ip fp"
    using parse_q16_decimal [OF assms(1,2,3) at_stop_not_digit [OF assms(4)], of "pre @ ''avg300=''"]
    unfolding buf_def q16_of_decimal_def by auto
  have "psi_parse buf (length buf) (length pre) fr tr tot =
      psi_parse buf (length buf) (length (pre @ ''avg300='' @ ip @ ''.'' @ fp)) fr (tr\<lparr>avg300 := v\<rparr>) tot"
    using v(1) buffer_cmp_7 [of "''avg300=''" "ip @ ''.'' @ fp @ r"]
    by (subst psi_parse.simps) (simp add: buf_def nth_append eval_nat_numeral)
  then show ?thesis using v(2) by blast
qed

lemma psi_at_total:
  fixes pre :: string
  assumes "digits t" "t \<noteq> []" "dec t < 2 ^ 64" "at_stop r"
  defines "buf \<equiv> pre @ ''total='' @ t @ r"
  shows "psi_parse buf (length buf) (length pre) fr tr tot =
    psi_parse buf (length buf) (length (pre @ ''total='' @ t)) fr tr (word_of_nat (dec t))"
proof -
  have v: "pg_parse_u64 buf (length buf) (length (pre @ ''total='')) = (word_of_nat (dec t), length ((pre @ ''total='') @ t))"
    using parse_u64_digits [OF assms(1,3), of r "pre @ ''total=''"] at_stop_not_digit [OF assms(4)]
    unfolding buf_def by auto
  then show ?thesis
    using assms(2) buffer_cmp_6 [of "''total=''" "t @ r"]
    by (subst psi_parse.simps) (simp add: buf_def nth_append eval_nat_numeral)
qed

lemma psi_skip_avg60:
  fixes pre :: string
  assumes "token_chars w" "at_stop r"
  defines "buf \<equiv> pre @ ''avg60='' @ w @ r"
  shows "psi_parse buf (length buf) (length pre) fr tr tot =
    psi_parse buf (length buf) (length (pre @ ''avg60='' @ w)) fr tr tot"
proof -
  have "token_chars (''avg60='' @ w)" using assms(1) by (simp add: token_chars_def)
  from skip_token_eq [OF this assms(2), of pre] show ?thesis
    by (subst psi_parse.simps) (simp add: buf_def nth_append eval_nat_numeral)
qed


text \<open>
  On a line in the format of the kernel the parser finds the averages and the total; the
  ten-second average is looked at on the first run only.
\<close>

lemma psi_parse_line:
  fixes rest :: string
  assumes i10: "digits i10" "digits f10" "dec i10 < 32768" and x60: "token_chars x60"
    and i300: "digits i300" "digits f300" "dec i300 < 32768" and t: "digits t" "t \<noteq> []" "dec t < 2 ^ 64"
  defines "buf \<equiv> psi_line i10 f10 x60 i300 f300 t @ rest"
  shows "\<exists>pos v10 v300. sint v10 = q16_of_decimal i10 f10 \<and> sint v300 = q16_of_decimal i300 f300 \<and>
    psi_parse buf (length buf) 5 fr tr tot =
      (pos, (if fr then tr\<lparr>avg10 := v10, avg300 := v300\<rparr> else tr\<lparr>avg300 := v300\<rparr>), word_of_nat (dec t))"
proof -
  let ?p1 = "''some ''"
  let ?p2 = "?p1 @ ''avg10='' @ i10 @ ''.'' @ f10"
  let ?p3 = "(?p2 @ '' '') @ ''avg60='' @ x60"
  let ?p4 = "(?p3 @ '' '') @ ''avg300='' @ i300 @ ''.'' @ f300"
  let ?p5 = "(?p4 @ '' '') @ ''total='' @ t"
  let ?r4 = "'' '' @ ''total='' @ t @ newline # rest"
  let ?r3 = "'' '' @ ''avg300='' @ i300 @ ''.'' @ f300 @ ?r4"
  let ?r2 = "'' '' @ ''avg60='' @ x60 @ ?r3"
  have stop: "at_stop ?r2" "at_stop ?r3" "at_stop ?r4" "at_stop (newline # rest)"
    by (simp_all add: at_stop_def)
  have tok: "token_chars (i10 @ ''.'' @ f10)"
    using i10(1,2) by (auto simp: token_chars_def list_all_iff is_digit_def)
  have b: "buf = ?p1 @ ''avg10='' @ i10 @ ''.'' @ f10 @ ?r2" "buf = ?p1 @ ''avg10='' @ (i10 @ ''.'' @ f10) @ ?r2"
    "buf = ?p2 @ '' '' @ ''avg60='' @ x60 @ ?r3" "buf = (?p2 @ '' '') @ ''avg60='' @ x60 @ ?r3"
    "buf = ?p3 @ '' '' @ ''avg300='' @ i300 @ ''.'' @ f300 @ ?r4"
    "buf = (?p3 @ '' '') @ ''avg300='' @ i300 @ ''.'' @ f300 @ ?r4"
    "buf = ?p4 @ '' '' @ ''total='' @ t @ newline # rest" "buf = (?p4 @ '' '') @ ''total='' @ t @ newline # rest"
    "buf = ?p5 @ newline # rest"
    by (simp_all add: buf_def psi_line_def)
  have len5: "length ''some '' = 5" by simp
  obtain v10 where v10: "sint v10 = q16_of_decimal i10 f10"
    "psi_parse buf (length buf) 5 True tr tot = psi_parse buf (length buf) (length ?p2) True (tr\<lparr>avg10 := v10\<rparr>) tot"
    using psi_at_avg10 [OF i10 stop(1), of ?p1 tr tot] unfolding b(1) [symmetric] len5 by blast
  have "psi_parse buf (length buf) 5 False tr tot = psi_parse buf (length buf) (length ?p2) False tr tot"
    using psi_skip_avg10 [OF tok stop(1), of ?p1 tr tot] unfolding b(2) [symmetric] len5 by (simp only: append_assoc)
  with v10 have s1: "psi_parse buf (length buf) 5 fr tr tot =
      psi_parse buf (length buf) (length ?p2) fr (if fr then tr\<lparr>avg10 := v10\<rparr> else tr) tot"
    by (cases fr) simp_all
  have s2: "psi_parse buf (length buf) (length ?p2) fr x y = psi_parse buf (length buf) (length ?p3) fr x y" for x y
    using psi_at_space [of ?p2 "''avg60='' @ x60 @ ?r3" fr x y] psi_skip_avg60 [OF x60 stop(2), of "?p2 @ '' ''" fr x y]
    unfolding b(3) [symmetric] b(4) [symmetric] by (simp only:)
  obtain v300 where v300: "sint v300 = q16_of_decimal i300 f300"
    "\<And>x y. psi_parse buf (length buf) (length (?p3 @ '' '')) fr x y =
      psi_parse buf (length buf) (length ?p4) fr (x\<lparr>avg300 := v300\<rparr>) y"
  proof -
    obtain v where v: "pg_parse_q16 buf (length buf) (length ((?p3 @ '' '') @ ''avg300='')) =
        (v, length (((?p3 @ '' '') @ ''avg300='') @ i300 @ ''.'' @ f300))" "sint v = q16_of_decimal i300 f300"
      using parse_q16_decimal [OF i300(1,2,3) at_stop_not_digit [OF stop(3)], of "(?p3 @ '' '') @ ''avg300=''"]
      unfolding b(6) q16_of_decimal_def by auto
    have "sint w = q16_of_decimal i300 f300 \<Longrightarrow> w = v" for w
      using v(2) sint_inj [of w v] by simp
    moreover have "\<exists>w. sint w = q16_of_decimal i300 f300 \<and>
      psi_parse buf (length buf) (length (?p3 @ '' '')) fr x y =
      psi_parse buf (length buf) (length ?p4) fr (x\<lparr>avg300 := w\<rparr>) y" for x y
      using psi_at_avg300 [OF i300 stop(3), of "?p3 @ '' ''" fr x y] unfolding b(6) [symmetric] .
    ultimately show ?thesis using that v(2) by metis
  qed
  have s3: "psi_parse buf (length buf) (length ?p3) fr x y = psi_parse buf (length buf) (length ?p4) fr (x\<lparr>avg300 := v300\<rparr>) y" for x y
    using psi_at_space [of ?p3 "''avg300='' @ i300 @ ''.'' @ f300 @ ?r4" fr x y] v300(2) [of x y]
    unfolding b(5) [symmetric] by (simp only:)
  have s4: "psi_parse buf (length buf) (length ?p4) fr x y = (length ?p5, x, word_of_nat (dec t))" for x y
    using psi_at_space [of ?p4 "''total='' @ t @ newline # rest" fr x y] psi_at_total [OF t stop(4), of "?p4 @ '' ''" fr x y]
      psi_at_newline [of ?p5 rest fr x "word_of_nat (dec t)"]
    unfolding b(7) [symmetric] b(8) [symmetric] b(9) [symmetric] by (simp only:)
  show ?thesis
    unfolding s1 s2 s3 s4 using v10(1) v300(1)
    by (intro exI [of _ "length ?p5"] exI [of _ v10] exI [of _ v300]) simp
qed

lemma find_some_line: "find_some (psi_line a b c d e t @ rest) (length (psi_line a b c d e t @ rest)) 0 = Some 5"
  by (subst find_some.simps) (simp add: psi_line_def eval_nat_numeral)

text \<open>
  C25: For the line the kernel writes, whatever follows it, a read takes over the stall total and the
  ten-second and five-minute averages exactly (six decimals, rounded down), for decimal texts of
  any length: the first read reports the ten-second average, a later one the filtered stall
  percentage of the growth of the total.
\<close>

theorem psi_feed_line:
  assumes "digits i10" "digits f10" "dec i10 < 32768" "token_chars x60"
    and "digits i300" "digits f300" "dec i300 < 32768" "digits t" "t \<noteq> []" "dec t < 2 ^ 64"
  shows "\<exists>d mon'. psi_feed mon (psi_line i10 f10 x60 i300 f300 t @ rest) now = (Inr d, mon') \<and>
    last_tot mon' = word_of_nat (dec t) \<and> last_read_ts mon' = now \<and> \<not> mon_first_run mon' \<and>
    sint (avg300 (some_trend d)) = q16_of_decimal i300 f300 \<and>
    (mon_first_run mon \<longrightarrow> sint (tr_cur (some_trend d)) = q16_of_decimal i10 f10 \<and> tr_vel (some_trend d) = 0) \<and>
    (\<not> mon_first_run mon \<longrightarrow> tr_cur (some_trend d) =
       fst (pg_kalman_update (mon_filter mon) (stall_pct (word_of_nat (dec t)) (last_tot mon) (psi_dt mon now)) (psi_dt mon now)))"
proof -
  let ?buf = "psi_line i10 f10 x60 i300 f300 t @ rest"
  obtain pos v10 v300 where v: "sint v10 = q16_of_decimal i10 f10" "sint v300 = q16_of_decimal i300 f300"
    and p: "psi_parse ?buf (length ?buf) 5 (mon_first_run mon) zero_trend (last_tot mon) =
      (pos, (if mon_first_run mon then zero_trend\<lparr>avg10 := v10, avg300 := v300\<rparr> else zero_trend\<lparr>avg300 := v300\<rparr>),
       word_of_nat (dec t))"
    using psi_parse_line [OF assms] by blast
  show ?thesis
    unfolding psi_feed_def find_some_line option.case Let_def p prod.case
    using v by (simp add: calc_kalman_def Let_def case_prod_unfold)
qed


section \<open>The stall percentage\<close>

text \<open>
  \<open>stall_pct\<close> is the growth of the stall total over the elapsed microseconds, in percent and in
  Q16, rounded down and cut off at 500; a total that shrank counts as no stall.
\<close>

lemma scast_500: "(scast (INT_TO_Q16 500) :: u64) = 32768000"
  by (rule sint_inj [THEN iffD1]) (simp only: sint_scast_32_64, simp add: q16_consts)

lemma stall_pct_range: "0 \<le> sint (stall_pct c l dt)" "sint (stall_pct c l dt) \<le> 32768000"
proof -
  have "0 \<le> sint (stall_pct c l dt) \<and> sint (stall_pct c l dt) \<le> 32768000"
  proof (cases "l < c")
    case True
    define raw where "raw = push_bit 16 ((c - l) * 100) div
      (if drop_bit 16 ((scast dt :: u64) * 1000000) = 0 then 1 else drop_bit 16 ((scast dt :: u64) * 1000000))"
    have i: "sint (INT_TO_Q16 500) = 32768000" by (simp add: q16_consts)
    have "0 \<le> sint (ucast raw :: q16) \<and> sint (ucast raw :: q16) \<le> 32768000" if "raw \<le> 32768000"
    proof -
      have u: "unat raw \<le> 32768000" using that by (simp add: word_le_nat_alt)
      then have "sint raw = int (unat raw)" by (intro sint_64_small) simp
      moreover have "int (unat raw) \<le> int 32768000" using u by (simp only: of_nat_le_iff)
      ultimately have "0 \<le> sint raw" "sint raw \<le> 32768000" by simp_all
      then show ?thesis by (simp add: sint_ucast_64_32 no_wrap)
    qed
    then show ?thesis
      using True i unfolding stall_pct_def Let_def scast_500 raw_def [symmetric] by (simp add: not_less)
  qed (simp add: stall_pct_def)
  then show "0 \<le> sint (stall_pct c l dt)" "sint (stall_pct c l dt) \<le> 32768000" by simp_all
qed

lemma sint_stall_pct:
  assumes lt: "l < c" and small: "uint c - uint l < 2199023255552" and dt: "66 \<le> sint dt"
  shows "sint (stall_pct c l dt) =
    min 32768000 ((uint c - uint l) * 6553600 div (sint dt * 1000000 div 65536))"
proof -
  let ?us = "sint dt * 1000000 div 65536"
  have le: "uint l \<le> uint c" using lt by (simp add: word_less_def)
  have d: "uint (c - l) = uint c - uint l" using le by (rule uint_diff_64)
  have d100: "uint ((c - l) * 100) = (uint c - uint l) * 100"
    using le small by (subst uint_mult_64) (simp_all add: d)
  have num: "uint (push_bit 16 ((c - l) * 100)) = (uint c - uint l) * 6553600"
    using le small by (simp only: uint_push_bit d100) simp
  have "uint ((scast dt :: u64) * 1000000) = sint dt * 1000000"
    using dt sint32_range [of dt] by (subst uint_mult_64) (simp_all add: uint_scast_nonneg)
  then have us: "uint (drop_bit 16 ((scast dt :: u64) * 1000000)) = ?us"
    by (simp only: uint_drop_bit) simp
  have "66 * 1000000 \<le> sint dt * 1000000" using dt by simp
  from zdiv_mono1 [OF this, of 65536] have pos: "1 \<le> ?us" by simp
  then have nz: "drop_bit 16 ((scast dt :: u64) * 1000000) \<noteq> 0" using us by auto
  define raw where "raw = push_bit 16 ((c - l) * 100) div drop_bit 16 ((scast dt :: u64) * 1000000)"
  have raw: "uint raw = (uint c - uint l) * 6553600 div ?us"
    unfolding raw_def uint_div_distrib num us ..
  have i: "sint (INT_TO_Q16 500) = 32768000" by (simp add: q16_consts)
  have p: "stall_pct c l dt = (if 32768000 < raw then INT_TO_Q16 500 else ucast raw)"
    using lt nz unfolding stall_pct_def Let_def scast_500 raw_def by simp
  show ?thesis
  proof (cases "32768000 < raw")
    case True
    then have "32768000 < uint raw" by (simp add: word_less_def)
    then show ?thesis using True p i raw by simp
  next
    case False
    then have "uint raw \<le> 32768000" by (simp add: word_less_def)
    moreover from this have "sint raw = uint raw"
      using uint_sint_64 [of raw] sint64_range [of raw] by (simp split: if_splits)
    moreover have "signed_take_bit 31 (uint raw) = uint raw"
      using \<open>uint raw \<le> 32768000\<close> by (intro no_wrap32) (rule order_trans [of _ 0], simp_all)
    ultimately have "sint (ucast raw :: q16) = uint raw" by (simp only: sint_ucast_64_32)
    then show ?thesis using False p raw \<open>uint raw \<le> 32768000\<close> by simp
  qed
qed

section \<open>Properties\<close>

text \<open>
  Between two reads at least a thousandth of a second apart, the stall percentage is the growth of the
  stall total divided by the elapsed microseconds, in percent and Q16, rounded down and cut off
  at 500 percent.
\<close>

theorem stall_percentage:
  assumes "last_t < cur_tot" "uint cur_tot - uint last_t < 2 ^ 41" "66 \<le> sint dt"
  shows "sint (stall_pct cur_tot last_t dt) =
    min (500 * 65536) ((uint cur_tot - uint last_t) * 100 * 65536 div (sint dt * 1000000 div 65536))"
  using sint_stall_pct [OF assms(1) _ assms(3)] assms(2) by (simp add: algebra_simps)

lemma stall_percentage_witness: "sint (stall_pct 350000 100000 65536) = 25 * 65536"
  using stall_percentage [of 100000 350000 65536] by simp

text \<open>
  C33: A read of the pressure node returns, keeps the filter well formed, touches only its own
  descriptor, leaves the monitor alone on an error, and on success yields a pressure that is not
  negative once the filter runs and records the time of the read.
\<close>

theorem psi_read_total:
  assumes "os_ok os" "psi_ok mon"
  shows "runs (pg_psi_read os mon now h) (\<lambda>(r, mon', h'). psi_ok mon' \<and> mon_fd mon' = mon_fd mon \<and>
    (\<exists>new. h' = new @ h \<and> set new \<subseteq> range (Pread (mon_fd mon) 512)) \<and>
    (case r of Inl e \<Rightarrow> mon' = mon \<and> (e = EBADF \<or> e = EIO \<or> e = ENODATA)
     | Inr d \<Rightarrow> 0 \<le> mon_fd mon \<and> \<not> mon_first_run mon' \<and> last_read_ts mon' = now \<and>
         (\<not> mon_first_run mon \<longrightarrow> 0 \<le> sint (tr_cur (some_trend d)))))"
  by (rule psi_read_spec [OF assms])

definition sample_mon :: pg_psi_monitor where
  "sample_mon = \<lparr>mon_fd = 3, last_read_ts = Timespec 100 0, last_tot = 0, mon_first_run = True,
     mon_filter = pg_kalman_init \<lparr>x_pos = 0, x_vel = 0, p00 = 0, p01 = 0, p10 = 0, p11 = 0, q_vel = 0, r_meas = 0,
       cov_y = 0, nis = 0, first_run = True\<rparr>\<rparr>"

lemma sample_mon_ok: "psi_ok sample_mon"
  by (simp add: psi_ok_def sample_mon_def pg_kalman_init_def kalman_ok_reset)

lemma psi_read_total_witness:
  "runs (pg_psi_read sample_os sample_mon (Timespec 101 0) []) (\<lambda>(r, mon', h'). psi_ok mon' \<and> mon_fd mon' = 3)"
  by (rule runs_mono [OF psi_read_total [OF sample_os_ok sample_mon_ok]]) (auto simp: sample_mon_def)

lemma psi_feed_line_witness:
  "\<exists>d mon'. psi_feed sample_mon (psi_line ''1'' ''25'' ''avg60=0.90'' ''0'' ''80'' ''123456'' @ [newline]) (Timespec 101 0) =
     (Inr d, mon') \<and> last_tot mon' = 123456 \<and> sint (tr_cur (some_trend d)) = q16_of_decimal ''1'' ''25''"
  using psi_feed_line [of "''1''" "''25''" "''avg60=0.90''" "''0''" "''80''" "''123456''" sample_mon "[newline]" "Timespec 101 0"]
  by (simp add: token_chars_def is_digit_def dec_from_def dval_def sample_mon_def) auto

end
