(* ===== verification/Pg_Sensor.thy ===== *)
theory Pg_Sensor
  imports Pg_Sysfs
begin

text \<open>
  The sensors of \<^verbatim>\<open>sys/sensor.c\<close>: CPU and battery temperature, battery capacity and the
  brightness of up to four backlights, each read with \<open>pread\<close> at offset 0 and replaced by a
  fallback when the node is missing, unreadable or out of range.
  The 16-byte buffer of a sensor holds only the bytes of the read that precedes the parse, so it is
  not part of the state.  A NULL sensor or path does not occur.
  The lemmas give the range of every reading, on success and on failure.
\<close>

section \<open>State\<close>

record pg_temp_sensor =
  ts_fd :: int
  ts_scale :: q16

record pg_bat_sensor =
  bs_fd :: int

record pg_bl_sensor =
  bl_fd :: "int list"
  bl_n :: nat

abbreviation (input) SCALE_MILLI :: q16 where "SCALE_MILLI \<equiv> 1000"
abbreviation (input) SCALE_DECI :: q16 where "SCALE_DECI \<equiv> 10"
abbreviation (input) FALLBACK_TEMP_CPU :: q16 where "FALLBACK_TEMP_CPU \<equiv> INT_TO_Q16 65"
abbreviation (input) FALLBACK_TEMP_BAT :: q16 where "FALLBACK_TEMP_BAT \<equiv> INT_TO_Q16 35"
abbreviation (input) FALLBACK_BAT_CAP :: q16 where "FALLBACK_BAT_CAP \<equiv> INT_TO_Q16 100"
abbreviation (input) FALLBACK_BL :: i32 where "FALLBACK_BL \<equiv> 0"
abbreviation (input) PG_BL_MAX :: nat where "PG_BL_MAX \<equiv> 4"

section \<open>Opening and closing\<close>

text \<open>The descriptor of a successful open, and -1 otherwise; an empty path is not opened.\<close>

definition sensor_open :: "os \<Rightarrow> string \<Rightarrow> hist \<Rightarrow> int \<times> hist" where
  "sensor_open os path h =
     (if path = [] then (- 1, h)
      else case sys_open os path [O_RDONLY, O_CLOEXEC] h of
             (Inl err, h) \<Rightarrow> (- 1, h)
           | (Inr fd, h) \<Rightarrow> (fd, h))"

definition pg_sensor_init_cpu_temp :: "os \<Rightarrow> pg_temp_sensor \<Rightarrow> string \<Rightarrow> hist \<Rightarrow> pg_temp_sensor \<times> hist" where
  "pg_sensor_init_cpu_temp os sensor path h =
     (let (fd, h) = sensor_open os path h in (sensor\<lparr>ts_fd := fd, ts_scale := SCALE_MILLI\<rparr>, h))"

definition pg_sensor_init_bat_temp :: "os \<Rightarrow> pg_temp_sensor \<Rightarrow> string \<Rightarrow> hist \<Rightarrow> pg_temp_sensor \<times> hist" where
  "pg_sensor_init_bat_temp os sensor path h =
     (let (fd, h) = sensor_open os path h in (sensor\<lparr>ts_fd := fd, ts_scale := SCALE_DECI\<rparr>, h))"

definition pg_sensor_init_bat_cap :: "os \<Rightarrow> pg_bat_sensor \<Rightarrow> string \<Rightarrow> hist \<Rightarrow> pg_bat_sensor \<times> hist" where
  "pg_sensor_init_bat_cap os sensor path h =
     (let (fd, h) = sensor_open os path h in (sensor\<lparr>bs_fd := fd\<rparr>, h))"

definition pg_sensor_init_bl :: "os \<Rightarrow> pg_bl_sensor \<Rightarrow> string \<Rightarrow> hist \<Rightarrow> pg_bl_sensor \<times> hist" where
  "pg_sensor_init_bl os sensor path h =
     (if path = [] then (sensor, h)
      else if PG_BL_MAX \<le> bl_n sensor then (sensor, h)
      else case sys_open os path [O_RDONLY, O_CLOEXEC] h of
             (Inl err, h) \<Rightarrow> (sensor, h)
           | (Inr fd, h) \<Rightarrow> (sensor\<lparr>bl_fd := (bl_fd sensor)[bl_n sensor := fd], bl_n := bl_n sensor + 1\<rparr>, h))"

definition pg_sensor_temp_close :: "pg_temp_sensor \<Rightarrow> hist \<Rightarrow> pg_temp_sensor \<times> hist" where
  "pg_sensor_temp_close sensor h =
     (if 0 \<le> ts_fd sensor then (sensor\<lparr>ts_fd := - 1\<rparr>, sys_close (ts_fd sensor) h) else (sensor, h))"

definition pg_sensor_bat_close :: "pg_bat_sensor \<Rightarrow> hist \<Rightarrow> pg_bat_sensor \<times> hist" where
  "pg_sensor_bat_close sensor h =
     (if 0 \<le> bs_fd sensor then (sensor\<lparr>bs_fd := - 1\<rparr>, sys_close (bs_fd sensor) h) else (sensor, h))"

text \<open>The loop over the first \<open>n\<close> descriptors.\<close>

fun bl_close_loop :: "nat \<Rightarrow> int list \<Rightarrow> hist \<Rightarrow> int list \<times> hist" where
  "bl_close_loop (Suc n) (fd # fds) h =
     (let (fd, h) = (if 0 \<le> fd then (- 1, sys_close fd h) else (fd, h));
          (fds, h) = bl_close_loop n fds h
      in (fd # fds, h))"
| "bl_close_loop n fds h = (fds, h)"

definition pg_sensor_bl_close :: "pg_bl_sensor \<Rightarrow> hist \<Rightarrow> pg_bl_sensor \<times> hist" where
  "pg_sensor_bl_close sensor h =
     (let (fds, h) = bl_close_loop (bl_n sensor) (bl_fd sensor) h in (\<lparr>bl_fd = fds, bl_n = 0\<rparr>, h))"

section \<open>Reading\<close>

text \<open>The result code and \<open>*temp\<close>.\<close>

definition temp_of_reading :: "q16 \<Rightarrow> q16 \<Rightarrow> int + string \<Rightarrow> int \<times> q16" where
  "temp_of_reading scale fallback rd =
     (case rd of
        Inl err \<Rightarrow> (- EIO, fallback)
      | Inr buf \<Rightarrow>
          if buf = [] then (- EIO, fallback)
          else let (val, valid) = pg_parse_i32 buf (length buf)
               in if \<not> valid then (- EINVAL, fallback)
                  else if scale \<le>s 0 then (- EINVAL, fallback)
                  else let raw_q32 = word_sdiv ((scast val :: q32) * 65536) (scast scale)
                       in if raw_q32 <s scast (INT_TO_Q16 (- 30)) \<or> scast (INT_TO_Q16 150) <s raw_q32
                          then (- ERANGE, fallback)
                          else (0, ucast raw_q32))"

definition read_temp :: "os \<Rightarrow> pg_temp_sensor \<Rightarrow> q16 \<Rightarrow> hist \<Rightarrow> (int \<times> q16 \<times> hist) option" where
  "read_temp os sensor fallback h =
     (if ts_fd sensor < 0 then Some (- EBADF, fallback, h)
      else do {
        (rd, h) \<leftarrow> retry_eintr (sys_pread os (ts_fd sensor) 16) h;
        let (ret, temp) = temp_of_reading (ts_scale sensor) fallback rd;
        Some (ret, temp, h)
      })"

definition pg_sensor_read_cpu_temp :: "os \<Rightarrow> pg_temp_sensor \<Rightarrow> hist \<Rightarrow> (int \<times> q16 \<times> hist) option" where
  "pg_sensor_read_cpu_temp os sensor h = read_temp os sensor FALLBACK_TEMP_CPU h"

definition pg_sensor_read_bat_temp :: "os \<Rightarrow> pg_temp_sensor \<Rightarrow> hist \<Rightarrow> (int \<times> q16 \<times> hist) option" where
  "pg_sensor_read_bat_temp os sensor h = read_temp os sensor FALLBACK_TEMP_BAT h"

definition pg_sensor_read_bat_cap :: "os \<Rightarrow> pg_bat_sensor \<Rightarrow> hist \<Rightarrow> (int \<times> q16 \<times> hist) option" where
  "pg_sensor_read_bat_cap os sensor h =
     (if bs_fd sensor < 0 then Some (- EBADF, FALLBACK_BAT_CAP, h)
      else do {
        (rd, h) \<leftarrow> retry_eintr (sys_pread os (bs_fd sensor) 16) h;
        case rd of
          Inl err \<Rightarrow> Some (- EIO, FALLBACK_BAT_CAP, h)
        | Inr buf \<Rightarrow>
            if buf = [] then Some (- EIO, FALLBACK_BAT_CAP, h)
            else let (val, valid) = pg_parse_i32 buf (length buf)
                 in if \<not> valid \<or> val <s 0 \<or> 100 <s val then Some (- EINVAL, FALLBACK_BAT_CAP, h)
                    else Some (0, INT_TO_Q16 val, h)
      })"

text \<open>The loop over the descriptors with \<open>best\<close> and \<open>any\<close>.\<close>

fun read_bl_loop :: "os \<Rightarrow> int list \<Rightarrow> i32 \<Rightarrow> bool \<Rightarrow> hist \<Rightarrow> (i32 \<times> bool \<times> hist) option" where
  "read_bl_loop os [] best any h = Some (best, any, h)"
| "read_bl_loop os (fd # fds) best any h = do {
     (rd, h) \<leftarrow> retry_eintr (sys_pread os fd 16) h;
     case rd of
       Inl err \<Rightarrow> read_bl_loop os fds best any h
     | Inr buf \<Rightarrow>
         if buf = [] then read_bl_loop os fds best any h
         else let (val, valid) = pg_parse_i32 buf (length buf)
              in if \<not> valid then read_bl_loop os fds best any h
                 else read_bl_loop os fds (if best <s val then val else best) True h
   }"

definition pg_sensor_read_bl :: "os \<Rightarrow> pg_bl_sensor \<Rightarrow> hist \<Rightarrow> (int \<times> i32 \<times> hist) option" where
  "pg_sensor_read_bl os sensor h =
     (if bl_n sensor = 0 then Some (- EBADF, FALLBACK_BL, h)
      else do {
        (best, any, h) \<leftarrow> read_bl_loop os (take (bl_n sensor) (bl_fd sensor)) FALLBACK_BL False h;
        Some (if any then 0 else - EIO, best, h)
      })"

section \<open>Ranges\<close>

lemma temp_of_reading_range:
  assumes "- 1966080 \<le> sint fb" "sint fb \<le> 9830400"
  shows "- 1966080 \<le> sint (snd (temp_of_reading sc fb rd))" "sint (snd (temp_of_reading sc fb rd)) \<le> 9830400"
proof -
  have r: "- 1966080 \<le> sint (ucast x :: q16) \<and> sint (ucast x :: q16) \<le> 9830400"
    if "\<not> (x <s scast (INT_TO_Q16 (- 30)) \<or> scast (INT_TO_Q16 150) <s x)" for x :: q32
  proof -
    have "sint (scast (INT_TO_Q16 (- 30)) :: q32) = - 1966080" "sint (scast (INT_TO_Q16 150) :: q32) = 9830400"
      by (simp_all only: sint_scast_32_64) (simp_all add: q16_consts)
    then have "- 1966080 \<le> sint x" "sint x \<le> 9830400" using that by (simp_all only: sint_cmp) simp_all
    then show ?thesis by (simp add: sint_ucast_64_32 no_wrap)
  qed
  have "- 1966080 \<le> sint (snd (temp_of_reading sc fb rd)) \<and> sint (snd (temp_of_reading sc fb rd)) \<le> 9830400"
    unfolding temp_of_reading_def Let_def using assms r by (auto split: sum.splits prod.splits)
  then show "- 1966080 \<le> sint (snd (temp_of_reading sc fb rd))" "sint (snd (temp_of_reading sc fb rd)) \<le> 9830400"
    by simp_all
qed

text \<open>A reading that is not accepted yields the fallback, and the result code tells the two apart.\<close>

lemma temp_of_reading_fallback: "fst (temp_of_reading sc fb rd) \<noteq> 0 \<Longrightarrow> snd (temp_of_reading sc fb rd) = fb"
  by (auto simp: temp_of_reading_def Let_def split: sum.splits prod.splits if_splits)

definition only_reads :: "hist \<Rightarrow> bool" where
  "only_reads new \<longleftrightarrow> (\<forall>e \<in> set new. \<exists>fd n r. e = Pread fd n r)"

lemma only_reads_simps [simp]: "only_reads []" "only_reads (xs @ ys) \<longleftrightarrow> only_reads xs \<and> only_reads ys"
  "only_reads (Pread fd n r # xs) \<longleftrightarrow> only_reads xs" "only_reads (replicate k (Pread fd n r))"
  by (auto simp: only_reads_def)

lemma only_reads_looks: "only_reads new \<Longrightarrow> looks h (new @ h)"
  by (rule looks_append) (auto simp: only_reads_def)

lemma read_temp_spec:
  assumes os: "os_ok os" and fb: "- 1966080 \<le> sint fb" "sint fb \<le> 9830400"
  shows "runs (read_temp os s fb h) (\<lambda>(ret, t, h'). - 1966080 \<le> sint t \<and> sint t \<le> 9830400 \<and>
    (ret \<noteq> 0 \<longrightarrow> t = fb) \<and> (ts_fd s < 0 \<longrightarrow> ret = - EBADF) \<and> (\<exists>new. h' = new @ h \<and> only_reads new))"
proof (cases "ts_fd s < 0")
  case True
  then show ?thesis using fb by (simp add: read_temp_def)
next
  case False
  then show ?thesis
    unfolding read_temp_def Let_def case_prod_unfold
    using temp_of_reading_range [OF fb] temp_of_reading_fallback
    by (auto intro!: runs_mono [OF retry_pread [OF os_okD(1) [OF os]]])
qed

lemma bat_cap_spec:
  assumes os: "os_ok os"
  shows "runs (pg_sensor_read_bat_cap os s h) (\<lambda>(ret, c, h'). 0 \<le> sint c \<and> sint c \<le> 6553600 \<and>
    (ret \<noteq> 0 \<longrightarrow> c = FALLBACK_BAT_CAP) \<and> (\<exists>new. h' = new @ h \<and> only_reads new))"
proof -
  have i: "0 \<le> sint (INT_TO_Q16 v) \<and> sint (INT_TO_Q16 v) \<le> 6553600" if "\<not> v <s 0" "\<not> 100 <s v" for v
    using that by (simp add: sint_INT_TO_Q16 sint_cmp no_wrap)
  have fb: "sint FALLBACK_BAT_CAP = 6553600" by (simp add: q16_consts)
  show ?thesis
    unfolding pg_sensor_read_bat_cap_def Let_def
    by (auto simp: fb i split: sum.splits prod.splits intro!: runs_mono [OF retry_pread [OF os_okD(1) [OF os]]])
qed

text \<open>The brightness is the maximum of the readable nodes, at least 0.\<close>

lemma read_bl_loop_spec:
  assumes os: "os_ok os"
  shows "runs (read_bl_loop os fds best any h) (\<lambda>(b, a, h'). sint best \<le> sint b \<and> (any \<longrightarrow> a) \<and>
    (\<not> a \<longrightarrow> b = best) \<and> (\<exists>new. h' = new @ h \<and> only_reads new))"
proof (induction fds arbitrary: best any h)
  case (Cons fd fds)
  define Q where "Q = (\<lambda>(b :: i32, a, h'). sint best \<le> sint b \<and> (any \<longrightarrow> a) \<and> (\<not> a \<longrightarrow> b = best) \<and>
    (\<exists>new. h' = new @ h \<and> only_reads new))"
  have step: "runs (read_bl_loop os fds best' any' (Pread fd 16 r # replicate k (Pread fd 16 e) @ h)) Q"
    if "sint best \<le> sint best'" "any \<longrightarrow> any'" "\<not> any' \<longrightarrow> best' = best" for best' any' r k e
    unfolding Q_def by (rule runs_mono [OF Cons.IH]) (use that in force)
  show ?case
    unfolding Q_def [symmetric]
    by (auto simp: sint_cmp Let_def split: sum.splits prod.splits
        intro!: runs_mono [OF retry_pread [OF os_okD(1) [OF os], of fd 16 h]] step)
qed simp


lemma read_bl_spec:
  assumes os: "os_ok os"
  shows "runs (pg_sensor_read_bl os s h) (\<lambda>(ret, b, h'). 0 \<le> sint b \<and> (ret < 0 \<longrightarrow> b = 0) \<and>
    (ret = 0 \<or> ret = - EIO \<or> ret = - EBADF) \<and> (\<exists>new. h' = new @ h \<and> only_reads new))"
  unfolding pg_sensor_read_bl_def
  by (auto intro!: runs_mono [OF read_bl_loop_spec [OF os, of _ 0 False h]])

section \<open>Descriptors\<close>

definition bl_ok :: "pg_bl_sensor \<Rightarrow> bool" where
  "bl_ok s \<longleftrightarrow> length (bl_fd s) = PG_BL_MAX \<and> bl_n s \<le> PG_BL_MAX \<and>
     (\<forall>i < bl_n s. 0 \<le> bl_fd s ! i)"

lemma init_bl_ok:
  assumes "os_ok os" "bl_ok s"
  shows "bl_ok (fst (pg_sensor_init_bl os s path h))"
  using assms os_okD(3) [OF assms(1)]
  by (auto simp: bl_ok_def pg_sensor_init_bl_def sys_open_def Let_def fds_valid_def less_Suc_eq nth_list_update
      split: sum.splits)

text \<open>Closing closes exactly the open descriptors, each once, in order.\<close>

lemma bl_close_loop_eq:
  "n \<le> length fds \<Longrightarrow> snd (bl_close_loop n fds h) = rev (map Close (filter (\<lambda>fd. 0 \<le> fd) (take n fds))) @ h"
  by (induction n fds h rule: bl_close_loop.induct) (auto simp: Let_def sys_close_def case_prod_unfold)

lemma bl_close_all:
  assumes "bl_ok s"
  shows "snd (pg_sensor_bl_close s h) = rev (map Close (take (bl_n s) (bl_fd s))) @ h"
    "bl_n (fst (pg_sensor_bl_close s h)) = 0"
proof -
  have "filter (\<lambda>fd. 0 \<le> fd) (take (bl_n s) (bl_fd s)) = take (bl_n s) (bl_fd s)"
    using assms by (intro filter_True) (auto simp: bl_ok_def in_set_conv_nth)
  then show "snd (pg_sensor_bl_close s h) = rev (map Close (take (bl_n s) (bl_fd s))) @ h"
    "bl_n (fst (pg_sensor_bl_close s h)) = 0"
    using assms bl_close_loop_eq [of "bl_n s" "bl_fd s" h]
    by (simp_all add: pg_sensor_bl_close_def Let_def case_prod_unfold bl_ok_def)
qed

section \<open>Properties\<close>

text \<open>
  C40: Reading a temperature returns, gives a value from -30 to 150 degrees whatever the node holds, gives the
  fallback exactly as documented when the result code is not 0, and touches the machine by positioned reads only.
\<close>

theorem sensor_temp_bounded:
  assumes "os_ok os"
    and "read = (pg_sensor_read_cpu_temp, FALLBACK_TEMP_CPU) \<or> read = (pg_sensor_read_bat_temp, FALLBACK_TEMP_BAT)"
  shows "runs (fst read os s h) (\<lambda>(ret, t, h'). - 30 * 65536 \<le> sint t \<and> sint t \<le> 150 * 65536 \<and>
    (ret \<noteq> 0 \<longrightarrow> t = snd read) \<and> (\<exists>new. h' = new @ h \<and> only_reads new))"
proof -
  have "sint FALLBACK_TEMP_CPU = 4259840" "sint FALLBACK_TEMP_BAT = 2293760" by (simp_all add: q16_consts)
  with assms(2) show ?thesis
    by (auto simp: pg_sensor_read_cpu_temp_def pg_sensor_read_bat_temp_def
        intro!: runs_mono [OF read_temp_spec [OF assms(1)]])
qed

lemma sensor_temp_bounded_witness:
  "runs (pg_sensor_read_cpu_temp sample_os \<lparr>ts_fd = 3, ts_scale = 1000\<rparr> [])
     (\<lambda>(ret, t, h'). sint t \<le> 150 * 65536)"
  using sensor_temp_bounded [OF sample_os_ok, of "(pg_sensor_read_cpu_temp, FALLBACK_TEMP_CPU)"
      "\<lparr>ts_fd = 3, ts_scale = 1000\<rparr>" "[]"] by (auto elim!: runs_mono)

text \<open>
  Scanning the backlight nodes returns a brightness that is not negative; an error leaves the
  brightness 0, and the only errors are a sensor without nodes and nodes none of which can be read.
\<close>

theorem sensor_brightness:
  assumes "os_ok os"
  shows "runs (pg_sensor_read_bl os s h) (\<lambda>(ret, b, h'). 0 \<le> sint b \<and> (ret < 0 \<longrightarrow> b = 0) \<and>
    (ret = 0 \<or> ret = - EIO \<or> ret = - EBADF) \<and> (\<exists>new. h' = new @ h \<and> only_reads new))"
  by (rule read_bl_spec [OF assms])

lemma sensor_brightness_witness:
  "runs (pg_sensor_read_bl sample_os \<lparr>bl_fd = [3, -1, -1, -1], bl_n = 1\<rparr> []) (\<lambda>(ret, b, h'). 0 \<le> sint b)"
  by (rule runs_mono [OF sensor_brightness [OF sample_os_ok]]) auto

end
