(* ===== verification/Pg_Cpu.thy ===== *)
theory Pg_Cpu
  imports Pg_Math
begin

text \<open>
  The scheduler model of \<^verbatim>\<open>core/cpu.c\<close>: a damped spring that follows the measured pressure, and
  the functions that map the resulting demand to the six scheduler values.
  A NULL argument, on which each function returns early, has no counterpart here: the callers
  pass the addresses of existing objects only.
  The lemmas bound the demand and show that every mapping stays inside the limits it is given.
\<close>

section \<open>Limits, configuration and state\<close>

record pg_cpu_lim =
  min_lat :: q16
  max_lat :: q16
  min_gran :: q16
  max_gran :: q16
  min_wake :: q16
  max_wake :: q16
  min_mig :: q16
  max_mig :: q16
  min_walt :: q16
  max_walt :: q16
  min_ucl :: q16
  max_ucl :: q16

record pg_cpu_cfg =
  lat_gran_rat :: q16
  uclamp_k :: q16
  sigmoid_k :: q16
  surge_thresh :: q16
  trans_rate :: q16
  trans_diff :: q16
  trans_poll :: q16

record pg_cpu_eff =
  resp_gain :: q16
  surge_gain :: q16
  trend_amp :: q16
  lookahead :: q16
  eff_decay :: q16
  sig_mid :: q16
  ucl_mid :: q16
  stab_rat :: q16
  gain_alpha :: q16
  nis_thresh :: q16

record pg_demand_input =
  tgt_psi :: q16
  vel :: q16
  dt_safe :: q16
  therm_scale :: q16
  trend_fact :: q16
  di_integ :: q16
  integ_dt :: q16
  struct_break :: bool

record pg_load_state =
  psi_val :: q16
  rate :: q16
  psi_ref :: q16
  prev_integ :: q16
  load_first_run :: bool
  eff :: pg_cpu_eff

section \<open>The load model\<close>

definition pg_cpu_trans :: "pg_load_state \<Rightarrow> pg_cpu_cfg \<Rightarrow> bool" where
  "pg_cpu_trans state cfg =
     (let r = trans_rate cfg <s abs_q16 (rate state);
          d = trans_diff cfg <s abs_q16 (psi_val state - psi_ref state)
      in r \<or> d)"

text \<open>The results are \<open>*i\<close> and \<open>*i_dt\<close>.\<close>

definition pg_cpu_upd_intg :: "pg_load_state \<Rightarrow> q16 \<Rightarrow> q16 \<Rightarrow> q16 \<times> q16 \<times> pg_load_state" where
  "pg_cpu_upd_intg state bat_lvl dt_real =
     (let b_lvl = pg_math_clamp bat_lvl 0 (INT_TO_Q16 100);
          d_bat = INT_TO_Q16 100 - b_lvl;
          depl = q16_div d_bat (INT_TO_Q16 100);
          depl2 = q16_mul depl depl;
          depl3 = q16_mul depl2 depl;
          c_intg = q16_mul (FLOAT_TO_Q16 97 1) depl3
      in if load_first_run state
         then (c_intg, 0, state\<lparr>prev_integ := c_intg, load_first_run := False\<rparr>)
         else let c_dt = (if 0 <s dt_real
                          then (let diff = c_intg - prev_integ state; tau = INT_TO_Q16 5 in q16_div diff tau)
                          else 0)
              in (c_intg, c_dt, state\<lparr>prev_integ := c_intg\<rparr>))"

definition calc_l_term :: "q16 \<Rightarrow> q16 \<Rightarrow> q16 \<Rightarrow> q32" where
  "calc_l_term integ psi_v k_fin =
     (let l_term = q32_mul (Q16_TO_Q32 integ) (Q16_TO_Q32 psi_v);
          m_rsp = q32_mul (Q16_TO_Q32 k_fin) (Q16_TO_Q32 (INT_TO_Q16 100));
          lim_l = q32_mul m_rsp (Q16_TO_Q32 (FLOAT_TO_Q16 15 10))
      in if lim_l <s l_term then lim_l else l_term)"

text \<open>\<open>c_max\<close>, a \<open>q16_t\<close>, is promoted to 64 bits in the two comparisons with \<open>c_req\<close>.\<close>

definition calc_c_final :: "q16 \<Rightarrow> q16 \<Rightarrow> q16 \<Rightarrow> q16 \<Rightarrow> q16 \<Rightarrow> pg_cpu_eff \<Rightarrow> q16" where
  "calc_c_final k_fin v i_dt psi_v th e =
     (let c_crit = q16_mul (INT_TO_Q16 2) (pg_math_q16_sqrt k_fin);
          c_base = q16_mul c_crit (stab_rat e);
          load = Q16_TO_Q32 v;
          r_sq = q32_mul load load + Q16_TO_Q32 (FLOAT_TO_Q16 1 1000);
          d_n1 = Q16_TO_Q32 (q16_mul Q16_HALF (abs_q16 i_dt));
          p_val = Q16_TO_Q32 psi_v;
          d_n2 = q32_mul p_val p_val;
          d_num = q32_mul d_n1 d_n2;
          c_req = (if 0 <s r_sq then word_sdiv d_num (signed_drop_bit 16 r_sq) else 0);
          c_max = q16_mul c_base (INT_TO_Q16 4);
          c_clp = (if scast c_max \<le>s c_req then c_max else if c_req \<le>s 0 then 0 else ucast c_req);
          c_stb = q16_mul c_clp (FLOAT_TO_Q16 31 10);
          th_sq = pg_math_q16_sqrt th;
          c_th = (if 0 <s th_sq then q16_div c_base th_sq else c_base)
      in if c_stb <s c_th then c_th else c_stb)"

definition pg_cpu_upd_eff :: "pg_cpu_eff \<Rightarrow> q16 \<Rightarrow> q16 \<Rightarrow> q16 \<Rightarrow> pg_cpu_eff" where
  "pg_cpu_upd_eff e bat_lvl th_scl avg300 =
     (let b_lvl = pg_math_clamp bat_lvl 0 (INT_TO_Q16 100);
          bat_fact = q16_div b_lvl (INT_TO_Q16 100);
          health = q16_mul bat_fact th_scl;
          s_mid = FLOAT_TO_Q16 68 10 + q16_mul (FLOAT_TO_Q16 5 10) avg300;
          noise = q16_mul avg300 (FLOAT_TO_Q16 1 10);
          noise = pg_math_clamp noise 0 Q16_ONE
      in e\<lparr>resp_gain := q16_mul (FLOAT_TO_Q16 31 1) health,
           surge_gain := q16_mul (FLOAT_TO_Q16 95 1000) health,
           trend_amp := q16_mul (FLOAT_TO_Q16 115 1000) health,
           lookahead := q16_mul (FLOAT_TO_Q16 17 100) th_scl,
           eff_decay := q16_mul (FLOAT_TO_Q16 19 1000) th_scl,
           sig_mid := s_mid,
           ucl_mid := s_mid + FLOAT_TO_Q16 27 10,
           nis_thresh := pg_math_lerp (FLOAT_TO_Q16 3 1) (FLOAT_TO_Q16 12 1) noise,
           stab_rat := pg_math_lerp (FLOAT_TO_Q16 15 10) (FLOAT_TO_Q16 35 10) noise,
           gain_alpha := pg_math_lerp (FLOAT_TO_Q16 99 100) (FLOAT_TO_Q16 85 100) noise\<rparr>)"

text \<open>
  The three stages of \<open>pg_cpu_calc_load_demand\<close>: the snap on a structural break and the kick of a
  surge; damping and clipped spring force; the bounds on the pressure after the step.
\<close>

definition demand_enter :: "pg_load_state \<Rightarrow> pg_demand_input \<Rightarrow> pg_cpu_cfg \<Rightarrow> pg_load_state" where
  "demand_enter state inp cfg =
     (let state = (if struct_break inp then state\<lparr>psi_val := tgt_psi inp, rate := 0\<rparr> else state);
          l_rate = vel inp
      in if surge_thresh cfg <s abs_q16 l_rate
         then state\<lparr>rate := rate state + q16_mul l_rate (surge_gain (eff state))\<rparr> else state)"

definition demand_force :: "pg_load_state \<Rightarrow> pg_demand_input \<Rightarrow> q16 \<times> q32" where
  "demand_force state inp =
     (let e = eff state;
          l_rate = vel inp;
          pred = tgt_psi inp + q16_mul l_rate (lookahead e);
          trend = q16_mul (gain_alpha e) (trend_fact inp);
          k_dyn = q16_mul (resp_gain e) (Q16_ONE + trend);
          th = pg_math_clamp (therm_scale inp) (FLOAT_TO_Q16 1 10) Q16_ONE;
          k_fin = q16_mul k_dyn (q16_mul th th);
          disp = pred - psi_val state;
          p_term = q32_mul (Q16_TO_Q32 k_fin) (Q16_TO_Q32 disp);
          l_term = calc_l_term (di_integ inp) (psi_val state) k_fin;
          c_fin = calc_c_final k_fin l_rate (integ_dt inp) (psi_val state) th e;
          f_q32 = p_term - l_term;
          f_q32 = (if Q16_TO_Q32 (INT_TO_Q16 32000) <s f_q32 then Q16_TO_Q32 (INT_TO_Q16 32000)
                   else if f_q32 <s Q16_TO_Q32 (INT_TO_Q16 (- 32000)) then Q16_TO_Q32 (INT_TO_Q16 (- 32000))
                   else f_q32)
      in (c_fin, f_q32))"

definition demand_bound :: "pg_load_state \<Rightarrow> pg_load_state" where
  "demand_bound state =
     (if psi_val state <s 0 then state\<lparr>psi_val := 0, rate := 0\<rparr>
      else if INT_TO_Q16 500 <s psi_val state then state\<lparr>psi_val := INT_TO_Q16 500, rate := 0\<rparr>
      else state)"

definition pg_cpu_calc_load_demand ::
    "pg_load_state \<Rightarrow> pg_demand_input \<Rightarrow> pg_cpu_cfg \<Rightarrow> q16 \<times> pg_load_state" where
  "pg_cpu_calc_load_demand state inp cfg =
     (if tgt_psi inp <s INT_TO_Q16 1 \<and> abs_q16 (vel inp) <s FLOAT_TO_Q16 1 100 \<and>
         psi_val state <s INT_TO_Q16 1 \<and> abs_q16 (rate state) <s FLOAT_TO_Q16 1 100
      then (0, state\<lparr>psi_val := 0, rate := 0\<rparr>)
      else
        let state = demand_enter state inp cfg;
            (c_fin, f_q32) = demand_force state inp;
            dt = dt_safe inp;
            den = Q16_ONE + q16_mul c_fin dt;
            state = state\<lparr>rate := q16_div (rate state + q16_mul (Q32_TO_Q16 f_q32) dt) den\<rparr>;
            state = state\<lparr>psi_val := psi_val state + q16_mul (rate state) dt\<rparr>;
            state = demand_bound state
        in (psi_val state, state))"

section \<open>From demand to scheduler values\<close>

definition pg_cpu_calc_trend_gain :: "q16 \<Rightarrow> q16" where
  "pg_cpu_calc_trend_gain v = (if 0 <s v then pg_math_alg_sig v else 0)"

definition pg_cpu_calc_eff_press :: "q16 \<Rightarrow> q16 \<Rightarrow> pg_cpu_eff \<Rightarrow> q16" where
  "pg_cpu_calc_eff_press l_dem t_fact e =
     (let t_mul = Q16_ONE + q16_mul t_fact (trend_amp e) in q16_mul l_dem t_mul)"

definition pg_cpu_calc_therm_lat :: "q16 \<Rightarrow> pg_cpu_lim \<Rightarrow> q16" where
  "pg_cpu_calc_therm_lat th_scl lim =
     (let l_rat = pg_math_clamp (Q16_ONE - th_scl) 0 Q16_ONE;
          l_rng = max_lat lim - min_lat lim
      in min_lat lim + q16_mul l_rng l_rat)"

definition pg_cpu_calc_lat ::
    "q16 \<Rightarrow> q16 \<Rightarrow> q16 \<Rightarrow> pg_cpu_cfg \<Rightarrow> pg_cpu_eff \<Rightarrow> pg_cpu_lim \<Rightarrow> q16" where
  "pg_cpu_calc_lat p_eff l_dem th_lat cfg e lim =
     (let sig = pg_math_sigmoid p_eff (sigmoid_k cfg) (sig_mid e);
          fac = Q16_ONE - sig;
          rng = max_lat lim - min_lat lim;
          n_lat = min_lat lim + q16_mul rng fac;
          e_dem = pg_math_clamp (q16_div l_dem (INT_TO_Q16 100)) 0 Q16_ONE;
          l_lat = max_lat lim - q16_mul e_dem rng;
          i_lat = (if n_lat <s l_lat then n_lat else l_lat);
          f_lat = (if th_lat <s i_lat then i_lat else th_lat)
      in pg_math_clamp f_lat (min_lat lim) (max_lat lim))"

definition pg_cpu_calc_gran :: "q16 \<Rightarrow> pg_cpu_cfg \<Rightarrow> pg_cpu_lim \<Rightarrow> q16" where
  "pg_cpu_calc_gran lat cfg lim =
     (let r_grn = q16_mul lat (lat_gran_rat cfg);
          a_grn = pg_math_clamp r_grn (min_gran lim) (max_gran lim)
      in if a_grn <s lat then a_grn else lat)"

definition pg_cpu_calc_wakeup :: "q16 \<Rightarrow> pg_cpu_eff \<Rightarrow> pg_cpu_lim \<Rightarrow> q16" where
  "pg_cpu_calc_wakeup p_eff e lim =
     (let dec = pg_math_decay p_eff (eff_decay e);
          rng = max_wake lim - min_wake lim;
          r_wake = min_wake lim + q16_mul rng dec
      in pg_math_clamp r_wake (min_wake lim) (max_wake lim))"

definition pg_cpu_calc_migration :: "q16 \<Rightarrow> q16 \<Rightarrow> pg_cpu_lim \<Rightarrow> q16" where
  "pg_cpu_calc_migration v p_eff lim =
     (let x = pg_math_clamp (q16_div p_eff (INT_TO_Q16 100)) 0 Q16_ONE;
          fac = Q16_ONE - x;
          crv = q16_mul fac fac;
          rng = max_mig lim - min_mig lim;
          r_mig = min_mig lim + q16_mul rng crv;
          a_vel = abs_q16 v;
          v_rat = pg_math_clamp (q16_div a_vel (INT_TO_Q16 25)) 0 Q16_ONE;
          mig = q16_mul r_mig (Q16_ONE - q16_mul v_rat Q16_HALF)
      in pg_math_clamp mig (min_mig lim) (max_mig lim))"

definition pg_cpu_calc_walt :: "q16 \<Rightarrow> pg_cpu_lim \<Rightarrow> q16" where
  "pg_cpu_calc_walt press lim =
     (let rat = pg_math_clamp (q16_div press (INT_TO_Q16 100)) 0 Q16_ONE;
          crv = q16_mul rat rat;
          rng = max_walt lim - min_walt lim;
          val = min_walt lim + q16_mul rng crv
      in pg_math_clamp val (min_walt lim) (max_walt lim))"

definition pg_cpu_calc_uclamp ::
    "q16 \<Rightarrow> q16 \<Rightarrow> pg_cpu_cfg \<Rightarrow> pg_cpu_eff \<Rightarrow> pg_cpu_lim \<Rightarrow> q16" where
  "pg_cpu_calc_uclamp press th_scl cfg e lim =
     (let sig = pg_math_sigmoid press (uclamp_k cfg) (ucl_mid e);
          rng = max_ucl lim - min_ucl lim;
          ucl = min_ucl lim + q16_mul rng sig
      in pg_math_clamp (q16_mul ucl th_scl) (min_ucl lim) (max_ucl lim))"

section \<open>Interpolation between two limits\<close>

text \<open>The contract of a pair of limits: ordered, and far from overflow (at most 1024).\<close>

definition lim_pair :: "q16 \<Rightarrow> q16 \<Rightarrow> bool" where
  "lim_pair mn mx \<longleftrightarrow> 0 \<le> sint mn \<and> sint mn \<le> sint mx \<and> sint mx \<le> 67108864"

definition lim_ok :: "pg_cpu_lim \<Rightarrow> bool" where
  "lim_ok l \<longleftrightarrow> lim_pair (min_lat l) (max_lat l) \<and> lim_pair (min_gran l) (max_gran l) \<and>
     lim_pair (min_wake l) (max_wake l) \<and> lim_pair (min_mig l) (max_mig l) \<and>
     lim_pair (min_walt l) (max_walt l) \<and> lim_pair (min_ucl l) (max_ucl l)"

definition unit_range :: "q16 \<Rightarrow> bool" where
  "unit_range v \<longleftrightarrow> 0 \<le> sint v \<and> sint v \<le> 65536"

lemma unit_rangeI [intro]: "0 \<le> sint v \<Longrightarrow> sint v \<le> 65536 \<Longrightarrow> unit_range v"
  and unit_rangeD: "unit_range v \<Longrightarrow> 0 \<le> sint v" "unit_range v \<Longrightarrow> sint v \<le> 65536"
  by (simp_all add: unit_range_def)

lemma lim_pairD:
  assumes "lim_pair mn mx"
  shows "0 \<le> sint mn" "sint mn \<le> sint mx" "sint mx \<le> 67108864"
    "- 2147483648 \<le> sint mx - sint mn" "sint mx - sint mn \<le> 2147483647"
  using assms by (simp_all add: lim_pair_def)

lemma lerp_fold: "mn + q16_mul (mx - mn) v = pg_math_lerp mn mx v"
  by (simp add: pg_math_lerp_def Let_def)

lemma lerp_between:
  assumes "lim_pair mn mx" "unit_range v"
  shows "sint mn \<le> sint (pg_math_lerp mn mx v)" "sint (pg_math_lerp mn mx v) \<le> sint mx"
  using sint_lerp(2,3) [OF lim_pairD(4,5) [OF assms(1)] unit_rangeD [OF assms(2)]] lim_pairD [OF assms(1)]
  by simp_all

lemma lerp_mono:
  assumes "lim_pair mn mx" "unit_range v" "unit_range w" "sint v \<le> sint w"
  shows "sint (pg_math_lerp mn mx v) \<le> sint (pg_math_lerp mn mx w)"
proof -
  have "(sint mx - sint mn) * sint v \<le> (sint mx - sint mn) * sint w"
    using lim_pairD [OF assms(1)] assms(4) by (intro mult_left_mono) simp_all
  then show ?thesis
    using zdiv_mono1 [of _ _ 65536]
    by (simp add: sint_lerp(1) [OF lim_pairD(4,5) [OF assms(1)] unit_rangeD [OF assms(2)]]
        sint_lerp(1) [OF lim_pairD(4,5) [OF assms(1)] unit_rangeD [OF assms(3)]])
qed

text \<open>A clamped interpolation is the interpolation: the final clamps of the mappings are a second line of defence.\<close>

lemma clamp_lerp:
  assumes "lim_pair mn mx" "unit_range v"
  shows "pg_math_clamp (pg_math_lerp mn mx v) mn mx = pg_math_lerp mn mx v"
  using lerp_between [OF assms] by (rule clamp_id)

lemma clamp_mono:
  assumes "sint mn \<le> sint mx" "sint v \<le> sint w"
  shows "sint (pg_math_clamp v mn mx) \<le> sint (pg_math_clamp w mn mx)"
  using assms(2) unfolding sint_clamp [OF assms(1)] by (intro max.mono min.mono order_refl)

text \<open>The ratio \<open>x / n\<close>, clamped to the unit range.\<close>

lemma sint_div_pos:
  assumes "65536 \<le> sint d"
  shows "sint (q16_div x d) = (sint x * 65536) sdiv sint d"
proof -
  have nz: "d \<noteq> 0" using assms word_neq_0_sint [of d] by linarith
  have d: "0 < sint d" using assms by simp
  have "\<bar>sint x\<bar> * 65536 \<le> \<bar>sint x\<bar> * sint d"
    using assms by (intro mult_left_mono) simp_all
  then have "\<bar>sint x\<bar> * 65536 div sint d \<le> \<bar>sint x\<bar> * sint d div sint d"
    using d by (intro zdiv_mono1)
  then have "\<bar>sint x\<bar> * 65536 div sint d \<le> \<bar>sint x\<bar>" using d by simp
  moreover have "0 \<le> \<bar>sint x\<bar> * 65536 div sint d" using d by (simp add: pos_imp_zdiv_nonneg_iff)
  moreover have "(sint x * 65536) sdiv sint d = sgn (sint x) * (\<bar>sint x\<bar> * 65536 div sint d)"
    using d by (simp add: signed_divide_int_def abs_mult sgn_mult)
  ultimately have "- \<bar>sint x\<bar> \<le> (sint x * 65536) sdiv sint d" "(sint x * 65536) sdiv sint d \<le> \<bar>sint x\<bar>"
    "sint x = - 2147483648 \<Longrightarrow> (sint x * 65536) sdiv sint d \<le> 0"
    by (auto simp: sgn_if)
  then show ?thesis
    unfolding sint_q16_div [OF nz] using sint32_range [of x]
    by (intro no_wrap32) (cases "sint x = - 2147483648"; simp; fail)+
qed

definition ratio :: "q16 \<Rightarrow> q16 \<Rightarrow> q16" where
  "ratio x d = pg_math_clamp (q16_div x d) 0 Q16_ONE"

lemma ratio_unit [simp, intro]: "unit_range (ratio x d)"
  using clamp_range [of 0 Q16_ONE "q16_div x d"] by (intro unit_rangeI) (simp_all add: ratio_def)

lemma ratio_mono:
  assumes "65536 \<le> sint d" "sint x \<le> sint y"
  shows "sint (ratio x d) \<le> sint (ratio y d)"
  unfolding ratio_def using assms
  by (intro clamp_mono) (simp_all add: sint_div_pos sdiv_mono)

lemma unit_mul:
  assumes "unit_range v" "0 \<le> sint x"
  shows "sint (q16_mul x v) = sint x * sint v div 65536" "0 \<le> sint (q16_mul x v)"
    "sint (q16_mul x v) \<le> sint x"
proof -
  have le: "sint x * sint v \<le> sint x * 65536"
    using assms unit_rangeD by (intro mult_left_mono) simp_all
  have ge: "0 \<le> sint x * sint v" using assms unit_rangeD by simp
  show e: "sint (q16_mul x v) = sint x * sint v div 65536"
    using le ge sint32_range [of x] by (intro sint_q16_mul_exact) linarith+
  show "0 \<le> sint (q16_mul x v)" using ge by (simp add: e pos_imp_zdiv_nonneg_iff)
  show "sint (q16_mul x v) \<le> sint x" using zdiv_mono1 [OF le, of 65536] by (simp add: e)
qed

lemma unit_mul_mono:
  assumes "unit_range v" "unit_range w" "0 \<le> sint x" "sint x \<le> sint y" "sint v \<le> sint w"
  shows "sint (q16_mul x v) \<le> sint (q16_mul y w)"
proof -
  have "sint x * sint v \<le> sint y * sint w"
    using assms unit_rangeD by (intro mult_mono) simp_all
  then show ?thesis
    using assms unit_mul(1) [of v x] unit_mul(1) [of w y] zdiv_mono1 by simp
qed

lemma one_minus_unit:
  assumes "unit_range v"
  shows "sint (Q16_ONE - v) = 65536 - sint v" "unit_range (Q16_ONE - v)"
proof -
  show e: "sint (Q16_ONE - v) = 65536 - sint v"
    using unit_rangeD [OF assms] by (simp add: sint_push no_wrap)
  show "unit_range (Q16_ONE - v)" using unit_rangeD [OF assms] by (intro unit_rangeI) (simp_all add: e)
qed

section \<open>Each mapping stays inside its limits\<close>

text \<open>
  For every input, also one that wraps around inside the mapping.  Only the granularity has a
  second bound: it never exceeds the latency, so it can fall below its minimum with it.
\<close>

lemma lat_within:
  assumes "sint (min_lat l) \<le> sint (max_lat l)"
  shows "sint (min_lat l) \<le> sint (pg_cpu_calc_lat p d th c e l)"
    "sint (pg_cpu_calc_lat p d th c e l) \<le> sint (max_lat l)"
  using clamp_range [OF assms] by (simp_all add: pg_cpu_calc_lat_def Let_def)

lemma wakeup_within:
  assumes "sint (min_wake l) \<le> sint (max_wake l)"
  shows "sint (min_wake l) \<le> sint (pg_cpu_calc_wakeup p e l)"
    "sint (pg_cpu_calc_wakeup p e l) \<le> sint (max_wake l)"
  using clamp_range [OF assms] by (simp_all add: pg_cpu_calc_wakeup_def Let_def)

lemma migration_within:
  assumes "sint (min_mig l) \<le> sint (max_mig l)"
  shows "sint (min_mig l) \<le> sint (pg_cpu_calc_migration v p l)"
    "sint (pg_cpu_calc_migration v p l) \<le> sint (max_mig l)"
  using clamp_range [OF assms] by (simp_all add: pg_cpu_calc_migration_def Let_def)

lemma walt_within:
  assumes "sint (min_walt l) \<le> sint (max_walt l)"
  shows "sint (min_walt l) \<le> sint (pg_cpu_calc_walt p l)"
    "sint (pg_cpu_calc_walt p l) \<le> sint (max_walt l)"
  using clamp_range [OF assms] by (simp_all add: pg_cpu_calc_walt_def Let_def)

lemma uclamp_within:
  assumes "sint (min_ucl l) \<le> sint (max_ucl l)"
  shows "sint (min_ucl l) \<le> sint (pg_cpu_calc_uclamp p th c e l)"
    "sint (pg_cpu_calc_uclamp p th c e l) \<le> sint (max_ucl l)"
  using clamp_range [OF assms] by (simp_all add: pg_cpu_calc_uclamp_def Let_def)

lemma gran_within:
  assumes "sint (min_gran l) \<le> sint (max_gran l)"
  shows "min (sint (min_gran l)) (sint lat) \<le> sint (pg_cpu_calc_gran lat c l)"
    "sint (pg_cpu_calc_gran lat c l) \<le> sint (max_gran l)"
    "sint (pg_cpu_calc_gran lat c l) \<le> sint lat"
  using clamp_range [OF assms, of "q16_mul lat (lat_gran_rat c)"]
  by (auto simp: pg_cpu_calc_gran_def Let_def sint_cmp)

text \<open>The thermal floor: the latency is never below the one the thermal scale demands.\<close>

lemma therm_lat_eq: "pg_cpu_calc_therm_lat th l = pg_math_lerp (min_lat l) (max_lat l) (pg_math_clamp (Q16_ONE - th) 0 Q16_ONE)"
  by (simp add: pg_cpu_calc_therm_lat_def pg_math_lerp_def Let_def)

lemma therm_lat_within:
  assumes "lim_pair (min_lat l) (max_lat l)"
  shows "sint (min_lat l) \<le> sint (pg_cpu_calc_therm_lat th l)"
    "sint (pg_cpu_calc_therm_lat th l) \<le> sint (max_lat l)"
proof -
  have "unit_range (pg_math_clamp (Q16_ONE - th) 0 Q16_ONE)"
    using clamp_range [of 0 Q16_ONE "Q16_ONE - th"] by (intro unit_rangeI) simp_all
  then show "sint (min_lat l) \<le> sint (pg_cpu_calc_therm_lat th l)"
    "sint (pg_cpu_calc_therm_lat th l) \<le> sint (max_lat l)"
    unfolding therm_lat_eq by (rule lerp_between [OF assms])+
qed

lemma sint_min_if: "sint (if a <s b then a else b) = min (sint a) (sint b)"
  and sint_max_if: "sint (if a <s b then b else a) = max (sint a) (sint b)"
  by (simp_all add: sint_cmp)

lemma sint_calc_lat:
  assumes "sint (min_lat l) \<le> sint (max_lat l)"
  shows "sint (pg_cpu_calc_lat p d th c e l) =
    max (sint (min_lat l)) (min (sint (max_lat l)) (max (sint th)
      (min (sint (pg_math_lerp (min_lat l) (max_lat l) (Q16_ONE - pg_math_sigmoid p (sigmoid_k c) (sig_mid e))))
        (sint (max_lat l - q16_mul (ratio d (INT_TO_Q16 100)) (max_lat l - min_lat l))))))"
  unfolding pg_cpu_calc_lat_def Let_def sint_clamp [OF assms] sint_max_if sint_min_if lerp_fold ratio_def ..

lemma lat_thermal_floor:
  assumes "sint (min_lat l) \<le> sint (max_lat l)" "sint th \<le> sint (max_lat l)"
  shows "sint th \<le> sint (pg_cpu_calc_lat p d th c e l)"
  unfolding sint_calc_lat [OF assms(1)] using assms(2) by (simp add: le_max_iff_disj)

section \<open>Monotone responses\<close>

text \<open>
  The sigmoids are evaluated at non-negative pressures, with a midpoint that is not negative and a
  slope of at most one half, so nothing wraps around and they are monotone.
\<close>

definition slope_ok :: "q16 \<Rightarrow> bool" where
  "slope_ok k \<longleftrightarrow> 0 \<le> sint k \<and> sint k \<le> 32768"

lemma slope_bounds:
  assumes "slope_ok k" "\<bar>x\<bar> \<le> 2147483647"
  shows "- 70368744144896 \<le> sint k * x" "sint k * x \<le> 70368744144896"
proof -
  have "\<bar>sint k * x\<bar> \<le> 32768 * 2147483647"
    using assms by (intro mult_abs_le) (simp_all add: slope_ok_def)
  then show "- 70368744144896 \<le> sint k * x" "sint k * x \<le> 70368744144896" by (simp_all add: abs_le_iff)
qed

lemma sigmoid_unit:
  assumes "slope_ok k" "0 \<le> sint mid" "0 \<le> sint p"
  shows "unit_range (pg_math_sigmoid p k mid)"
proof -
  have d: "sint (p - mid) = sint p - sint mid"
    using assms sint32_range [of p] sint32_range [of mid] by (simp add: sint_push no_wrap)
  have b: "\<bar>sint p - sint mid\<bar> \<le> 2147483647"
    using assms sint32_range [of p] sint32_range [of mid] by simp
  note sb = slope_bounds [OF assms(1) b]
  have "sint (q16_mul k (p - mid)) = sint k * (sint p - sint mid) div 65536"
    using sb by (subst sint_q16_mul_exact) (simp_all add: d)
  moreover have "- 1073741824 \<le> sint k * (sint p - sint mid) div 65536"
    "sint k * (sint p - sint mid) div 65536 \<le> 1073741824"
    using zdiv_mono1 [OF sb(1), of 65536] zdiv_mono1 [OF sb(2), of 65536] by simp_all
  ultimately have "- 2147418111 \<le> sint (q16_mul k (p - mid))" "sint (q16_mul k (p - mid)) \<le> 2147418111"
    by linarith+
  from sigmoid_range [OF this] show ?thesis by (intro unit_rangeI) simp_all
qed

lemma sigmoid_incr:
  assumes "slope_ok k" "0 \<le> sint mid" "0 \<le> sint p" "sint p \<le> sint q"
  shows "sint (pg_math_sigmoid p k mid) \<le> sint (pg_math_sigmoid q k mid)"
proof -
  have b: "\<bar>sint p - sint mid\<bar> \<le> 2147483647" "\<bar>sint q - sint mid\<bar> \<le> 2147483647"
    using assms sint32_range [of p] sint32_range [of q] sint32_range [of mid] by linarith+
  show ?thesis
    using assms b slope_bounds [OF assms(1) b(1)] slope_bounds [OF assms(1) b(2)]
    by (intro sigmoid_mono) (simp_all add: slope_ok_def abs_le_iff)
qed

lemma max_minus_mul:
  assumes "lim_pair mn mx" "unit_range v"
  shows "sint (mx - q16_mul v (mx - mn)) = sint mx - (sint mx - sint mn) * sint v div 65536"
proof -
  have r: "sint (mx - mn) = sint mx - sint mn" using lim_pairD [OF assms(1)] by (simp add: sint_push no_wrap)
  have nn: "0 \<le> sint (mx - mn)" using lim_pairD [OF assms(1)] r by simp
  have m: "sint (q16_mul v (mx - mn)) = (sint mx - sint mn) * sint v div 65536"
    "0 \<le> sint (q16_mul v (mx - mn))" "sint (q16_mul v (mx - mn)) \<le> sint mx - sint mn"
    unfolding q16_mul_comm [of v] using unit_mul [OF assms(2) nn] r by simp_all
  show ?thesis
    using m lim_pairD [OF assms(1)] by (simp add: sint_push no_wrap)
qed

text \<open>More pressure or demand never lengthens the latency period; a hotter device never shortens it.\<close>

theorem lat_response:
  assumes l: "lim_pair (min_lat l) (max_lat l)" and k: "slope_ok (sigmoid_k c)" and m: "0 \<le> sint (sig_mid e)"
    and p: "0 \<le> sint p" "sint p \<le> sint p'" and d: "sint d \<le> sint d'" and th: "sint th' \<le> sint th"
  shows "sint (pg_cpu_calc_lat p' d' th' c e l) \<le> sint (pg_cpu_calc_lat p d th c e l)"
proof -
  let ?s = "\<lambda>p. pg_math_sigmoid p (sigmoid_k c) (sig_mid e)"
  have u: "unit_range (?s p)" "unit_range (?s p')" using k m p by (simp_all add: sigmoid_unit)
  have "sint (pg_math_lerp (min_lat l) (max_lat l) (Q16_ONE - ?s p')) \<le>
      sint (pg_math_lerp (min_lat l) (max_lat l) (Q16_ONE - ?s p))"
    using l one_minus_unit [OF u(1)] one_minus_unit [OF u(2)] sigmoid_incr [OF k m p] by (intro lerp_mono) simp_all
  moreover have "sint (max_lat l - q16_mul (ratio d' (INT_TO_Q16 100)) (max_lat l - min_lat l)) \<le>
      sint (max_lat l - q16_mul (ratio d (INT_TO_Q16 100)) (max_lat l - min_lat l))"
  proof -
    have "sint (ratio d (INT_TO_Q16 100)) \<le> sint (ratio d' (INT_TO_Q16 100))"
      using d by (intro ratio_mono) (simp_all add: q16_consts)
    then have "(sint (max_lat l) - sint (min_lat l)) * sint (ratio d (INT_TO_Q16 100)) \<le>
        (sint (max_lat l) - sint (min_lat l)) * sint (ratio d' (INT_TO_Q16 100))"
      using lim_pairD [OF l] by (intro mult_left_mono) simp_all
    from zdiv_mono1 [OF this, of 65536] show ?thesis using max_minus_mul [OF l] by simp
  qed
  ultimately show ?thesis
    unfolding sint_calc_lat [OF lim_pairD(2) [OF l]] using th by (intro max.mono min.mono order_refl)
qed

lemma walt_eq: "pg_cpu_calc_walt p l = pg_math_clamp
    (pg_math_lerp (min_walt l) (max_walt l) (q16_mul (ratio p (INT_TO_Q16 100)) (ratio p (INT_TO_Q16 100))))
    (min_walt l) (max_walt l)"
  by (simp add: pg_cpu_calc_walt_def Let_def ratio_def pg_math_lerp_def)

lemma unit_square:
  assumes "unit_range v"
  shows "unit_range (q16_mul v v)"
  using unit_mul [OF assms, of v] unit_rangeD [OF assms] by (intro unit_rangeI) linarith+

theorem walt_response:
  assumes "lim_pair (min_walt l) (max_walt l)" "sint p \<le> sint p'"
  shows "sint (pg_cpu_calc_walt p l) \<le> sint (pg_cpu_calc_walt p' l)"
proof -
  have r: "sint (ratio p (INT_TO_Q16 100)) \<le> sint (ratio p' (INT_TO_Q16 100))"
    using assms(2) by (intro ratio_mono) (simp_all add: q16_consts)
  have "sint (q16_mul (ratio p (INT_TO_Q16 100)) (ratio p (INT_TO_Q16 100))) \<le>
      sint (q16_mul (ratio p' (INT_TO_Q16 100)) (ratio p' (INT_TO_Q16 100)))"
    using r unit_rangeD [OF ratio_unit] by (intro unit_mul_mono) simp_all
  then show ?thesis
    unfolding walt_eq using assms(1) lim_pairD(2) [OF assms(1)] by (intro clamp_mono lerp_mono unit_square ratio_unit)
qed

theorem uclamp_response:
  assumes l: "lim_pair (min_ucl l) (max_ucl l)" and k: "slope_ok (uclamp_k c)" and m: "0 \<le> sint (ucl_mid e)"
    and p: "0 \<le> sint p" "sint p \<le> sint p'"
    and th: "unit_range th" "unit_range th'" "sint th \<le> sint th'"
  shows "sint (pg_cpu_calc_uclamp p th c e l) \<le> sint (pg_cpu_calc_uclamp p' th' c e l)"
proof -
  let ?u = "\<lambda>p. pg_math_lerp (min_ucl l) (max_ucl l) (pg_math_sigmoid p (uclamp_k c) (ucl_mid e))"
  have s: "unit_range (pg_math_sigmoid p (uclamp_k c) (ucl_mid e))"
    "unit_range (pg_math_sigmoid p' (uclamp_k c) (ucl_mid e))"
    using k m p by (simp_all add: sigmoid_unit)
  have "sint (?u p) \<le> sint (?u p')" using s sigmoid_incr [OF k m p] by (intro lerp_mono l)
  moreover have "0 \<le> sint (?u p)" using lerp_between(1) [OF l s(1)] lim_pairD(1) [OF l] by simp
  ultimately have "sint (q16_mul (?u p) th) \<le> sint (q16_mul (?u p') th')"
    using th by (intro unit_mul_mono)
  then show ?thesis
    unfolding pg_cpu_calc_uclamp_def Let_def lerp_fold using lim_pairD(2) [OF l] by (intro clamp_mono)
qed

lemma migration_eq: "pg_cpu_calc_migration v p l = pg_math_clamp
   (q16_mul (pg_math_lerp (min_mig l) (max_mig l)
      (q16_mul (Q16_ONE - ratio p (INT_TO_Q16 100)) (Q16_ONE - ratio p (INT_TO_Q16 100))))
    (Q16_ONE - q16_mul (ratio (abs_q16 v) (INT_TO_Q16 25)) Q16_HALF)) (min_mig l) (max_mig l)"
  by (simp add: pg_cpu_calc_migration_def Let_def ratio_def pg_math_lerp_def)

text \<open>The busier or the faster changing the load, the cheaper a migration is taken to be.\<close>

theorem migration_response:
  assumes l: "lim_pair (min_mig l) (max_mig l)" and p: "sint p \<le> sint p'"
    and v: "\<bar>sint v\<bar> \<le> \<bar>sint v'\<bar>"
  shows "sint (pg_cpu_calc_migration v' p' l) \<le> sint (pg_cpu_calc_migration v p l)"
proof -
  let ?f = "\<lambda>p. Q16_ONE - ratio p (INT_TO_Q16 100)"
  let ?h = "\<lambda>v. q16_mul (ratio (abs_q16 v) (INT_TO_Q16 25)) Q16_HALF"
  have half: "unit_range Q16_HALF" by (intro unit_rangeI) simp_all
  have f: "unit_range (?f x)" for x by (rule one_minus_unit) simp
  have h: "unit_range (?h x)" for x
    using unit_mul [OF half, of "ratio (abs_q16 x) (INT_TO_Q16 25)"] unit_rangeD [OF ratio_unit, of "abs_q16 x" "INT_TO_Q16 25"]
    by (intro unit_rangeI) linarith+
  have "sint (ratio p (INT_TO_Q16 100)) \<le> sint (ratio p' (INT_TO_Q16 100))"
    using p by (intro ratio_mono) (simp_all add: q16_consts)
  then have "sint (?f p') \<le> sint (?f p)" by (simp add: one_minus_unit)
  then have "sint (q16_mul (?f p') (?f p')) \<le> sint (q16_mul (?f p) (?f p))"
    using f unit_rangeD [OF f] by (intro unit_mul_mono) simp_all
  then have "sint (pg_math_lerp (min_mig l) (max_mig l) (q16_mul (?f p') (?f p'))) \<le>
      sint (pg_math_lerp (min_mig l) (max_mig l) (q16_mul (?f p) (?f p)))"
    by (intro lerp_mono l unit_square f)
  moreover have "sint (ratio (abs_q16 v) (INT_TO_Q16 25)) \<le> sint (ratio (abs_q16 v') (INT_TO_Q16 25))"
    using v by (intro ratio_mono) (auto simp: q16_consts sint_abs_q16)
  then have "sint (?h v) \<le> sint (?h v')"
    using half unit_rangeD [OF ratio_unit] by (intro unit_mul_mono) simp_all
  then have "sint (Q16_ONE - ?h v') \<le> sint (Q16_ONE - ?h v)" using h by (simp add: one_minus_unit)
  moreover have "0 \<le> sint (pg_math_lerp (min_mig l) (max_mig l) (q16_mul (?f p') (?f p')))"
    using lerp_between(1) [OF l unit_square [OF f]] lim_pairD(1) [OF l] by (rule order_trans [rotated])
  ultimately show ?thesis
    unfolding migration_eq using lim_pairD(2) [OF l] one_minus_unit(2) [OF h] by (intro clamp_mono unit_mul_mono)
qed

lemma decay_antitone:
  assumes "0 \<le> sint c" "sint c \<le> 65536" "0 \<le> sint p" "sint p \<le> sint p'"
  shows "sint (pg_math_decay p' c) \<le> sint (pg_math_decay p c)"
proof -
  have c: "unit_range c" using assms by auto
  define x y where "x = q16_mul c p" and "y = q16_mul c p'"
  have x: "0 \<le> sint x" "sint x \<le> sint y"
    unfolding x_def y_def q16_mul_comm [of c] using unit_mul(2) [OF c] unit_mul_mono [OF c c] assms by simp_all
  show ?thesis
  proof (cases "sint y < 11796480")
    case False
    then have "pg_math_decay p' c = 0" using x by (simp add: pg_math_decay_def Let_def y_def [symmetric] sint_cmp q16_consts)
    then show ?thesis using decay_range [of p c] by simp
  next
    case True
    have val: "sint (pg_math_decay q c) = 4294967296 div (65536 + sint z + (sint z * sint z div 65536) div 2)"
      if "z = q16_mul c q" "0 \<le> sint z" "sint z < 11796480" for q z
    proof -
      have z2: "sint (q16_mul z z) = sint z * sint z div 65536" "0 \<le> sint z * sint z div 65536"
        "sint z * sint z div 65536 \<le> 2123366400"
        using that q16_square [of z] by simp_all
      have h: "sint (signed_drop_bit 1 (q16_mul z z)) = sint z * sint z div 65536 div 2"
        by (simp only: sint_shr z2) simp
      have hb: "0 \<le> sint z * sint z div 65536 div 2" "sint z * sint z div 65536 div 2 \<le> 1061683200"
        using z2 by linarith+
      let ?d = "Q16_ONE + z + signed_drop_bit 1 (q16_mul z z)"
      have d: "sint ?d = 65536 + sint z + sint z * sint z div 65536 div 2"
      proof -
        have "sint (Q16_ONE + z) = 65536 + sint z" using that by (simp add: sint_add no_wrap)
        then show ?thesis using that(2,3) hb by (simp only: sint_add h) (simp add: no_wrap)
      qed
      then have "65536 \<le> sint ?d" using that hb by linarith
      then have "sint (q16_div Q16_ONE ?d) = 4294967296 div sint ?d"
        by (simp add: sint_div_pos sdiv_nonneg)
      then show ?thesis
        using that unfolding d by (simp add: pg_math_decay_def Let_def sint_cmp q16_consts)
    qed
    have "sint x * sint x \<le> sint y * sint y" using x by (intro mult_mono) simp_all
    then have "sint x * sint x div 65536 div 2 \<le> sint y * sint y div 65536 div 2"
      by (intro zdiv_mono1) simp_all
    moreover have "0 \<le> sint x * sint x div 65536 div 2" by (simp add: pos_imp_zdiv_nonneg_iff)
    ultimately have "4294967296 div (65536 + sint y + sint y * sint y div 65536 div 2) \<le>
        4294967296 div (65536 + sint x + sint x * sint x div 65536 div 2)"
      using x by (intro zdiv_mono2) simp_all
    then show ?thesis using val [OF y_def] val [OF x_def] x True by simp
  qed
qed

theorem wakeup_response:
  assumes l: "lim_pair (min_wake l) (max_wake l)" and c: "0 \<le> sint (eff_decay e)" "sint (eff_decay e) \<le> 65536"
    and p: "0 \<le> sint p" "sint p \<le> sint p'"
  shows "sint (pg_cpu_calc_wakeup p' e l) \<le> sint (pg_cpu_calc_wakeup p e l)"
proof -
  have u: "unit_range (pg_math_decay q (eff_decay e))" for q
    using decay_range [of q "eff_decay e"] by auto
  show ?thesis
    unfolding pg_cpu_calc_wakeup_def Let_def lerp_fold using lim_pairD(2) [OF l]
    by (intro clamp_mono lerp_mono l u decay_antitone c p)
qed

section \<open>The load model\<close>

text \<open>The demand and the stored pressure stay in \<open>[0, 500]\<close> whatever the inputs and the stored rate are.\<close>

theorem load_demand_range:
  "0 \<le> sint (fst (pg_cpu_calc_load_demand s i c)) \<and> sint (fst (pg_cpu_calc_load_demand s i c)) \<le> 32768000 \<and>
   psi_val (snd (pg_cpu_calc_load_demand s i c)) = fst (pg_cpu_calc_load_demand s i c)"
proof -
  have b: "0 \<le> sint (psi_val (demand_bound s)) \<and> sint (psi_val (demand_bound s)) \<le> 32768000" for s
    by (simp add: demand_bound_def sint_cmp INT_TO_Q16_numeral)
  show ?thesis
    using b by (simp add: pg_cpu_calc_load_demand_def Let_def split: prod.split)
qed

lemma load_demand_frame:
  "eff (snd (pg_cpu_calc_load_demand s i c)) = eff s"
  "psi_ref (snd (pg_cpu_calc_load_demand s i c)) = psi_ref s"
  "prev_integ (snd (pg_cpu_calc_load_demand s i c)) = prev_integ s"
  "load_first_run (snd (pg_cpu_calc_load_demand s i c)) = load_first_run s"
  by (simp_all add: pg_cpu_calc_load_demand_def demand_enter_def demand_bound_def Let_def split: prod.split)

text \<open>At rest the model is switched off rather than left to ring.\<close>

lemma load_demand_idle:
  assumes "sint (tgt_psi i) < 65536" "\<bar>sint (vel i)\<bar> < 655" "sint (psi_val s) < 65536" "\<bar>sint (rate s)\<bar> < 655"
  shows "pg_cpu_calc_load_demand s i c = (0, s\<lparr>psi_val := 0, rate := 0\<rparr>)"
  using assms by (simp add: pg_cpu_calc_load_demand_def Let_def sint_cmp q16_consts sint_abs_q16)

section \<open>The damping divides safely\<close>

text \<open>
  The divisor \<open>r_sq >> 16\<close> of \<open>calc_c_final\<close> is at least 65, for every velocity: neither the guard
  \<open>r_sq > 0\<close> nor the division can fail.
\<close>

lemma damping_divisor:
  "4259840 \<le> sint (q32_mul (Q16_TO_Q32 v) (Q16_TO_Q32 v) + Q16_TO_Q32 (FLOAT_TO_Q16 1 1000))"
  "65 \<le> sint (signed_drop_bit 16 (q32_mul (Q16_TO_Q32 v) (Q16_TO_Q32 v) + Q16_TO_Q32 (FLOAT_TO_Q16 1 1000)))"
proof -
  have "\<bar>sint v * sint v\<bar> \<le> 2147483648 * 2147483648"
    using sint32_range [of v] by (intro mult_abs_le) linarith+
  then have b: "sint v * sint v \<le> 4611686018427387904" by simp
  have nn: "0 \<le> sint v * sint v" by simp
  have "sint (Q16_TO_Q32 v) * sint (Q16_TO_Q32 v) div 4294967296 = sint v * sint v"
    by (simp add: sint_Q16_TO_Q32)
  then have m: "sint (q32_mul (Q16_TO_Q32 v) (Q16_TO_Q32 v)) = sint v * sint v"
    unfolding sint_q32_mul using b nn by (simp only:) (intro no_wrap; linarith)
  have s: "sint (q32_mul (Q16_TO_Q32 v) (Q16_TO_Q32 v) + Q16_TO_Q32 (FLOAT_TO_Q16 1 1000)) = sint v * sint v + 4259840"
  proof -
    have "sint (Q16_TO_Q32 (FLOAT_TO_Q16 1 1000)) = 4259840" by (simp add: sint_Q16_TO_Q32 q16_consts)
    moreover have "signed_take_bit 63 (sint v * sint v + 4259840) = sint v * sint v + 4259840"
      using b nn by (intro no_wrap; linarith)
    ultimately show ?thesis by (simp only: sint_add m) simp
  qed
  show "4259840 \<le> sint (q32_mul (Q16_TO_Q32 v) (Q16_TO_Q32 v) + Q16_TO_Q32 (FLOAT_TO_Q16 1 1000))"
    unfolding s using nn by linarith
  have "4259840 div 65536 \<le> (sint v * sint v + 4259840) div 65536"
    using nn by (intro zdiv_mono1) simp_all
  then show "65 \<le> sint (signed_drop_bit 16 (q32_mul (Q16_TO_Q32 v) (Q16_TO_Q32 v) + Q16_TO_Q32 (FLOAT_TO_Q16 1 1000)))"
    unfolding sint_shr s by simp
qed

section \<open>Gains\<close>

lemma trend_gain_unit: "unit_range (pg_cpu_calc_trend_gain v)"
  using alg_sig_range [of v] alg_sig_nonneg [of v] by (auto simp: pg_cpu_calc_trend_gain_def sint_cmp)

text \<open>
  With a scale in the unit range and a long-term pressure that is not negative and below 200 percent
  the effective gains are in their design ranges.
\<close>

definition eff_ok :: "pg_cpu_eff \<Rightarrow> bool" where
  "eff_ok e \<longleftrightarrow>
     0 \<le> sint (resp_gain e) \<and> sint (resp_gain e) \<le> 2031616 \<and>
     0 \<le> sint (surge_gain e) \<and> sint (surge_gain e) \<le> 6225 \<and>
     0 \<le> sint (trend_amp e) \<and> sint (trend_amp e) \<le> 7536 \<and>
     0 \<le> sint (lookahead e) \<and> sint (lookahead e) \<le> 11141 \<and>
     0 \<le> sint (eff_decay e) \<and> sint (eff_decay e) \<le> 1245 \<and>
     445644 \<le> sint (sig_mid e) \<and> sint (sig_mid e) \<le> 16384000 \<and>
     sint (ucl_mid e) = sint (sig_mid e) + 176947 \<and>
     98304 \<le> sint (stab_rat e) \<and> sint (stab_rat e) \<le> 229376 \<and>
     55705 \<le> sint (gain_alpha e) \<and> sint (gain_alpha e) \<le> 64880 \<and>
     196608 \<le> sint (nis_thresh e) \<and> sint (nis_thresh e) \<le> 786432"


lemma const_mul:
  assumes "unit_range v" "0 \<le> sint k"
  shows "0 \<le> sint (q16_mul k v) \<and> sint (q16_mul k v) \<le> sint k"
  using unit_mul(2,3) [OF assms] by simp

lemma upd_eff_ok:
  assumes th: "unit_range th" and a: "0 \<le> sint avg300" "sint avg300 \<le> 13107200"
  shows "eff_ok (pg_cpu_upd_eff e bat th avg300)"
proof -
  let ?b = "pg_math_clamp bat 0 (INT_TO_Q16 100)"
  let ?f = "q16_div ?b (INT_TO_Q16 100)"
  let ?h = "q16_mul ?f th"
  let ?n = "pg_math_clamp (q16_mul avg300 (FLOAT_TO_Q16 1 10)) 0 Q16_ONE"
  have b: "0 \<le> sint ?b" "sint ?b \<le> 6553600"
    using clamp_range [of 0 "INT_TO_Q16 100" bat] by (simp_all add: q16_consts)
  then have f: "sint ?f = sint ?b * 65536 div 6553600"
    by (simp add: sint_div_pos q16_consts sdiv_nonneg)
  have "sint ?b * 65536 div 6553600 \<le> 6553600 * 65536 div 6553600"
    using b by (intro zdiv_mono1 mult_right_mono) simp_all
  then have fu: "0 \<le> sint ?f" "sint ?f \<le> 65536" using b f by (simp_all add: pos_imp_zdiv_nonneg_iff)
  then have h: "unit_range ?h"
    using unit_mul(2,3) [OF th, of ?f] by (intro unit_rangeI) linarith+
  have n: "unit_range ?n" using clamp_range [of 0 Q16_ONE] by (intro unit_rangeI) simp_all
  have half: "unit_range (FLOAT_TO_Q16 5 10)" by (intro unit_rangeI) (simp_all add: q16_consts)
  have m: "0 \<le> sint (q16_mul (FLOAT_TO_Q16 5 10) avg300)" "sint (q16_mul (FLOAT_TO_Q16 5 10) avg300) \<le> sint avg300"
    unfolding q16_mul_comm [of "FLOAT_TO_Q16 5 10"] using unit_mul(2,3) [OF half a(1)] .
  have sm: "sint (FLOAT_TO_Q16 68 10 + q16_mul (FLOAT_TO_Q16 5 10) avg300) = 445644 + sint (q16_mul (FLOAT_TO_Q16 5 10) avg300)"
    using m a by (simp add: sint_add no_wrap q16_consts)
  have um: "sint (FLOAT_TO_Q16 68 10 + q16_mul (FLOAT_TO_Q16 5 10) avg300 + FLOAT_TO_Q16 27 10)
      = 445644 + sint (q16_mul (FLOAT_TO_Q16 5 10) avg300) + 176947"
    unfolding sint_add [of "FLOAT_TO_Q16 68 10 + q16_mul (FLOAT_TO_Q16 5 10) avg300"] sm
    using m a by (simp add: no_wrap q16_consts)
  have l: "196608 \<le> sint (pg_math_lerp (FLOAT_TO_Q16 3 1) (FLOAT_TO_Q16 12 1) ?n)"
    "sint (pg_math_lerp (FLOAT_TO_Q16 3 1) (FLOAT_TO_Q16 12 1) ?n) \<le> 786432"
    "98304 \<le> sint (pg_math_lerp (FLOAT_TO_Q16 15 10) (FLOAT_TO_Q16 35 10) ?n)"
    "sint (pg_math_lerp (FLOAT_TO_Q16 15 10) (FLOAT_TO_Q16 35 10) ?n) \<le> 229376"
    "55705 \<le> sint (pg_math_lerp (FLOAT_TO_Q16 99 100) (FLOAT_TO_Q16 85 100) ?n)"
    "sint (pg_math_lerp (FLOAT_TO_Q16 99 100) (FLOAT_TO_Q16 85 100) ?n) \<le> 64880"
    using sint_lerp(2,3) [of "FLOAT_TO_Q16 12 1" "FLOAT_TO_Q16 3 1" ?n]
      sint_lerp(2,3) [of "FLOAT_TO_Q16 35 10" "FLOAT_TO_Q16 15 10" ?n]
      sint_lerp(2,3) [of "FLOAT_TO_Q16 85 100" "FLOAT_TO_Q16 99 100" ?n] unit_rangeD [OF n]
    by (simp_all add: float_literals_simps)
  have c: "sint (FLOAT_TO_Q16 31 1) = 2031616" "sint (FLOAT_TO_Q16 95 1000) = 6225"
    "sint (FLOAT_TO_Q16 115 1000) = 7536" "sint (FLOAT_TO_Q16 17 100) = 11141" "sint (FLOAT_TO_Q16 19 1000) = 1245"
    by (simp_all add: q16_consts)
  show ?thesis
    using const_mul [OF h, of "FLOAT_TO_Q16 31 1"] const_mul [OF h, of "FLOAT_TO_Q16 95 1000"]
      const_mul [OF h, of "FLOAT_TO_Q16 115 1000"] const_mul [OF th, of "FLOAT_TO_Q16 17 100"]
      const_mul [OF th, of "FLOAT_TO_Q16 19 1000"] l sm um m a
    unfolding eff_ok_def pg_cpu_upd_eff_def Let_def c
    by simp
qed

text \<open>The amplified pressure is at least the demand, and at most 11.5 percent more.\<close>

lemma eff_press_range:
  assumes d: "0 \<le> sint d" "sint d \<le> 32768000" and t: "unit_range t"
    and a: "0 \<le> sint (trend_amp e)" "sint (trend_amp e) \<le> 7536"
  shows "sint d \<le> sint (pg_cpu_calc_eff_press d t e)"
    "sint (pg_cpu_calc_eff_press d t e) \<le> sint d + sint d * 7536 div 65536"
proof -
  let ?m = "q16_mul t (trend_amp e)"
  have m: "0 \<le> sint ?m" "sint ?m \<le> 7536"
    unfolding q16_mul_comm [of t] using unit_mul(2,3) [OF t a(1)] a(2) by linarith+
  then have o: "sint (Q16_ONE + ?m) = 65536 + sint ?m" by (simp add: sint_add no_wrap)
  have le: "sint d * (65536 + sint ?m) \<le> sint d * (65536 + 7536)"
    using d m by (intro mult_left_mono) simp_all
  have ge: "sint d * 65536 \<le> sint d * (65536 + sint ?m)"
    using d m by (intro mult_left_mono) simp_all
  have e: "sint (pg_cpu_calc_eff_press d t e) = sint d * (65536 + sint ?m) div 65536"
  proof -
    have "0 \<le> sint d * 65536" "sint d * (65536 + 7536) < 140737488355328" using d by simp_all
    then have "- 140737488355328 \<le> sint d * (65536 + sint ?m)" "sint d * (65536 + sint ?m) < 140737488355328"
      using le ge by linarith+
    then show ?thesis unfolding pg_cpu_calc_eff_press_def Let_def by (subst sint_q16_mul_exact; simp only: o)
  qed
  show "sint d \<le> sint (pg_cpu_calc_eff_press d t e)"
    using zdiv_mono1 [OF ge, of 65536] by (simp add: e)
  have "sint d * (65536 + 7536) div 65536 = sint d + sint d * 7536 div 65536"
    by (simp add: distrib_left)
  then show "sint (pg_cpu_calc_eff_press d t e) \<le> sint d + sint d * 7536 div 65536"
    using zdiv_mono1 [OF le, of 65536] by (simp add: e)
qed

text \<open>The battery integral is \<open>97 d ^ 3\<close> for a depletion \<open>d\<close> in the unit range.\<close>

lemma upd_intg_range:
  assumes "pg_cpu_upd_intg s bat dt = (i, i_dt, s')"
  shows "0 \<le> sint i" "sint i \<le> 6356992" "prev_integ s' = i" "\<not> load_first_run s'"
    "load_first_run s \<or> sint dt \<le> 0 \<Longrightarrow> i_dt = 0"
    "psi_val s' = psi_val s" "rate s' = rate s" "eff s' = eff s" "psi_ref s' = psi_ref s"
proof -
  let ?b = "pg_math_clamp bat 0 (INT_TO_Q16 100)"
  let ?d = "q16_div (INT_TO_Q16 100 - ?b) (INT_TO_Q16 100)"
  have b: "0 \<le> sint ?b" "sint ?b \<le> 6553600"
    using clamp_range [of 0 "INT_TO_Q16 100" bat] by (simp_all add: q16_consts)
  then have s: "sint (INT_TO_Q16 100 - ?b) = 6553600 - sint ?b"
    by (simp add: sint_diff no_wrap q16_consts)
  have f: "sint ?d = (6553600 - sint ?b) * 65536 div 6553600"
  proof -
    have "65536 \<le> sint (INT_TO_Q16 100)" "sint (INT_TO_Q16 100) = 6553600" by (simp_all add: q16_consts)
    then have "sint ?d = ((6553600 - sint ?b) * 65536) sdiv 6553600" by (simp only: sint_div_pos s)
    then show ?thesis using b by (simp add: sdiv_nonneg)
  qed
  have "(6553600 - sint ?b) * 65536 div 6553600 \<le> 6553600 * 65536 div 6553600"
    using b by (intro zdiv_mono1 mult_right_mono) simp_all
  then have d: "unit_range ?d" using b f by (intro unit_rangeI) (simp_all add: pos_imp_zdiv_nonneg_iff)
  have d3: "unit_range (q16_mul (q16_mul ?d ?d) ?d)"
    using unit_mul [OF d, of "q16_mul ?d ?d"] unit_rangeD [OF unit_square [OF d]]
    by (intro unit_rangeI) linarith+
  have c: "sint (FLOAT_TO_Q16 97 1) = 6356992" by (simp add: q16_consts)
  have "i = q16_mul (FLOAT_TO_Q16 97 1) (q16_mul (q16_mul ?d ?d) ?d)"
    using assms by (auto simp: pg_cpu_upd_intg_def Let_def split: if_splits)
  then show "0 \<le> sint i" "sint i \<le> 6356992"
    using const_mul [OF d3, of "FLOAT_TO_Q16 97 1"] unfolding c by simp_all
  show "prev_integ s' = i" "\<not> load_first_run s'"
    "load_first_run s \<or> sint dt \<le> 0 \<Longrightarrow> i_dt = 0"
    "psi_val s' = psi_val s" "rate s' = rate s" "eff s' = eff s" "psi_ref s' = psi_ref s"
    using assms by (auto simp: pg_cpu_upd_intg_def Let_def sint_cmp split: if_splits)
qed

section \<open>Properties\<close>

text \<open>
  C17: The demand that \<open>pg_cpu_calc_load_demand\<close> returns and keeps is in \<open>[0, 500]\<close> percent, for
  every state, input and configuration, a structural break included.
\<close>

theorem load_demand_bounded:
  "0 \<le> sint (fst (pg_cpu_calc_load_demand s i c)) \<and> sint (fst (pg_cpu_calc_load_demand s i c)) \<le> 32768000 \<and>
   psi_val (snd (pg_cpu_calc_load_demand s i c)) = fst (pg_cpu_calc_load_demand s i c)"
  by (rule load_demand_range)

text \<open>
  At rest (target, velocity, stored pressure and stored rate near zero) the load model switches
  off instead of ringing.
\<close>

theorem load_demand_rest:
  assumes "sint (tgt_psi i) < 65536" "\<bar>sint (vel i)\<bar> < 655" "sint (psi_val s) < 65536" "\<bar>sint (rate s)\<bar> < 655"
  shows "pg_cpu_calc_load_demand s i c = (0, s\<lparr>psi_val := 0, rate := 0\<rparr>)"
  using assms by (rule load_demand_idle)

definition sample_eff :: pg_cpu_eff where
  "sample_eff = \<lparr>resp_gain = 2031616, surge_gain = 6225, trend_amp = 7536, lookahead = 11141, eff_decay = 1245,
     sig_mid = 445644, ucl_mid = 622591, stab_rat = 98304, gain_alpha = 64880, nis_thresh = 196608\<rparr>"

definition sample_load :: pg_load_state where
  "sample_load = \<lparr>psi_val = 60000, rate = 600, psi_ref = 0, prev_integ = 0, load_first_run = False, eff = sample_eff\<rparr>"

definition sample_input :: pg_demand_input where
  "sample_input = \<lparr>tgt_psi = 6553, vel = 65, dt_safe = 6553, therm_scale = 65536, trend_fact = 0, di_integ = 0,
     integ_dt = 0, struct_break = False\<rparr>"

definition sample_cfg :: pg_cpu_cfg where
  "sample_cfg = \<lparr>lat_gran_rat = 22282, uclamp_k = 12124, sigmoid_k = 4718, surge_thresh = 1146880, trans_rate = 7536,
     trans_diff = 38010, trans_poll = 3276800\<rparr>"

definition sample_lim :: pg_cpu_lim where
  "sample_lim = \<lparr>min_lat = 524288, max_lat = 1310720, min_gran = 163840, max_gran = 425984, min_wake = 98304,
     max_wake = 425984, min_mig = 13107, max_mig = 39321, min_walt = 655360, max_walt = 2621440, min_ucl = 0,
     max_ucl = 25165824\<rparr>"

lemmas sample_defs = sample_eff_def sample_load_def sample_input_def sample_cfg_def sample_lim_def

lemma load_demand_rest_witness:
  "pg_cpu_calc_load_demand sample_load sample_input sample_cfg = (0, sample_load\<lparr>psi_val := 0, rate := 0\<rparr>)"
  by (rule load_demand_rest) (simp_all add: sample_defs)

text \<open>
  The damping term divides by at least 65 whatever the velocity is: the guard of
  \<open>calc_c_final\<close> never fails and its division never traps.
\<close>

theorem damping_divides_safely:
  "0 < sint (q32_mul (Q16_TO_Q32 v) (Q16_TO_Q32 v) + Q16_TO_Q32 (FLOAT_TO_Q16 1 1000)) \<and>
   65 \<le> sint (signed_drop_bit 16 (q32_mul (Q16_TO_Q32 v) (Q16_TO_Q32 v) + Q16_TO_Q32 (FLOAT_TO_Q16 1 1000)))"
  using damping_divisor [of v] by linarith

text \<open>
  C35: More pressure or more demand never lengthens the scheduler latency, and a higher thermal floor
  never shortens it; the latency respects the floor and its limits.
\<close>

theorem latency_monotone:
  assumes "lim_pair (min_lat l) (max_lat l)" "slope_ok (sigmoid_k c)" "0 \<le> sint (sig_mid e)"
    and "0 \<le> sint p" "sint p \<le> sint p'" "sint d \<le> sint d'" "sint th' \<le> sint th" "sint th \<le> sint (max_lat l)"
  shows "sint (pg_cpu_calc_lat p' d' th' c e l) \<le> sint (pg_cpu_calc_lat p d th c e l) \<and>
    sint th \<le> sint (pg_cpu_calc_lat p d th c e l) \<and>
    sint (min_lat l) \<le> sint (pg_cpu_calc_lat p' d' th' c e l) \<and>
    sint (pg_cpu_calc_lat p d th c e l) \<le> sint (max_lat l)"
  using lat_response [of l c e p p' d d' th' th] lat_thermal_floor [of l th p d c e] lim_pairD(2) [of "min_lat l" "max_lat l"]
    lat_within(1) [of l p' d' th' c e] lat_within(2) [of l p d th c e] assms by simp

lemma latency_monotone_witness:
  "sint (pg_cpu_calc_lat 1310720 1310720 524288 sample_cfg sample_eff sample_lim) \<le>
   sint (pg_cpu_calc_lat 655360 655360 600000 sample_cfg sample_eff sample_lim)"
  by (rule latency_monotone [THEN conjunct1]) (simp_all add: sample_defs lim_pair_def slope_ok_def)

text \<open>
  More pressure or a cooler device never lowers the utilisation clamp, and the clamp stays
  inside its limits.
\<close>

theorem uclamp_monotone:
  assumes "lim_pair (min_ucl l) (max_ucl l)" "slope_ok (uclamp_k c)" "0 \<le> sint (ucl_mid e)"
    and "0 \<le> sint p" "sint p \<le> sint p'" "unit_range th" "unit_range th'" "sint th \<le> sint th'"
  shows "sint (pg_cpu_calc_uclamp p th c e l) \<le> sint (pg_cpu_calc_uclamp p' th' c e l) \<and>
    sint (min_ucl l) \<le> sint (pg_cpu_calc_uclamp p th c e l) \<and>
    sint (pg_cpu_calc_uclamp p' th' c e l) \<le> sint (max_ucl l)"
  using uclamp_response [OF assms] uclamp_within(1) [of l p th c e] uclamp_within(2) [of l p' th' c e]
    lim_pairD(2) [OF assms(1)] by simp

lemma uclamp_monotone_witness:
  "sint (pg_cpu_calc_uclamp 655360 6553 sample_cfg sample_eff sample_lim) \<le>
   sint (pg_cpu_calc_uclamp 1310720 65536 sample_cfg sample_eff sample_lim)"
  by (rule uclamp_monotone [THEN conjunct1]) (simp_all add: sample_defs lim_pair_def slope_ok_def unit_range_def)

text \<open>
  Under more pressure the wake-up granularity and the migration cost do not grow, the task load
  percentage does not shrink, and a load that changes faster does not raise the migration cost.
\<close>

theorem pressure_responses:
  assumes "lim_ok l" "0 \<le> sint (eff_decay e)" "sint (eff_decay e) \<le> 65536"
    and "0 \<le> sint p" "sint p \<le> sint p'" "\<bar>sint v\<bar> \<le> \<bar>sint v'\<bar>"
  shows "sint (pg_cpu_calc_wakeup p' e l) \<le> sint (pg_cpu_calc_wakeup p e l) \<and>
    sint (pg_cpu_calc_migration v' p' l) \<le> sint (pg_cpu_calc_migration v p l) \<and>
    sint (pg_cpu_calc_walt p l) \<le> sint (pg_cpu_calc_walt p' l)"
  using assms wakeup_response [of l e p p'] migration_response [of l p p' v v'] walt_response [of l p p']
  by (simp add: lim_ok_def)

lemma pressure_responses_witness:
  "sint (pg_cpu_calc_wakeup 1310720 sample_eff sample_lim) \<le> sint (pg_cpu_calc_wakeup 655360 sample_eff sample_lim) \<and>
   sint (pg_cpu_calc_migration 131072 1310720 sample_lim) \<le> sint (pg_cpu_calc_migration 65536 655360 sample_lim) \<and>
   sint (pg_cpu_calc_walt 655360 sample_lim) \<le> sint (pg_cpu_calc_walt 1310720 sample_lim)"
  by (rule pressure_responses) (simp_all add: sample_defs lim_ok_def lim_pair_def)

end
