(* ===== verification/Pg_Thermal.thy ===== *)
theory Pg_Thermal
  imports Pg_Os Pg_Kalman Pg_Cpu
begin

text \<open>
  The thermal governor, \<^verbatim>\<open>core/thermal.c\<close>: a PID controller with conditional anti-windup on a
  Kalman-filtered temperature, whose output is the scale in \<open>[0.1, 1]\<close> that throttles the other
  components.  \<open>pg_thermal_update\<close> is split into the set point (lines 32 to 37), the reset of a
  stale controller (lines 39 to 47), the PID terms (lines 49 to 67), the saturation counter and the
  anti-windup (lines 69 to 92) and the scale (lines 94 to 101); the update calls them in this order.
  The lemmas give the range of the scale, the lower ceiling on a hot battery, the invariant of the
  controller, and that a stale controller restarts.
\<close>

section \<open>Configuration and state\<close>

record pg_thermal_cfg =
  limit_cpu :: q16
  limit_bat :: q16
  kp_base :: q16
  ki_base :: q16
  kd_base :: q16

record pg_thermal_state =
  th_last_tick :: timespec
  integ :: q16
  prev_sat :: q16
  sat_count :: i32
  th_filter :: pg_kalman_state

abbreviation (input) PG_THERM_STALE_SEC :: i32 where
  "PG_THERM_STALE_SEC \<equiv> 30"

definition thermal_filter_reset :: "pg_thermal_state \<Rightarrow> pg_thermal_state" where
  "thermal_filter_reset state =
     state\<lparr>th_filter := (pg_kalman_init (th_filter state))\<lparr>q_vel := FLOAT_TO_Q16 1 100\<rparr>\<rparr>"

definition pg_thermal_init :: "os \<Rightarrow> pg_thermal_state \<Rightarrow> hist \<Rightarrow> pg_thermal_state \<times> hist" where
  "pg_thermal_init os state h =
     (let (t, h) = sys_clock os CLOCK_MONOTONIC h;
          state = state\<lparr>th_last_tick := t, integ := 0, prev_sat := 0, sat_count := 0\<rparr>
      in (thermal_filter_reset state, h))"

section \<open>The update\<close>

definition thermal_setpoint :: "pg_thermal_cfg \<Rightarrow> q16 \<Rightarrow> q16" where
  "thermal_setpoint cfg bat_temp =
     (let b_marg = limit_bat cfg - bat_temp;
          b_marg = (if b_marg <s 0 then 0 else b_marg);
          c_marg = (if b_marg <s INT_TO_Q16 5 then INT_TO_Q16 5 - b_marg else 0)
      in limit_cpu cfg - c_marg)"

definition thermal_stale :: "pg_thermal_state \<Rightarrow> q16 \<Rightarrow> q16 \<Rightarrow> q16 \<Rightarrow> pg_thermal_state" where
  "thermal_stale state dt cpu_temp sp =
     (if INT_TO_Q16 PG_THERM_STALE_SEC <s dt
      then let state = (thermal_filter_reset state)\<lparr>prev_sat := 0, sat_count := 0\<rparr>
           in if cpu_temp <s sp then state\<lparr>integ := 0\<rparr> else state
      else state)"

text \<open>The results are \<open>u_raw\<close> and the state with the new integral.\<close>

definition thermal_pid ::
    "pg_thermal_state \<Rightarrow> pg_thermal_cfg \<Rightarrow> q16 \<Rightarrow> q16 \<Rightarrow> q16 \<Rightarrow> q16 \<Rightarrow> q16 \<times> pg_thermal_state" where
  "thermal_pid state cfg tmp v sp dt_s =
     (let err = tmp - sp;
          t_dist = sp - tmp;
          t_dist = (if t_dist <s FLOAT_TO_Q16 1 10 then FLOAT_TO_Q16 1 10 else t_dist);
          k_p = kp_base cfg + q16_div (kp_base cfg) t_dist;
          k_i = ki_base cfg + q16_div (ki_base cfg) t_dist;
          v_bst = (if 0 <s v then q16_mul (FLOAT_TO_Q16 2 1) v else 0);
          k_d = kd_base cfg + v_bst;
          i = integ state + q16_mul (q16_mul k_i err) dt_s;
          i = pg_math_clamp i (INT_TO_Q16 (- 50)) (INT_TO_Q16 50);
          u_raw = q16_mul k_p err + i + q16_mul k_d v
      in (u_raw, state\<lparr>integ := i\<rparr>))"

definition thermal_antiwindup :: "pg_thermal_state \<Rightarrow> q16 \<Rightarrow> q16 \<Rightarrow> q16 \<Rightarrow> pg_thermal_state" where
  "thermal_antiwindup state u_raw u_sat dt_s =
     (let cnt = (if INT_TO_Q16 100 \<le>s prev_sat state
                 then (if sat_count state <s 50 then sat_count state + 1 else sat_count state)
                 else 0);
          aw_k = FLOAT_TO_Q16 195 100;
          aw_k = (if 0 <s cnt then aw_k + q16_mul (FLOAT_TO_Q16 1 10) (INT_TO_Q16 cnt) else aw_k);
          i = (if 65 <s abs_q16 (u_raw - u_sat)
               then let exc = u_raw - u_sat;
                        drain = q16_mul (q16_mul exc aw_k) dt_s
                    in if (0 <s integ state \<and> integ state <s drain) \<or> (integ state <s 0 \<and> drain <s integ state)
                       then 0 else integ state - drain
               else integ state)
      in state\<lparr>integ := i, sat_count := cnt, prev_sat := u_sat\<rparr>)"

definition thermal_scale :: "pg_thermal_cfg \<Rightarrow> q16 \<Rightarrow> q16 \<Rightarrow> q16" where
  "thermal_scale cfg bat_temp u_sat =
     (let fscale = Q16_ONE - q16_div u_sat (INT_TO_Q16 100)
      in if limit_bat cfg \<le>s bat_temp then pg_math_clamp fscale (FLOAT_TO_Q16 1 10) (FLOAT_TO_Q16 2 10)
         else pg_math_clamp fscale (FLOAT_TO_Q16 1 10) Q16_ONE)"

definition pg_thermal_update ::
    "pg_thermal_state \<Rightarrow> q16 \<Rightarrow> q16 \<Rightarrow> pg_thermal_cfg \<Rightarrow> timespec \<Rightarrow> q16 \<times> pg_thermal_state" where
  "pg_thermal_update state cpu_temp bat_temp cfg now =
     (let dt = pg_dt_sec (th_last_tick state) now;
          dt_s = pg_math_clamp dt (FLOAT_TO_Q16 1 100) Q16_ONE;
          state = state\<lparr>th_last_tick := now\<rparr>;
          sp = thermal_setpoint cfg bat_temp;
          state = thermal_stale state dt cpu_temp sp;
          (tmp, filt) = pg_kalman_update (th_filter state) cpu_temp dt_s;
          state = state\<lparr>th_filter := filt\<rparr>;
          (u_raw, state) = thermal_pid state cfg tmp (x_vel filt) sp dt_s;
          u_sat = pg_math_clamp u_raw 0 (INT_TO_Q16 100);
          state = thermal_antiwindup state u_raw u_sat dt_s
      in (thermal_scale cfg bat_temp u_sat, state))"

section \<open>The scale\<close>

lemma scale_range:
  "6553 \<le> sint (thermal_scale cfg b u)" "sint (thermal_scale cfg b u) \<le> 65536"
  "sint (limit_bat cfg) \<le> sint b \<Longrightarrow> sint (thermal_scale cfg b u) \<le> 13107"
  using clamp_range [of "FLOAT_TO_Q16 1 10" "FLOAT_TO_Q16 2 10"] clamp_range [of "FLOAT_TO_Q16 1 10" Q16_ONE]
  by (auto simp: thermal_scale_def Let_def sint_cmp float_literals_simps intro: order_trans [where y = 13107])

lemma update_scale:
  "\<exists>u. fst (pg_thermal_update s c b cfg now) = thermal_scale cfg b u \<and> 0 \<le> sint u \<and> sint u \<le> 6553600 \<and>
     prev_sat (snd (pg_thermal_update s c b cfg now)) = u"
  using clamp_range [of 0 "INT_TO_Q16 100"]
  by (auto simp: pg_thermal_update_def thermal_antiwindup_def Let_def q16_consts split: prod.split)

theorem thermal_range:
  "6553 \<le> sint (fst (pg_thermal_update s c b cfg now)) \<and> sint (fst (pg_thermal_update s c b cfg now)) \<le> 65536 \<and>
   (sint (limit_bat cfg) \<le> sint b \<longrightarrow> sint (fst (pg_thermal_update s c b cfg now)) \<le> 13107)"
  using update_scale [of s c b cfg now] scale_range by auto

text \<open>The scale falls with the controller output, from one to the floor.\<close>

lemma scale_antitone:
  assumes "0 \<le> sint u" "sint u \<le> sint v" "sint v \<le> 6553600"
  shows "sint (thermal_scale cfg b v) \<le> sint (thermal_scale cfg b u)"
proof -
  have d: "sint (Q16_ONE - q16_div w (INT_TO_Q16 100)) = 65536 - sint w * 65536 div 6553600"
    if "0 \<le> sint w" "sint w \<le> 6553600" for w
  proof -
    have "sint (q16_div w (INT_TO_Q16 100)) = sint w * 65536 div 6553600"
      using that by (simp add: sint_div_pos q16_consts sdiv_nonneg)
    moreover have "0 \<le> sint w * 65536 div 6553600" "sint w * 65536 div 6553600 \<le> 65536"
      using that by simp_all
    ultimately show ?thesis by (simp add: sint_diff no_wrap)
  qed
  have "sint u * 65536 div 6553600 \<le> sint v * 65536 div 6553600"
    using assms by (intro zdiv_mono1) simp_all
  then have "sint (Q16_ONE - q16_div v (INT_TO_Q16 100)) \<le> sint (Q16_ONE - q16_div u (INT_TO_Q16 100))"
    using assms by (simp only: d)
  then show ?thesis
    by (auto simp: thermal_scale_def Let_def q16_consts intro!: clamp_mono)
qed

section \<open>The controller invariant\<close>

text \<open>
  The saturated output, the counter of saturated ticks, and the noise of the filter are in their
  ranges whatever temperatures and times are fed in.
\<close>

definition thermal_ok :: "pg_thermal_state \<Rightarrow> bool" where
  "thermal_ok s \<longleftrightarrow> 0 \<le> sint (prev_sat s) \<and> sint (prev_sat s) \<le> 6553600 \<and>
     0 \<le> sint (sat_count s) \<and> sint (sat_count s) \<le> 50 \<and> kalman_ok (th_filter s)"

lemma filter_reset_ok: "kalman_ok (th_filter (thermal_filter_reset s))"
  by (simp add: kalman_ok_def thermal_filter_reset_def pg_kalman_init_def pg_kalman_reset_def q16_consts Q16_TO_Q32_def)

lemma filter_reset_frame [simp]:
  "prev_sat (thermal_filter_reset s) = prev_sat s" "sat_count (thermal_filter_reset s) = sat_count s"
  "integ (thermal_filter_reset s) = integ s" "th_last_tick (thermal_filter_reset s) = th_last_tick s"
  by (simp_all add: thermal_filter_reset_def)

lemma thermal_init_ok: "thermal_ok (fst (pg_thermal_init os s h))"
  using filter_reset_ok by (simp add: thermal_ok_def pg_thermal_init_def Let_def split: prod.split)

lemma thermal_stale_ok: "thermal_ok s \<Longrightarrow> thermal_ok (thermal_stale s dt c sp)"
  using filter_reset_ok [of s] by (simp add: thermal_ok_def thermal_stale_def Let_def)

lemma antiwindup_ok:
  assumes "thermal_ok s" "0 \<le> sint u_sat" "sint u_sat \<le> 6553600"
  shows "thermal_ok (thermal_antiwindup s u u_sat dt)"
proof -
  have "sint (sat_count s + 1) = sint (sat_count s) + 1"
    using assms by (simp add: thermal_ok_def sint_add no_wrap)
  then show ?thesis
    using assms by (auto simp: thermal_ok_def thermal_antiwindup_def Let_def sint_cmp)
qed

theorem thermal_update_ok:
  assumes "thermal_ok s"
  shows "thermal_ok (snd (pg_thermal_update s c b cfg now)) \<and> th_last_tick (snd (pg_thermal_update s c b cfg now)) = now"
proof -
  let ?dt = "pg_dt_sec (th_last_tick s) now"
  let ?sp = "thermal_setpoint cfg b"
  let ?s = "thermal_stale (s\<lparr>th_last_tick := now\<rparr>) ?dt c ?sp"
  have "thermal_ok (s\<lparr>th_last_tick := now\<rparr>)" using assms by (simp add: thermal_ok_def)
  then have s1: "thermal_ok ?s" by (rule thermal_stale_ok)
  have tick: "th_last_tick ?s = now" by (simp add: thermal_stale_def Let_def)
  have u: "0 \<le> sint (pg_math_clamp u 0 (INT_TO_Q16 100))" "sint (pg_math_clamp u 0 (INT_TO_Q16 100)) \<le> 6553600" for u
    using clamp_range [of 0 "INT_TO_Q16 100" u] by (simp_all add: q16_consts)
  have pid: "thermal_ok (snd (thermal_pid (?s\<lparr>th_filter := f\<rparr>) cfg t v sp d))" if "kalman_ok f" for f t v sp d
    using s1 that by (simp add: thermal_pid_def Let_def thermal_ok_def)
  have k: "kalman_ok (snd (pg_kalman_update (th_filter ?s) c d))" for d
    using s1 by (intro kalman_ok_update) (simp add: thermal_ok_def)
  have ti: "th_last_tick (thermal_antiwindup (snd (thermal_pid (?s\<lparr>th_filter := f\<rparr>) cfg t v sp d)) x y z) = now" for f t v sp d x y z
    using tick by (simp add: thermal_antiwindup_def thermal_pid_def Let_def)
  show ?thesis
    unfolding pg_thermal_update_def Let_def case_prod_unfold snd_conv
    by (intro conjI antiwindup_ok pid k u ti)
qed

text \<open>Without saturation the integral is inside its clamp.\<close>

lemma pid_integ: "- 3276800 \<le> sint (integ (snd (thermal_pid s cfg t v sp d)))"
    "sint (integ (snd (thermal_pid s cfg t v sp d))) \<le> 3276800"
  using clamp_range [of "INT_TO_Q16 (- 50)" "INT_TO_Q16 50"]
  by (simp_all add: thermal_pid_def Let_def q16_consts)

lemma antiwindup_idle: "\<bar>sint (u - u_sat)\<bar> \<le> 65 \<Longrightarrow> integ (thermal_antiwindup s u u_sat d) = integ s"
  by (simp add: thermal_antiwindup_def Let_def sint_cmp sint_abs_q16)

section \<open>The set point\<close>

text \<open>
  A battery five degrees below its limit or cooler leaves the CPU limit alone; a hotter one lowers
  the set point by up to five degrees, the hotter the lower.
\<close>

lemma sint_setpoint:
  assumes "- 655360000 \<le> sint b" "sint b \<le> 655360000" "0 \<le> sint (limit_bat cfg)" "sint (limit_bat cfg) \<le> 655360000"
    and "0 \<le> sint (limit_cpu cfg)"
  shows "sint (thermal_setpoint cfg b) =
    sint (limit_cpu cfg) - max 0 (min 327680 (327680 - (sint (limit_bat cfg) - sint b)))"
proof -
  have m: "sint (limit_bat cfg - b) = sint (limit_bat cfg) - sint b"
    using assms by (simp add: sint_diff no_wrap)
  have c: "sint (INT_TO_Q16 5) = 327680" by (simp add: q16_consts)
  have d: "sint (INT_TO_Q16 5 - (limit_bat cfg - b)) = 327680 - (sint (limit_bat cfg) - sint b)"
    if "0 \<le> sint (limit_bat cfg) - sint b" "sint (limit_bat cfg) - sint b < 327680"
    using that by (simp add: sint_diff [of "INT_TO_Q16 5"] m c no_wrap)
  have l: "sint (limit_cpu cfg - x) = sint (limit_cpu cfg) - sint x" if "0 \<le> sint x" "sint x \<le> 327680" for x
    using that assms sint32_range [of "limit_cpu cfg"] by (simp add: sint_diff no_wrap)
  consider "sint (limit_bat cfg) - sint b < 0" | "0 \<le> sint (limit_bat cfg) - sint b" "sint (limit_bat cfg) - sint b < 327680"
    | "327680 \<le> sint (limit_bat cfg) - sint b" by linarith
  then show ?thesis
  proof cases
    case 1
    then show ?thesis using l [of "INT_TO_Q16 5"] c
      by (simp add: thermal_setpoint_def Let_def sint_cmp m)
  next
    case 2
    then show ?thesis using l d c by (simp add: thermal_setpoint_def Let_def sint_cmp m)
  next
    case 3
    then show ?thesis using l c by (simp add: thermal_setpoint_def Let_def sint_cmp m)
  qed
qed

section \<open>A stale controller restarts\<close>

lemma stale_restart:
  fixes s :: pg_thermal_state and c sp :: q16
  assumes "1966080 < sint dt"
  defines "s' \<equiv> thermal_stale s dt c sp"
  shows "first_run (th_filter s')" "prev_sat s' = 0" "sat_count s' = 0" "q_vel (th_filter s') = 655"
    "sint c < sint sp \<Longrightarrow> integ s' = 0" "sint sp \<le> sint c \<Longrightarrow> integ s' = integ s"
  using assms by (simp_all add: thermal_stale_def Let_def sint_cmp q16_consts thermal_filter_reset_def
      pg_kalman_init_def pg_kalman_reset_def)

section \<open>Properties\<close>

text \<open>
  C23: The scale of the thermal governor is in \<open>[0.1, 1]\<close>, and at most 0.2 while the battery is at its
  limit or hotter, for every state, temperature and time.
\<close>

theorem thermal_scale_bounded:
  "6553 \<le> sint (fst (pg_thermal_update s c b cfg now)) \<and>
   sint (fst (pg_thermal_update s c b cfg now)) \<le> (if sint (limit_bat cfg) \<le> sint b then 13107 else 65536)"
  using thermal_range [of s c b cfg now] by simp

text \<open>
  C39: From the initialisation on, after any sequence of updates, the saturated output of the
  controller is in \<open>[0, 100]\<close>, its saturation counter in \<open>[0, 50]\<close> and the noise of its filter in range.
\<close>

theorem thermal_run_ok:
  "thermal_ok (foldl (\<lambda>s (c, b, now). snd (pg_thermal_update s c b cfg now)) (fst (pg_thermal_init os s0 h)) inputs)"
proof (induction inputs rule: rev_induct)
  case Nil
  then show ?case by (simp add: thermal_init_ok)
next
  case (snoc x xs)
  then show ?case using thermal_update_ok by (simp add: case_prod_unfold)
qed

text \<open>
  More than 30 seconds after the last update the controller starts over: filter and saturation
  state are reset, and the integral too unless the device is at its set point or hotter.
\<close>

theorem thermal_stale_restarts:
  assumes "1966080 < sint dt"
  shows "first_run (th_filter (thermal_stale s dt c sp)) \<and> prev_sat (thermal_stale s dt c sp) = 0 \<and>
    sat_count (thermal_stale s dt c sp) = 0 \<and>
    integ (thermal_stale s dt c sp) = (if sint c < sint sp then 0 else integ s)"
  using stale_restart [OF assms] by simp

definition sample_filter :: pg_kalman_state where
  "sample_filter = \<lparr>x_pos = 1, x_vel = 2, p00 = 3, p01 = 4, p10 = 5, p11 = 6, q_vel = 655, r_meas = 6553,
     cov_y = 9, nis = 10, first_run = False\<rparr>"

lemma thermal_stale_restarts_witness:
  "integ (thermal_stale \<lparr>th_last_tick = Timespec 0 0, integ = 77, prev_sat = 5, sat_count = 3, th_filter = sample_filter\<rparr>
     2000000 2621440 3440640) = 0"
  using thermal_stale_restarts [of 2000000 "\<lparr>th_last_tick = Timespec 0 0, integ = 77, prev_sat = 5, sat_count = 3,
     th_filter = sample_filter\<rparr>" 2621440 3440640] by simp

text \<open>
  The set point is the CPU limit lowered by what the battery is missing to a margin of five
  degrees below its own limit, by at most five degrees.
\<close>

theorem thermal_setpoint_value:
  assumes "- 655360000 \<le> sint b" "sint b \<le> 655360000" "0 \<le> sint (limit_bat cfg)" "sint (limit_bat cfg) \<le> 655360000"
    and "0 \<le> sint (limit_cpu cfg)"
  shows "sint (thermal_setpoint cfg b) =
    sint (limit_cpu cfg) - max 0 (min 327680 (327680 - (sint (limit_bat cfg) - sint b)))"
  using assms by (rule sint_setpoint)

lemma thermal_setpoint_value_witness:
  "sint (thermal_setpoint \<lparr>limit_cpu = 3440640, limit_bat = 2654208, kp_base = 39976, ki_base = 622, kd_base = 53739\<rparr>
     2621440) = 3440640 - 294912"
  using thermal_setpoint_value [of 2621440 "\<lparr>limit_cpu = 3440640, limit_bat = 2654208, kp_base = 39976, ki_base = 622,
     kd_base = 53739\<rparr>"] by simp

end
