(* ===== verification/Pg_Poll.thy ===== *)
theory Pg_Poll
  imports Pg_Os
begin

text \<open>
  The adaptive poll interval, \<^verbatim>\<open>core/poll.c\<close>.  The interval drops to its minimum under pressure,
  is halved under moderate pressure and grows in idle phases; a jitter of five percent keeps the
  daemon from running in step with other timers.  The random source has two builds, a multiplicative
  generator with 128-bit products and a shift register; \<open>jitter\<close> takes the source as an argument.
  The lemmas bound the interval and the wait for both, and give the step the interval takes.
\<close>

section \<open>Constants and state\<close>

abbreviation PG_MIN_POLL_MS :: u64 where "PG_MIN_POLL_MS \<equiv> 100"
abbreviation PG_MAX_POLL_MS :: u64 where "PG_MAX_POLL_MS \<equiv> 10000"

record pg_poll_state =
  cur_ivl :: u32
  last_wait :: u32
  poll_last_tick :: timespec
  rng_state :: u64

definition pg_poll_init :: "os \<Rightarrow> pg_poll_state \<Rightarrow> hist \<Rightarrow> pg_poll_state \<times> hist" where
  "pg_poll_init os state h =
     (let (t, h) = sys_clock os CLOCK_MONOTONIC h;
          (now, h) = sys_clock os CLOCK_REALTIME h
      in (state\<lparr>cur_ivl := 100, last_wait := 100, poll_last_tick := t,
            rng_state := tv_sec now * 1000000000 + tv_nsec now\<rparr>, h))"

section \<open>Random source and jitter\<close>

text \<open>The two builds of \<open>next_random\<close>: the result and the new generator state.\<close>

definition next_random :: "u64 \<Rightarrow> u64 \<Rightarrow> u64 \<times> u64" where
  "next_random rng rge =
     (if rge = 0 then (0, rng)
      else let rng = rng * 6364136223846793005 + 1;
               p = (ucast rng :: u128) * ucast rge
           in (ucast (drop_bit 64 p), rng))"

definition next_random_xorshift :: "u64 \<Rightarrow> u64 \<Rightarrow> u64 \<times> u64" where
  "next_random_xorshift rng rge =
     (if rge = 0 then (0, rng)
      else let x = rng;
               x = x XOR push_bit 13 x;
               x = x XOR drop_bit 7 x;
               x = x XOR push_bit 17 x
           in (x mod rge, x))"

text \<open>\<open>if (v < min) v = min; if (v > max) v = max\<close>, which \<open>jitter\<close> does before and after the noise.\<close>

definition bound_u64 :: "u64 \<Rightarrow> u64 \<Rightarrow> u64 \<Rightarrow> u64" where
  "bound_u64 v mn mx = (let v = (if v < mn then mn else v) in if mx < v then mx else v)"

definition jitter :: "(u64 \<Rightarrow> u64 \<Rightarrow> u64 \<times> u64) \<Rightarrow> u64 \<Rightarrow> u64 \<Rightarrow> u64 \<Rightarrow> u64 \<Rightarrow> u64 \<times> u64" where
  "jitter rnd rng ivl mn mx =
     (let step = 50;
          cl = ((ivl + (step div 2)) div step) * step;
          cl = bound_u64 cl mn mx;
          n_amp = (cl * 5) div 100
      in if n_amp = 0 then (cl, rng)
         else let (noise, rng) = rnd rng (n_amp * 2 + 1);
                  final = (if n_amp < noise then cl + (noise - n_amp)
                           else let sub = n_amp - noise in if sub < cl then cl - sub else 0)
              in (bound_u64 final mn mx, rng))"

section \<open>The next interval\<close>

text \<open>The interval the pressure asks for, before and after the bounds (lines 101 to 115).\<close>

definition poll_target :: "u32 \<Rightarrow> q16 \<Rightarrow> q16 \<Rightarrow> q16 \<Rightarrow> u64" where
  "poll_target cur cur_press avg300 press_vel =
     (let pred = cur_press + q16_mul press_vel Q16_HALF;
          nxt = ucast cur :: u64;
          nxt = (if INT_TO_Q16 5 <s pred \<or> INT_TO_Q16 2 <s press_vel then PG_MIN_POLL_MS
                 else if FLOAT_TO_Q16 15 10 <s pred then nxt div 2
                 else if avg300 <s INT_TO_Q16 2 then nxt + 200
                 else nxt)
      in if nxt < PG_MIN_POLL_MS then PG_MIN_POLL_MS
         else if PG_MAX_POLL_MS < nxt then PG_MAX_POLL_MS else nxt)"

text \<open>Shortening always takes effect, lengthening only by 200 or more.\<close>

definition poll_accept :: "u32 \<Rightarrow> u64 \<Rightarrow> u32" where
  "poll_accept cur nxt =
     (let diff = (if ucast cur < nxt then nxt - ucast cur else ucast cur - nxt)
      in if nxt < ucast cur \<or> 200 \<le> diff then ucast nxt else cur)"

definition poll_next ::
    "(u64 \<Rightarrow> u64 \<Rightarrow> u64 \<times> u64) \<Rightarrow> os \<Rightarrow> pg_poll_state \<Rightarrow> q16 \<Rightarrow> q16 \<Rightarrow> q16 \<Rightarrow> hist \<Rightarrow> u64 \<times> pg_poll_state \<times> hist" where
  "poll_next rnd os state cur_press avg300 press_vel h =
     (let (now, h) = sys_clock os CLOCK_MONOTONIC h;
          elapsed = pg_dt_sec (poll_last_tick state) now;
          elapsed = (if elapsed <s 0 then 0 else elapsed);
          ms = signed_drop_bit 16 ((scast elapsed :: q32) * 1000)
      in if ucast (last_wait state) + 200 < ms
         then (PG_MIN_POLL_MS, state\<lparr>poll_last_tick := now, cur_ivl := 100, last_wait := 100\<rparr>, h)
         else let nxt_ivl = poll_target (cur_ivl state) cur_press avg300 press_vel;
                  state = state\<lparr>poll_last_tick := now\<rparr>;
                  state = state\<lparr>cur_ivl := poll_accept (cur_ivl state) nxt_ivl\<rparr>;
                  (wait, rng) = jitter rnd (rng_state state) (ucast (cur_ivl state)) PG_MIN_POLL_MS PG_MAX_POLL_MS
              in (wait, state\<lparr>rng_state := rng, last_wait := ucast wait\<rparr>, h))"

definition pg_poll_calc_next ::
    "os \<Rightarrow> pg_poll_state \<Rightarrow> q16 \<Rightarrow> q16 \<Rightarrow> q16 \<Rightarrow> hist \<Rightarrow> u64 \<times> pg_poll_state \<times> hist" where
  "pg_poll_calc_next = poll_next next_random"

section \<open>A random source and what rests on it\<close>

text \<open>The interval rounded to the nearest multiple of 50, halves upwards, inside the bounds.\<close>

definition jitter_centre :: "nat \<Rightarrow> nat \<Rightarrow> nat \<Rightarrow> nat" where
  "jitter_centre ivl mn mx = min mx (max mn ((ivl + 25) div 50 * 50))"

lemma bound_u64_range:
  assumes "mn \<le> mx"
  shows "mn \<le> bound_u64 v mn mx" "bound_u64 v mn mx \<le> mx"
  using assms by (auto simp: bound_u64_def Let_def)

lemma unat_bound_u64: "mn \<le> mx \<Longrightarrow> unat (bound_u64 v mn mx) = min (unat mx) (max (unat mn) (unat v))"
  by (auto simp: bound_u64_def Let_def word_less_nat_alt word_le_nat_alt)

text \<open>The contract of \<open>next_random\<close>: a result below the range.\<close>

lemma poll_target_range:
  assumes "unat cur \<le> 10000"
  shows "100 \<le> poll_target cur p a v" "poll_target cur p a v \<le> 10000"
  by (auto simp: poll_target_def Let_def)

lemma unat_poll_accept:
  assumes "100 \<le> unat cur" "unat cur \<le> 10000" "100 \<le> nxt" "nxt \<le> 10000"
  shows "unat (poll_accept cur nxt) = (if unat nxt < unat cur \<or> unat cur + 200 \<le> unat nxt then unat nxt else unat cur)"
proof -
  have c: "unat (ucast cur :: u64) = unat cur" using assms by (simp add: unsigned_ucast_eq take_bit_nat_eq_self)
  have n: "unat nxt \<le> 10000" "100 \<le> unat nxt" using assms by (simp_all add: word_le_nat_alt)
  then have u: "unat (ucast nxt :: u32) = unat nxt" by (simp add: unsigned_ucast_eq take_bit_nat_eq_self)
  show ?thesis
  proof (cases "unat nxt < unat cur")
    case True
    then show ?thesis using c u by (simp add: poll_accept_def Let_def word_less_nat_alt)
  next
    case False
    then have "unat (nxt - ucast cur) = unat nxt - unat cur" "unat (ucast cur - nxt :: u64) = 0 \<or> unat cur < unat nxt"
      using c by (auto simp: unat_sub word_le_nat_alt)
    then show ?thesis using False c u
      by (auto simp: poll_accept_def Let_def word_less_nat_alt word_le_nat_alt)
  qed
qed

locale random_source =
  fixes rnd :: "u64 \<Rightarrow> u64 \<Rightarrow> u64 \<times> u64"
  assumes rnd_less: "rge \<noteq> 0 \<Longrightarrow> fst (rnd rng rge) < rge"
begin

lemma noise_bound:
  assumes "unat n < 1000000"
  shows "unat (fst (rnd rng (n * 2 + 1))) \<le> 2 * unat n"
proof -
  have u: "unat (n * 2 + 1) = 2 * unat n + 1" using assms by (simp add: unat_word_ariths)
  then have "n * 2 + 1 \<noteq> 0" by (metis Suc_eq_plus1 nat.distinct(1) unsigned_0)
  then have "unat (fst (rnd rng (n * 2 + 1))) < unat (n * 2 + 1)"
    using rnd_less by (simp add: word_less_nat_alt)
  then show ?thesis using u by simp
qed

lemma jitter_bounds:
  assumes "mn \<le> mx"
  shows "mn \<le> fst (jitter rnd rng ivl mn mx)" "fst (jitter rnd rng ivl mn mx) \<le> mx"
  using bound_u64_range [OF assms] by (simp_all add: jitter_def Let_def case_prod_unfold)

text \<open>At most five percent off the centre.\<close>

lemma jitter_within:
  assumes ivl: "unat ivl < 4294967296" and mx: "mn \<le> mx" "unat mx \<le> 1000000"
  defines "c \<equiv> jitter_centre (unat ivl) (unat mn) (unat mx)"
  shows "c - c * 5 div 100 \<le> unat (fst (jitter rnd rng ivl mn mx)) \<and>
    unat (fst (jitter rnd rng ivl mn mx)) \<le> c + c * 5 div 100"
proof -
  define cl where "cl = bound_u64 (((ivl + (50 div 2)) div 50) * 50) mn mx"
  have "unat (ivl + 25) = unat ivl + 25" using ivl by (simp add: unat_word_ariths)
  then have "unat ((ivl + 25) div 50) = (unat ivl + 25) div 50" by (simp add: unat_div)
  moreover have "(unat ivl + 25) div 50 < 4294967296" using ivl by simp
  ultimately have st: "unat (((ivl + (50 div 2)) div 50) * 50) = (unat ivl + 25) div 50 * 50"
    by (simp add: unat_word_ariths)
  have cl: "unat cl = c"
    unfolding cl_def c_def jitter_centre_def by (simp only: unat_bound_u64 [OF mx(1)] st)
  have c: "c \<le> 1000000" "unat mn \<le> c" "c \<le> unat mx"
    using mx by (auto simp: c_def jitter_centre_def word_le_nat_alt)
  define amp where "amp = (cl * 5) div 100"
  have amp: "unat amp = c * 5 div 100"
    unfolding amp_def using cl c by (simp add: unat_div unat_word_ariths)
  show ?thesis
  proof (cases "amp = 0")
    case True
    then have "fst (jitter rnd rng ivl mn mx) = cl"
      by (simp add: jitter_def Let_def amp_def cl_def)
    then show ?thesis using cl by simp
  next
    case False
    define noise where "noise = fst (rnd rng (amp * 2 + 1))"
    define fin where "fin = (if amp < noise then cl + (noise - amp)
      else if amp - noise < cl then cl - (amp - noise) else 0)"
    have j: "fst (jitter rnd rng ivl mn mx) = bound_u64 fin mn mx"
      using False by (simp add: jitter_def Let_def amp_def cl_def fin_def noise_def split: prod.split)
    have n: "unat noise \<le> 2 * unat amp"
      unfolding noise_def using amp c by (intro noise_bound) simp
    have "c - unat amp \<le> unat fin \<and> unat fin \<le> c + unat amp"
    proof (cases "amp < noise")
      case True
      then have "unat (noise - amp) = unat noise - unat amp" by (simp add: unat_sub less_imp_le)
      moreover from this have "unat (cl + (noise - amp)) = c + (unat noise - unat amp)"
        using n amp c cl by (simp add: unat_word_ariths)
      ultimately show ?thesis using True n unfolding fin_def by simp arith
    next
      case False
      then have s: "unat (amp - noise) = unat amp - unat noise" by (simp add: unat_sub)
      show ?thesis
      proof (cases "amp - noise < cl")
        case True
        then have "unat (cl - (amp - noise)) = c - (unat amp - unat noise)"
          using s cl by (simp add: unat_sub less_imp_le)
        then show ?thesis using False True unfolding fin_def by simp arith
      next
        case f2: False
        then have "c \<le> unat amp - unat noise" using s cl by (simp add: word_less_nat_alt)
        then show ?thesis using False f2 by (simp add: fin_def)
      qed
    qed
    moreover have "unat (fst (jitter rnd rng ivl mn mx)) = min (unat mx) (max (unat mn) (unat fin))"
      unfolding j by (rule unat_bound_u64 [OF mx(1)])
    ultimately show ?thesis unfolding amp [symmetric] using c by auto
  qed
qed

lemma poll_next_wait:
  assumes "unat (cur_ivl s) \<le> 10000"
  shows "100 \<le> fst (poll_next rnd os s p a v h)" "fst (poll_next rnd os s p a v h) \<le> 10000"
  using jitter_bounds [of 100 10000] by (simp_all add: poll_next_def Let_def case_prod_unfold)

lemma poll_next_state:
  assumes c: "100 \<le> unat (cur_ivl s)" "unat (cur_ivl s) \<le> 10000"
  shows "100 \<le> unat (cur_ivl (fst (snd (poll_next rnd os s p a v h))))"
    "unat (cur_ivl (fst (snd (poll_next rnd os s p a v h)))) \<le> 10000"
    "unat (last_wait (fst (snd (poll_next rnd os s p a v h)))) = unat (fst (poll_next rnd os s p a v h))"
proof -
  let ?t = "poll_target (cur_ivl s) p a v"
  have t: "100 \<le> ?t" "?t \<le> 10000" using c by (simp_all add: poll_target_range)
  then have tn: "100 \<le> unat ?t" "unat ?t \<le> 10000" by (simp_all add: word_le_nat_alt)
  have acc: "100 \<le> unat (poll_accept (cur_ivl s) ?t)" "unat (poll_accept (cur_ivl s) ?t) \<le> 10000"
    unfolding unat_poll_accept [OF c t] using c tn by simp_all
  then show "100 \<le> unat (cur_ivl (fst (snd (poll_next rnd os s p a v h))))"
    "unat (cur_ivl (fst (snd (poll_next rnd os s p a v h)))) \<le> 10000"
    by (simp_all add: poll_next_def Let_def case_prod_unfold)
  have "unat (ucast w :: u32) = unat w" if "w \<le> 10000" for w :: u64
  proof -
    have "unat w \<le> 10000" using that by (simp add: word_le_nat_alt)
    then show ?thesis by (simp add: unsigned_ucast_eq take_bit_nat_eq_self)
  qed
  then show "unat (last_wait (fst (snd (poll_next rnd os s p a v h)))) = unat (fst (poll_next rnd os s p a v h))"
    using jitter_bounds(2) [of 100 10000] by (simp add: poll_next_def Let_def case_prod_unfold)
qed

text \<open>The wait is within five percent of the interval it is drawn for, rounded to 50 ms.\<close>

lemma poll_next_spread:
  fixes s :: pg_poll_state and os p a v h
  assumes c: "100 \<le> unat (cur_ivl s)" "unat (cur_ivl s) \<le> 10000"
  defines "r \<equiv> poll_next rnd os s p a v h"
  defines "m \<equiv> jitter_centre (unat (cur_ivl (fst (snd r)))) 100 10000"
  shows "m - m * 5 div 100 \<le> unat (fst r) \<and> unat (fst r) \<le> m + m * 5 div 100"
proof -
  have st: "unat (cur_ivl (fst (snd r))) \<le> 10000"
    unfolding r_def by (rule poll_next_state(2) [OF c])
  show ?thesis
  proof (cases "\<exists>rng. fst r = fst (jitter rnd rng (ucast (cur_ivl (fst (snd r)))) 100 10000)")
    case True
    then obtain rng where j: "fst r = fst (jitter rnd rng (ucast (cur_ivl (fst (snd r)))) 100 10000)" ..
    have u: "unat (ucast (cur_ivl (fst (snd r))) :: u64) = unat (cur_ivl (fst (snd r)))"
      by (rule unat_ucast_32_64)
    show ?thesis
      using jitter_within [of "ucast (cur_ivl (fst (snd r)))" 100 10000 rng] st
      unfolding j u m_def by simp
  next
    case False
    then have "fst r = 100" "cur_ivl (fst (snd r)) = 100"
      by (auto simp: r_def poll_next_def Let_def case_prod_unfold split: if_splits)
    then show ?thesis by (simp add: m_def jitter_centre_def)
  qed
qed

end

section \<open>Both builds satisfy the contract\<close>

text \<open>The high half of a 128-bit product, as a scaled random number.\<close>

lemma high_product:
  fixes x r :: u64
  assumes "r \<noteq> 0"
  shows "ucast (drop_bit 64 ((ucast x :: u128) * ucast r)) < r"
proof -
  have x: "unat x < 18446744073709551616" using unsigned_less [of x, where ?'a = nat] by simp
  have r: "unat r < 18446744073709551616" "0 < unat r"
    using unsigned_less [of r, where ?'a = nat] assms by (simp_all add: unat_gt_0)
  have lt: "unat x * unat r < 18446744073709551616 * unat r" using x r by simp
  moreover have "18446744073709551616 * unat r < 18446744073709551616 * 18446744073709551616" using r by simp
  moreover have "(2::nat) ^ 128 = 18446744073709551616 * 18446744073709551616" by simp
  ultimately have "unat x * unat r < 2 ^ 128" by linarith
  then have p: "unat ((ucast x :: u128) * ucast r) = unat x * unat r"
    by (subst unat_mult_lem [THEN iffD1]) (simp_all add: unat_ucast_64_128)
  have q: "unat x * unat r div 2 ^ 64 < unat r"
    using lt by (simp add: div_less_iff_less_mult mult.commute)
  have "unat (drop_bit 64 ((ucast x :: u128) * ucast r)) = unat x * unat r div 2 ^ 64"
    by (simp only: unat_drop_bit_eq p) (simp only: drop_bit_eq_div)
  moreover have "unat x * unat r div 2 ^ 64 < 2 ^ 64" using q r by simp
  ultimately have "unat (ucast (drop_bit 64 ((ucast x :: u128) * ucast r)) :: u64) = unat x * unat r div 2 ^ 64"
    by (simp only: unsigned_ucast_eq) (simp add: take_bit_nat_eq_self)
  then show ?thesis using q by (simp only: word_less_nat_alt)
qed

lemma next_random_less: "rge \<noteq> 0 \<Longrightarrow> fst (next_random rng rge) < rge"
  by (simp add: next_random_def Let_def high_product)

lemma next_random_xorshift_less: "rge \<noteq> 0 \<Longrightarrow> fst (next_random_xorshift rng rge) < rge"
  by (simp add: next_random_xorshift_def Let_def word_mod_less_divisor word_gt_0)

interpretation lcg: random_source next_random
  by unfold_locales (rule next_random_less)

interpretation xorshift: random_source next_random_xorshift
  by unfold_locales (rule next_random_xorshift_less)

section \<open>Properties\<close>

text \<open>
  C24: \<open>pg_poll_calc_next\<close> returns a wait of 100 to 10000 ms that is within five percent of the new
  interval rounded to 50 ms, and keeps the interval in the same bounds.
\<close>

theorem poll_wait_spread:
  assumes "100 \<le> unat (cur_ivl s)" "unat (cur_ivl s) \<le> 10000"
  shows "case pg_poll_calc_next os s p a v h of (wait, s', h') \<Rightarrow>
    100 \<le> wait \<and> wait \<le> 10000 \<and> 100 \<le> unat (cur_ivl s') \<and> unat (cur_ivl s') \<le> 10000 \<and>
    unat (last_wait s') = unat wait \<and>
    (let m = jitter_centre (unat (cur_ivl s')) 100 10000
     in m - m * 5 div 100 \<le> unat wait \<and> unat wait \<le> m + m * 5 div 100)"
  unfolding pg_poll_calc_next_def case_prod_unfold Let_def
  by (intro conjI lcg.poll_next_wait lcg.poll_next_state assms
      lcg.poll_next_spread [THEN conjunct1] lcg.poll_next_spread [THEN conjunct2])

lemma poll_wait_spread_witness:
  "case pg_poll_calc_next sample_os \<lparr>cur_ivl = 300, last_wait = 300, poll_last_tick = Timespec 100 0, rng_state = 7\<rparr> 0 0 0 []
   of (wait, s', h') \<Rightarrow> 100 \<le> wait \<and> wait \<le> 10000"
  using poll_wait_spread [of "\<lparr>cur_ivl = 300, last_wait = 300, poll_last_tick = Timespec 100 0, rng_state = 7\<rparr>"
      sample_os 0 0 0 "[]"] by (simp add: case_prod_unfold)

text \<open>
  The build with the shift-register generator gives the same bounds, so the jitter does not
  depend on 128-bit integers.
\<close>

theorem poll_wait_xorshift:
  assumes "100 \<le> unat (cur_ivl s)" "unat (cur_ivl s) \<le> 10000"
  shows "case poll_next next_random_xorshift os s p a v h of (wait, s', h') \<Rightarrow>
    100 \<le> wait \<and> wait \<le> 10000 \<and> 100 \<le> unat (cur_ivl s') \<and> unat (cur_ivl s') \<le> 10000 \<and>
    unat (last_wait s') = unat wait"
  unfolding case_prod_unfold
  by (intro conjI xorshift.poll_next_wait xorshift.poll_next_state assms)

lemma poll_wait_xorshift_witness:
  "case poll_next next_random_xorshift sample_os
     \<lparr>cur_ivl = 300, last_wait = 300, poll_last_tick = Timespec 100 0, rng_state = 7\<rparr> 0 0 0 []
   of (wait, s', h') \<Rightarrow> 100 \<le> wait \<and> wait \<le> 10000"
  using poll_wait_xorshift [of "\<lparr>cur_ivl = 300, last_wait = 300, poll_last_tick = Timespec 100 0, rng_state = 7\<rparr>"
      sample_os 0 0 0 "[]"] by (simp add: case_prod_unfold)

end
