(* ===== verification/Pg_State.thy ===== *)
theory Pg_State
  imports Pg_Psi Pg_Sensor Pg_Sysfs Pg_Thermal Pg_Cpu Pg_Poll
begin


text \<open>
  The state of the daemon, \<^verbatim>\<open>include/pg/state.h\<close>: one record that holds the state of every component.
  The two callbacks are function pointers to the one function the daemon installs, so a callback is
  the name of that function.  The three tables of \<^verbatim>\<open>config.c\<close> are globals and form a record of their own.
\<close>

datatype pg_event_cb = Gov_process

datatype pg_disp_state = PG_DISP_UNKNOWN | PG_DISP_ON | PG_DISP_GRACE | PG_DISP_SUSPEND

record pg_context =
  psi :: pg_psi_monitor
  cpu_temp_sensor :: pg_temp_sensor
  bat_temp_sensor :: pg_temp_sensor
  bat_cap_sensor :: pg_bat_sensor
  bl_sensor :: pg_bl_sensor
  sched_lat :: pg_sysfs_cache
  sched_gran :: pg_sysfs_cache
  sched_wake :: pg_sysfs_cache
  sched_mig :: pg_sysfs_cache
  sched_walt :: pg_sysfs_cache
  sched_ucl :: pg_sysfs_cache
  thermal_state :: pg_thermal_state
  load_state :: pg_load_state
  poll_state :: pg_poll_state
  disp_state :: pg_disp_state
  bat_lvl :: q16
  bat_temp :: q16
  cached_th_scl :: q16
  last_bat :: timespec
  last_therm :: timespec
  last_tick :: timespec
  last_dispoff :: timespec
  last_disp :: timespec
  last_sweep :: timespec
  epoll_fd :: int
  sig_fd :: int
  trg_fd :: int
  lock_fd :: int
  next_wake :: i32
  psi_fails :: u8
  temp_fails :: u8
  remap_due :: bool
  dormant :: bool
  shutdown_req :: bool
  on_trigger :: "pg_event_cb option"
  on_timeout :: "pg_event_cb option"

record pg_tables =
  t_lim :: pg_cpu_lim
  t_cpu :: pg_cpu_cfg
  t_thermal :: pg_thermal_cfg

end
