(* ===== verification/Pg_Epoll.thy ===== *)
theory Pg_Epoll
  imports Pg_State
begin

text \<open>
  The event reactor, \<^verbatim>\<open>src/core/epoll.c\<close>.  It calls back through the two function pointers of the
  context; what they do is the parameter \<open>cb\<close> of the model.  The loop may run for ever, so it is a
  partial function; \<open>epoll_iters\<close> is the same loop cut off after a number of rounds.  The locale \<open>reactor\<close> is
  the contract between the reactor and what it calls back; inside it, the loop keeps the invariant
  and ends once the signal has arrived.
\<close>

section \<open>The trigger in the event set\<close>

definition pg_epoll_add_trg :: "os \<Rightarrow> pg_context \<Rightarrow> hist \<Rightarrow> int \<times> hist" where
  "pg_epoll_add_trg os ctx h =
     (if trg_fd ctx < 0 \<or> epoll_fd ctx < 0 then (- EBADF, h)
      else let (r, h) = sys_epoll_ctl os (epoll_fd ctx) EPOLL_CTL_ADD (trg_fd ctx) h
           in (case r of Inl err \<Rightarrow> - err | Inr u \<Rightarrow> 0, h))"

definition pg_epoll_rm_trg :: "os \<Rightarrow> pg_context \<Rightarrow> hist \<Rightarrow> hist" where
  "pg_epoll_rm_trg os ctx h =
     (if 0 \<le> trg_fd ctx \<and> 0 \<le> epoll_fd ctx
      then snd (sys_epoll_ctl os (epoll_fd ctx) EPOLL_CTL_DEL (trg_fd ctx) h) else h)"

section \<open>The reactor\<close>

abbreviation (input) PG_MAX_EVENTS :: nat where "PG_MAX_EVENTS \<equiv> 16"
abbreviation (input) SIGINFO_SIZE :: nat where "SIGINFO_SIZE \<equiv> 128"

type_synonym callback = "pg_event_cb \<Rightarrow> pg_context \<Rightarrow> hist \<Rightarrow> (pg_context \<times> hist) option"

definition epoll_error :: "os \<Rightarrow> int \<Rightarrow> pg_context \<Rightarrow> timespec \<Rightarrow> hist \<Rightarrow> pg_context \<times> hist" where
  "epoll_error os err ctx wait_start h =
     (if err = EINTR
      then if next_wake ctx <s 0 then (ctx, h)
        else let (wait_end, h) = sys_clock os CLOCK_MONOTONIC h;
                 dt = pg_dt_sec wait_start wait_end;
                 elapsed = ucast (signed_drop_bit 16 ((scast dt :: q32) * 1000)) :: i32;
                 wake = next_wake ctx - elapsed
             in (ctx\<lparr>next_wake := if wake <s 1 then 1 else wake\<rparr>, h)
      else (ctx\<lparr>shutdown_req := True\<rparr>, h))"

definition handle_signal_event :: "os \<Rightarrow> pg_context \<Rightarrow> hist \<Rightarrow> (pg_context \<times> hist) option" where
  "handle_signal_event os ctx h = do {
     (s, h) \<leftarrow> retry_eintr (sys_read os (sig_fd ctx) SIGINFO_SIZE) h;
     Some (case s of Inl err \<Rightarrow> ctx | Inr buf \<Rightarrow> if length buf = SIGINFO_SIZE then ctx\<lparr>shutdown_req := True\<rparr> else ctx, h)
   }"

definition handle_trigger_event :: "callback \<Rightarrow> pg_context \<Rightarrow> hist \<Rightarrow> (pg_context \<times> hist) option" where
  "handle_trigger_event cb ctx h =
     (case on_trigger ctx of Some f \<Rightarrow> if \<not> shutdown_req ctx then cb f ctx h else Some (ctx, h) | None \<Rightarrow> Some (ctx, h))"

text \<open>The events are given by the descriptors they carry.\<close>

fun epoll_events :: "os \<Rightarrow> callback \<Rightarrow> int list \<Rightarrow> pg_context \<Rightarrow> hist \<Rightarrow> (pg_context \<times> hist) option" where
  "epoll_events os cb [] ctx h = Some (ctx, h)"
| "epoll_events os cb (ev_fd # evs) ctx h = do {
     (ctx, h) \<leftarrow> (if ev_fd = sig_fd ctx then handle_signal_event os ctx h
                 else if ev_fd = trg_fd ctx then handle_trigger_event cb ctx h
                 else Some (ctx, h));
     epoll_events os cb evs ctx h
   }"

definition epoll_setup :: "os \<Rightarrow> pg_context \<Rightarrow> hist \<Rightarrow> int \<times> pg_context \<times> hist" where
  "epoll_setup os ctx h =
     (case sys_epoll_create os h of
        (Inl err, h) \<Rightarrow> (- err, ctx\<lparr>epoll_fd := - 1\<rparr>, h)
      | (Inr ep, h) \<Rightarrow>
          let ctx = ctx\<lparr>epoll_fd := ep\<rparr>
          in case sys_epoll_ctl os ep EPOLL_CTL_ADD (sig_fd ctx) h of
               (Inl err, h) \<Rightarrow> (- err, ctx\<lparr>epoll_fd := - 1\<rparr>, sys_close ep h)
             | (Inr u, h) \<Rightarrow>
                 if 0 \<le> trg_fd ctx
                 then let (ret, h) = pg_epoll_add_trg os ctx h
                      in if ret < 0 then (ret, ctx\<lparr>epoll_fd := - 1\<rparr>, sys_close ep h) else (0, ctx, h)
                 else (0, ctx, h))"

definition epoll_iter :: "os \<Rightarrow> callback \<Rightarrow> pg_context \<Rightarrow> hist \<Rightarrow> (pg_context \<times> hist) option" where
  "epoll_iter os cb ctx h =
     (let (wait_start, h) = sys_clock os CLOCK_MONOTONIC h;
          (r, h) = sys_epoll_wait os (epoll_fd ctx) PG_MAX_EVENTS (next_wake ctx) h
      in case r of
           Inl err \<Rightarrow> Some (epoll_error os err ctx wait_start h)
         | Inr evs \<Rightarrow>
             if evs = [] then (case on_timeout ctx of Some f \<Rightarrow> cb f ctx h | None \<Rightarrow> Some (ctx, h))
             else epoll_events os cb evs ctx h)"

partial_function (option) epoll_loop :: "os \<Rightarrow> callback \<Rightarrow> pg_context \<Rightarrow> hist \<Rightarrow> (pg_context \<times> hist) option" where
  "epoll_loop os cb ctx h =
     (if shutdown_req ctx then Some (ctx, h)
      else do { (ctx, h) \<leftarrow> epoll_iter os cb ctx h; epoll_loop os cb ctx h })"

definition pg_epoll_run :: "os \<Rightarrow> callback \<Rightarrow> pg_context \<Rightarrow> hist \<Rightarrow> (int \<times> pg_context \<times> hist) option" where
  "pg_epoll_run os cb ctx h =
     (let (ret, ctx, h) = epoll_setup os ctx h
      in if ret < 0 then Some (ret, ctx, h)
         else do {
           (ctx, h) \<leftarrow> epoll_loop os cb ctx h;
           Some (0, ctx\<lparr>epoll_fd := - 1\<rparr>, sys_close (epoll_fd ctx) h)
         })"

section \<open>The rounds of the loop\<close>

fun epoll_iters :: "nat \<Rightarrow> os \<Rightarrow> callback \<Rightarrow> pg_context \<Rightarrow> hist \<Rightarrow> (pg_context \<times> hist) option" where
  "epoll_iters 0 os cb ctx h = Some (ctx, h)"
| "epoll_iters (Suc n) os cb ctx h =
     (if shutdown_req ctx then Some (ctx, h)
      else do { (ctx, h) \<leftarrow> epoll_iter os cb ctx h; epoll_iters n os cb ctx h })"

lemma epoll_loop_iters:
  "runs (epoll_iters n os cb ctx h) (\<lambda>(ctx', h'). shutdown_req ctx' \<and> Q ctx' h') \<Longrightarrow>
    runs (epoll_loop os cb ctx h) (\<lambda>(ctx', h'). shutdown_req ctx' \<and> Q ctx' h')"
proof (induction n arbitrary: ctx h)
  case 0
  then show ?case by (subst epoll_loop.simps) simp
next
  case (Suc n)
  show ?case
  proof (cases "shutdown_req ctx")
    case True
    then show ?thesis using Suc.prems by (subst epoll_loop.simps) simp
  next
    case False
    then show ?thesis
      using Suc.prems by (subst epoll_loop.simps) (auto elim!: runs_mono intro: Suc.IH split: prod.splits)
  qed
qed

text \<open>How often the reactor has waited.\<close>

fun waits :: "hist \<Rightarrow> nat" where
  "waits [] = 0"
| "waits (Epoll_wait ep n t r # h) = Suc (waits h)"
| "waits (ev # h) = waits h"

lemma waits_append: "waits h \<le> waits (new @ h)"
proof (induction new)
  case (Cons e new)
  then show ?case by (cases e) auto
qed simp

text \<open>What the rounds leave alone: the descriptors of the reactor, and a request to shut down.\<close>

definition wired :: "pg_context \<Rightarrow> pg_context \<Rightarrow> bool" where
  "wired ctx ctx' \<longleftrightarrow> epoll_fd ctx' = epoll_fd ctx \<and> sig_fd ctx' = sig_fd ctx \<and> (shutdown_req ctx \<longrightarrow> shutdown_req ctx')"

lemma wired_refl [simp]: "wired ctx ctx"
  by (simp add: wired_def)

lemma wired_trans: "wired a b \<Longrightarrow> wired b c \<Longrightarrow> wired a c"
  by (simp add: wired_def)

lemma wiredD: "wired a b \<Longrightarrow> epoll_fd b = epoll_fd a" "wired a b \<Longrightarrow> sig_fd b = sig_fd a"
  "wired a b \<Longrightarrow> shutdown_req a \<Longrightarrow> shutdown_req b"
  by (simp_all add: wired_def)

text \<open>
  The signal arrives after \<open>h\<close>: from the \<open>N\<close>th wait on, the wait fails for good or reports the signal
  descriptor, and reading it gives a full record.
\<close>

definition reads_signal :: "os \<Rightarrow> int \<Rightarrow> hist \<Rightarrow> bool" where
  "reads_signal os sig h \<longleftrightarrow> (\<forall>h'. keeps_open {sig} h h' \<longrightarrow> (\<exists>s. os_read os h' sig SIGINFO_SIZE = Inr s \<and> length s = SIGINFO_SIZE))"

definition signals :: "os \<Rightarrow> int \<Rightarrow> int \<Rightarrow> nat \<Rightarrow> hist \<Rightarrow> bool" where
  "signals os ep sig N h \<longleftrightarrow>
     (\<forall>h' t. keeps_open {sig} h h' \<longrightarrow> N \<le> waits h' \<longrightarrow>
        (case os_epoll_wait os h' ep PG_MAX_EVENTS t of Inl err \<Rightarrow> err \<noteq> EINTR | Inr evs \<Rightarrow> sig \<in> set evs)) \<and>
     reads_signal os sig h"

lemma reads_signal_ext: "keeps_open {sig} h h' \<Longrightarrow> reads_signal os sig h \<Longrightarrow> reads_signal os sig h'"
  unfolding reads_signal_def by (metis keeps_open_trans)

lemma signals_ext: "keeps_open {sig} h h' \<Longrightarrow> signals os ep sig N h \<Longrightarrow> signals os ep sig N h'"
  unfolding signals_def by (metis keeps_open_trans reads_signal_ext)

lemma reads_signal_reads: "reads_signal os sig h \<Longrightarrow> os_read os (replicate k (Read fd n e) @ h) sig SIGINFO_SIZE = r \<Longrightarrow>
    \<exists>s. r = Inr s \<and> length s = SIGINFO_SIZE"
  by (auto simp: reads_signal_def keeps_open_def)

text \<open>
  The contract between the reactor and what it calls back: an invariant of the context and the
  history which the callback keeps, which leaves the wiring of the reactor alone.
\<close>

locale reactor =
  fixes os :: os and cb :: callback and inv :: "pg_context \<Rightarrow> hist \<Rightarrow> bool"
  assumes call: "os_ok os \<Longrightarrow> inv ctx h \<Longrightarrow> runs (cb f ctx h) (\<lambda>(ctx', h'). inv ctx' h' \<and> keeps_open {sig_fd ctx} h h' \<and>
      epoll_fd ctx' = epoll_fd ctx \<and> sig_fd ctx' = sig_fd ctx \<and> shutdown_req ctx' = shutdown_req ctx \<and>
      on_trigger ctx' = on_trigger ctx \<and> on_timeout ctx' = on_timeout ctx)"
    and event: "inv ctx h \<Longrightarrow> idle e \<Longrightarrow> quiet e \<Longrightarrow> inv ctx (e # h)"
    and pace: "inv ctx h \<Longrightarrow> inv (ctx\<lparr>next_wake := w\<rparr>) h"
    and stop: "inv ctx h \<Longrightarrow> inv (ctx\<lparr>shutdown_req := b\<rparr>) h"
begin

lemma events: "inv ctx h \<Longrightarrow> (\<And>e. e \<in> set new \<Longrightarrow> idle e \<and> quiet e) \<Longrightarrow> inv ctx (new @ h)"
  by (induction new) (auto intro: event)

lemma signal_spec:
  assumes "os_ok os" "inv ctx h"
  shows "runs (handle_signal_event os ctx h) (\<lambda>(ctx', h'). inv ctx' h' \<and> keeps_open {sig_fd ctx} h h' \<and> wired ctx ctx' \<and>
    (reads_signal os (sig_fd ctx) h \<longrightarrow> shutdown_req ctx'))"
proof -
  have "inv ctx (Read fd n r # replicate k (Read fd n e) @ h)" for fd n r k e
    by (rule events [OF assms(2), of "Read fd n r # replicate k (Read fd n e)", unfolded append_Cons]) auto
  moreover have "keeps_open {sig_fd ctx} h (Read fd n r # replicate k (Read fd n e) @ h)" for fd n r k e
    by (simp add: keeps_open_def)
  ultimately show ?thesis
    unfolding handle_signal_event_def
    by (auto simp: wired_def stop intro!: runs_mono [OF retry_read [OF os_okD(1) [OF assms(1)]]] split: sum.splits)
      (metis reads_signal_reads Inl_Inr_False Inr_inject)+
qed

lemma events_spec:
  assumes os: "os_ok os" and "inv ctx h"
  shows "runs (epoll_events os cb evs ctx h) (\<lambda>(ctx', h'). inv ctx' h' \<and> keeps_open {sig_fd ctx} h h' \<and> wired ctx ctx' \<and>
    (reads_signal os (sig_fd ctx) h \<longrightarrow> sig_fd ctx \<in> set evs \<longrightarrow> shutdown_req ctx'))"
  using assms(2)
proof (induction evs arbitrary: ctx h)
  case (Cons fd evs)
  define Q where "Q = (\<lambda>(ctx', h'). inv ctx' h' \<and> keeps_open {sig_fd ctx} h h' \<and> wired ctx ctx' \<and>
    (reads_signal os (sig_fd ctx) h \<longrightarrow> sig_fd ctx \<in> set (fd # evs) \<longrightarrow> shutdown_req ctx'))"
  have rest: "runs (epoll_events os cb evs c g) Q"
    if "inv c g" "keeps_open {sig_fd ctx} h g" "wired ctx c"
      "reads_signal os (sig_fd ctx) h \<longrightarrow> fd = sig_fd ctx \<longrightarrow> shutdown_req c" for c g
    using that reads_signal_ext [OF that(2)] unfolding Q_def
    by (intro runs_mono [OF Cons.IH [OF that(1)]]) (auto simp: wired_def intro: keeps_open_trans)
  have sig: "runs (handle_signal_event os ctx h) (\<lambda>x. runs (case x of (c, g) \<Rightarrow> epoll_events os cb evs c g) Q)"
    by (rule runs_mono [OF signal_spec [OF os Cons.prems]]) (auto intro: rest)
  have trg: "runs (handle_trigger_event cb ctx h) (\<lambda>x. runs (case x of (c, g) \<Rightarrow> epoll_events os cb evs c g) Q)" if "fd \<noteq> sig_fd ctx"
    using Cons.prems that rest [of ctx h] unfolding handle_trigger_event_def
    by (auto simp: wired_def intro!: runs_mono [OF call [OF os Cons.prems]] rest split: option.splits)
  show ?case
    unfolding Q_def [symmetric] using sig trg Cons.prems rest [of ctx h] by (auto simp: wired_def)
qed (auto simp: wired_def)

lemma error_spec:
  assumes "inv ctx h"
  shows "case epoll_error os err ctx t h of (ctx', h') \<Rightarrow> inv ctx' h' \<and> keeps_open {sig_fd ctx} h h' \<and> wired ctx ctx' \<and>
    (err \<noteq> EINTR \<longrightarrow> shutdown_req ctx')"
  using assms event [OF assms] by (auto simp: epoll_error_def sys_clock_def Let_def wired_def intro: stop pace keeps_open_Cons)

lemma iter_spec:
  assumes os: "os_ok os" and i: "inv ctx h"
  shows "runs (epoll_iter os cb ctx h) (\<lambda>(ctx', h'). inv ctx' h' \<and> keeps_open {sig_fd ctx} h h' \<and> wired ctx ctx' \<and> waits h < waits h' \<and>
    (signals os (epoll_fd ctx) (sig_fd ctx) N h \<longrightarrow> N \<le> waits h \<longrightarrow> shutdown_req ctx'))"
proof -
  define ws where "ws = os_clock os h CLOCK_MONOTONIC"
  define h1 where "h1 = Clock CLOCK_MONOTONIC ws # h"
  define r where "r = os_epoll_wait os h1 (epoll_fd ctx) 16 (next_wake ctx)"
  define h2 where "h2 = Epoll_wait (epoll_fd ctx) 16 (next_wake ctx) r # h1"
  have i2: "inv ctx h2" unfolding h2_def h1_def by (intro event i) simp_all
  define Q where "Q = (\<lambda>(ctx', h'). inv ctx' h' \<and> keeps_open {sig_fd ctx} h h' \<and> wired ctx ctx' \<and> waits h < waits h' \<and>
    (signals os (epoll_fd ctx) (sig_fd ctx) N h \<longrightarrow> N \<le> waits h \<longrightarrow> shutdown_req ctx'))"
  have sig: "signals os (epoll_fd ctx) (sig_fd ctx) N h \<longrightarrow> N \<le> waits h \<longrightarrow>
      (case r of Inl err \<Rightarrow> err \<noteq> EINTR | Inr evs \<Rightarrow> sig_fd ctx \<in> set evs) \<and>
      reads_signal os (sig_fd ctx) h2"
  proof -
    have ext: "keeps_open {sig_fd ctx} h h1" "keeps_open {sig_fd ctx} h h2" by (auto simp: h1_def h2_def intro!: keeps_open_Cons)
    have w: "waits h1 = waits h" by (simp add: h1_def)
    show ?thesis unfolding signals_def r_def
      using ext w reads_signal_ext by (metis (no_types, lifting))
  qed
  have Q: "Q (ctx', h')" if "inv ctx' h'" "keeps_open {sig_fd ctx} h2 h'" "wired ctx ctx'"
    "signals os (epoll_fd ctx) (sig_fd ctx) N h \<longrightarrow> N \<le> waits h \<longrightarrow> shutdown_req ctx'" for ctx' h'
  proof -
    have k: "keeps_open {sig_fd ctx} h2 h'" by (rule that(2))
    obtain new where "h' = new @ h2" using keeps_open_new [OF k] by blast
    then have "Suc (waits h) \<le> waits h'" using waits_append [of h2 new] by (simp add: h2_def h1_def)
    moreover have "keeps_open {sig_fd ctx} h h2" by (auto simp: h1_def h2_def intro!: keeps_open_Cons)
    then have "keeps_open {sig_fd ctx} h h'" using k by (rule keeps_open_trans)
    ultimately show ?thesis using that unfolding Q_def by simp
  qed
  have e: "epoll_iter os cb ctx h = (case r of Inl err \<Rightarrow> Some (epoll_error os err ctx ws h2)
     | Inr evs \<Rightarrow> if evs = [] then (case on_timeout ctx of Some f \<Rightarrow> cb f ctx h2 | None \<Rightarrow> Some (ctx, h2)) else epoll_events os cb evs ctx h2)"
    unfolding epoll_iter_def sys_clock_def sys_epoll_wait_def Let_def prod.case ws_def h1_def r_def h2_def by (rule refl)
  show ?thesis
  proof (cases r)
    case (Inl err)
    show ?thesis
      using error_spec [OF i2, of err ws] sig Inl unfolding e Inl Q_def [symmetric] by (auto intro!: Q)
  next
    case (Inr evs)
    have idle: "Q (ctx, h2)" if "evs = []" using i2 sig that Inr by (intro Q) (auto simp: wired_def)
    have timeout: "runs (cb f ctx h2) Q" if "evs = []" for f
      using sig that Inr by (intro runs_mono [OF call [OF os i2]]) (auto simp: wired_def intro!: Q)
    have evs: "runs (epoll_events os cb evs ctx h2) Q"
      using sig Inr by (intro runs_mono [OF events_spec [OF os i2]]) (auto intro!: Q)
    show ?thesis
      unfolding e Inr Q_def [symmetric] using idle timeout evs by (auto split: option.splits)
  qed
qed

lemma iters_spec:
  assumes os: "os_ok os"
  shows "inv ctx h \<Longrightarrow> runs (epoll_iters n os cb ctx h) (\<lambda>(ctx', h'). inv ctx' h' \<and> keeps_open {sig_fd ctx} h h' \<and> wired ctx ctx' \<and>
    (shutdown_req ctx' \<or> waits h + n \<le> waits h'))"
proof (induction n arbitrary: ctx h)
  case (Suc n)
  define Q where "Q = (\<lambda>(ctx', h'). inv ctx' h' \<and> keeps_open {sig_fd ctx} h h' \<and> wired ctx ctx' \<and>
    (shutdown_req ctx' \<or> waits h + Suc n \<le> waits h'))"
  have rest: "runs (epoll_iters n os cb c g) Q" if "inv c g" "keeps_open {sig_fd ctx} h g" "wired ctx c" "waits h < waits g" for c g
    using that wiredD(2) [OF that(3)] unfolding Q_def
    by (intro runs_mono [OF Suc.IH [OF that(1)]]) (auto intro: wired_trans keeps_open_trans)
  have ended: "Q (ctx, h)" if "shutdown_req ctx" using that Suc.prems by (simp add: Q_def)
  show ?case
    unfolding Q_def [symmetric]
    using ended by (auto intro!: runs_mono [OF iter_spec [OF os Suc.prems, of 0]] rest)
qed simp

lemma iters_stop:
  assumes os: "os_ok os"
  shows "inv ctx h \<Longrightarrow> N \<le> waits h + n \<Longrightarrow> signals os (epoll_fd ctx) (sig_fd ctx) N h \<Longrightarrow>
    runs (epoll_iters (Suc n) os cb ctx h) (\<lambda>(ctx', h'). shutdown_req ctx' \<and> inv ctx' h' \<and> keeps_open {sig_fd ctx} h h' \<and> wired ctx ctx')"
proof (induction n arbitrary: ctx h)
  case 0
  then show ?case
    by (auto intro!: runs_mono [OF iter_spec [OF os 0(1), of N]])
next
  case (Suc n)
  define Q where "Q = (\<lambda>(ctx', h'). shutdown_req ctx' \<and> inv ctx' h' \<and> keeps_open {sig_fd ctx} h h' \<and> wired ctx ctx')"
  have rest: "runs (epoll_iters (Suc n) os cb c g) Q" if "inv c g" "keeps_open {sig_fd ctx} h g" "wired ctx c" "waits h < waits g" for c g
    using that Suc.prems wiredD [OF that(3)] signals_ext [OF that(2), of os "epoll_fd ctx" N] unfolding Q_def
    by (intro runs_mono [OF Suc.IH [OF that(1)]]) (auto intro: wired_trans keeps_open_trans)
  have ended: "Q (ctx, h)" if "shutdown_req ctx" using that Suc.prems by (simp add: Q_def)
  show ?case
    unfolding Q_def [symmetric] epoll_iters.simps(2) [of "Suc n"]
    using ended by (auto simp del: epoll_iters.simps intro!: runs_mono [OF iter_spec [OF os Suc.prems(1), of 0]] rest)
qed

text \<open>Once the signal arrives the loop ends, with the invariant kept.\<close>

lemma loop_stops:
  assumes os: "os_ok os" and s: "signals os (epoll_fd ctx) (sig_fd ctx) N h" and i: "inv ctx h"
  shows "runs (epoll_loop os cb ctx h) (\<lambda>(ctx', h'). shutdown_req ctx' \<and>
    inv ctx' h' \<and> keeps_open {sig_fd ctx} h h' \<and> wired ctx ctx')"
  by (rule epoll_loop_iters [OF iters_stop [OF os i _ s, of N]]) simp

end

section \<open>Setting up\<close>

lemma setup_spec:
  assumes os: "os_ok os"
  shows "case epoll_setup os ctx h of (ret, ctx', h') \<Rightarrow> grows quiet h h' \<and>
    (if ret < 0 then ctx' = ctx\<lparr>epoll_fd := - 1\<rparr> \<and> balanced h h'
    else ret = 0 \<and> (\<exists>ep. ctx' = ctx\<lparr>epoll_fd := ep\<rparr> \<and> 0 \<le> ep \<and> ep \<notin> open_fds h \<and> open_fds h' = insert ep (open_fds h) \<and>
      keeps_open (open_fds h) h h'))"
proof (cases "os_epoll_create os h")
  case (Inl err)
  then have "0 < err" using os_okD(5) [OF os] by (simp add: errno_ok_def)
  then show ?thesis by (auto simp: epoll_setup_def sys_epoll_create_def Let_def Inl)
next
  case (Inr ep)
  then have ep: "0 \<le> ep" "ep \<notin> open_fds h" using os_okD(3) [OF os] by (auto simp: fds_valid_def)
  have pos: "0 < err" if "os_epoll_ctl os g e c fd = Inl err" for g e c fd err
    using os_okD(5) [OF os] that unfolding errno_ok_def by metis
  define g where "g = Epoll_create (Inr ep) # h"
  define r where "r = os_epoll_ctl os g ep EPOLL_CTL_ADD (sig_fd ctx)"
  define g1 where "g1 = Epoll_ctl ep EPOLL_CTL_ADD (sig_fd ctx) r # g"
  define r2 where "r2 = os_epoll_ctl os g1 ep EPOLL_CTL_ADD (trg_fd ctx)"
  define g2 where "g2 = Epoll_ctl ep EPOLL_CTL_ADD (trg_fd ctx) r2 # g1"
  have b1: "balanced g g1" unfolding g1_def by (rule balanced_Cons [OF balanced_refl]) simp
  have b2: "balanced g g2" unfolding g2_def using b1 by (rule balanced_Cons) simp
  have close: "balanced h (Close ep # g')" if "balanced g g'" for g'
    using ep(2) that unfolding g_def by (intro balanced_bracket) auto
  have q: "grows quiet h g1" "grows quiet h g2" unfolding g2_def g1_def g_def by (intro grows_Cons grows_refl; simp)+
  have open_fds: "open_fds g' = insert ep (open_fds h) \<and> keeps_open (open_fds h) h g'" if "balanced g g'" for g'
  proof -
    have "keeps_open (open_fds h) h g" using ep(2) by (auto simp: g_def)
    moreover have "keeps_open (open_fds h) g g'" by (rule balanced_keeps [OF that]) (auto simp: g_def)
    ultimately have "keeps_open (open_fds h) h g'" by (rule keeps_open_trans)
    then show ?thesis using balanced_fds [OF that] by (simp add: g_def)
  qed
  have e: "epoll_setup os ctx h = (case r of Inl err \<Rightarrow> (- err, ctx\<lparr>epoll_fd := - 1\<rparr>, Close ep # g1)
      | Inr u \<Rightarrow> if 0 \<le> trg_fd ctx then (case r2 of Inl err \<Rightarrow> (- err, ctx\<lparr>epoll_fd := - 1\<rparr>, Close ep # g2) | Inr u \<Rightarrow> (0, ctx\<lparr>epoll_fd := ep\<rparr>, g2))
        else (0, ctx\<lparr>epoll_fd := ep\<rparr>, g1))"
  proof -
    have c0: "sys_epoll_create os h = (Inr ep, g)" by (simp add: sys_epoll_create_def Inr g_def Let_def)
    have c1: "sys_epoll_ctl os ep EPOLL_CTL_ADD (sig_fd ctx) g = (r, g1)" by (simp add: sys_epoll_ctl_def r_def g1_def Let_def)
    have c2: "pg_epoll_add_trg os (ctx\<lparr>epoll_fd := ep\<rparr>) g1 = (case r2 of Inl err \<Rightarrow> - err | Inr u \<Rightarrow> 0, g2)" if "0 \<le> trg_fd ctx"
      using ep(1) that by (simp add: pg_epoll_add_trg_def sys_epoll_ctl_def r2_def g2_def Let_def)
    have neg: "0 < err" if "r2 = Inl err" for err using pos that unfolding r2_def by blast
    show ?thesis
      unfolding epoll_setup_def c0 prod.case sum.case Let_def
      by (cases r; cases r2; cases "0 \<le> trg_fd ctx") (simp_all add: c1 c2 sys_close_def neg)
  qed
  have p: "0 < err" if "r = Inl err \<or> r2 = Inl err" for err using that pos unfolding r_def r2_def by blast
  show ?thesis
    unfolding e using p ep q close [OF b1] close [OF b2] open_fds [OF b1] open_fds [OF b2]
    by (auto split: sum.splits)
qed

context reactor
begin

lemma run_stops:
  assumes os: "os_ok os" and r: "epoll_setup os ctx h = (ret, c, g)"
    and ok: "0 \<le> ret \<Longrightarrow> inv c g" "0 \<le> ret \<Longrightarrow> signals os (epoll_fd c) (sig_fd c) N g"
  shows "runs (pg_epoll_run os cb ctx h) (\<lambda>(ret', c', h'). if ret < 0 then ret' = ret \<and> c' = c \<and> h' = g
    else ret' = 0 \<and> (\<exists>c2 g2. inv c2 g2 \<and> wired c c2 \<and> shutdown_req c2 \<and> keeps_open {sig_fd c} g g2 \<and>
      c' = c2\<lparr>epoll_fd := - 1\<rparr> \<and> h' = Close (epoll_fd c2) # g2))"
proof (cases "ret < 0")
  case True
  then show ?thesis by (simp add: pg_epoll_run_def r)
next
  case False
  then have "runs (epoll_loop os cb c g) (\<lambda>(ctx', h'). shutdown_req ctx' \<and> inv ctx' h' \<and> keeps_open {sig_fd c} g h' \<and> wired c ctx')"
    using ok by (intro loop_stops [OF os]) simp_all
  then show ?thesis
    using False by (auto simp: pg_epoll_run_def r sys_close_def elim!: runs_mono)
qed

end

end
