(* ===== verification/Pg_Fs.thy ===== *)
theory Pg_Fs
  imports Pg_Os
begin

text \<open>
  The directory walk of \<^verbatim>\<open>src/sys/fs.c\<close>.  The callback is a parameter of the model as it is of the
  code; its context is a state \<open>'s\<close> that is passed along.  The buffer of \<^verbatim>\<open>getdents64\<close> is the list of the
  records in it.  The interface of a callback is the locale \<open>visitor\<close>: under its laws a walk
  returns, leaves every descriptor as it found it, and removes only what the callback told it to.
\<close>

section \<open>The walk\<close>

abbreviation (input) DT_UNKNOWN :: u8 where "DT_UNKNOWN \<equiv> 0"
abbreviation (input) DT_DIR :: u8 where "DT_DIR \<equiv> 4"
abbreviation (input) DT_REG :: u8 where "DT_REG \<equiv> 8"
abbreviation (input) DT_LNK :: u8 where "DT_LNK \<equiv> 10"

datatype pg_fs_act = FS_KEEP | FS_DELETE | FS_STOP

type_synonym 's pg_fs_cb = "int \<Rightarrow> string \<Rightarrow> u8 \<Rightarrow> int \<Rightarrow> 's \<Rightarrow> hist \<Rightarrow> (pg_fs_act \<times> 's \<times> hist) option"

text \<open>The type of an entry: a file system that does not tell it is asked for a directory only.\<close>

definition entry_type :: "os \<Rightarrow> int \<Rightarrow> linux_dirent64 \<Rightarrow> hist \<Rightarrow> u8 \<times> hist" where
  "entry_type os dfd d h =
     (if d_type d = DT_UNKNOWN
      then case sys_fstatat os dfd (d_name d) h of
             (Inr st, h) \<Rightarrow> (if S_ISDIR (st_mode st) then DT_DIR else d_type d, h)
           | (Inl err, h) \<Rightarrow> (d_type d, h)
      else (d_type d, h))"

definition fs_dirent ::
    "os \<Rightarrow> 's pg_fs_cb \<Rightarrow> (int \<Rightarrow> 's \<Rightarrow> hist \<Rightarrow> (int \<times> 's \<times> hist) option) \<Rightarrow> int \<Rightarrow> int \<Rightarrow>
      linux_dirent64 \<Rightarrow> 's \<Rightarrow> hist \<Rightarrow> (int \<times> 's \<times> hist) option" where
  "fs_dirent os cb walk_sub dfd cur_depth d ctx h =
     (if d_name d = ''.'' \<or> d_name d = ''..'' then Some (0, ctx, h)
      else if d_type d = DT_LNK then Some (0, ctx, h)
      else let (dtype, h) = entry_type os dfd d h in do {
        (act, ctx, h) \<leftarrow> cb dfd (d_name d) dtype cur_depth ctx h;
        if act = FS_STOP then Some (- ECANCELED, ctx, h)
        else if act = FS_DELETE
        then let (_, h) = sys_unlinkat os dfd (d_name d) (dtype = DT_DIR) h in Some (0, ctx, h)
        else if dtype = DT_DIR
        then case sys_openat os dfd (d_name d) h of
               (Inl err, h) \<Rightarrow> Some (0, ctx, h)
             | (Inr sfd, h) \<Rightarrow> do {
                 (stop, ctx, h) \<leftarrow> walk_sub sfd ctx h;
                 let h = sys_close sfd h;
                 Some (stop, ctx, h)
               }
        else Some (0, ctx, h)
      })"

text \<open>
  The two loops over a directory: the records of one buffer, left early by a result other than 0
  (or by a record of length 0), and the buffers until the directory ends or cannot be read.
\<close>

fun dents_loop :: "(linux_dirent64 \<Rightarrow> 's \<Rightarrow> hist \<Rightarrow> (int \<times> 's \<times> hist) option) \<Rightarrow>
    linux_dirent64 list \<Rightarrow> 's \<Rightarrow> hist \<Rightarrow> (int \<times> 's \<times> hist) option" where
  "dents_loop body [] ctx h = Some (0, ctx, h)"
| "dents_loop body (d # ds) ctx h =
     (if d_reclen d = 0 then Some (0, ctx, h)
      else do {
        (ret, ctx, h) \<leftarrow> body d ctx h;
        if ret \<noteq> 0 then Some (ret, ctx, h) else dents_loop body ds ctx h
      })"

partial_function (option) getdents_loop :: "os \<Rightarrow> int \<Rightarrow> nat \<Rightarrow>
    (linux_dirent64 \<Rightarrow> 's \<Rightarrow> hist \<Rightarrow> (int \<times> 's \<times> hist) option) \<Rightarrow> 's \<Rightarrow> hist \<Rightarrow> (int \<times> 's \<times> hist) option" where
  "getdents_loop os dfd bufsz body ctx h = do {
     (nread, h) \<leftarrow> retry_eintr (sys_getdents os dfd bufsz) h;
     case nread of
       Inl err \<Rightarrow> Some (- err, ctx, h)
     | Inr ds \<Rightarrow>
         if ds = [] then Some (0, ctx, h)
         else do {
           (ret, ctx, h) \<leftarrow> dents_loop body ds ctx h;
           if ret \<noteq> 0 then Some (ret, ctx, h) else getdents_loop os dfd bufsz body ctx h
         }
   }"

function walk :: "os \<Rightarrow> 's pg_fs_cb \<Rightarrow> int \<Rightarrow> int \<Rightarrow> int \<Rightarrow> 's \<Rightarrow> hist \<Rightarrow> (int \<times> 's \<times> hist) option" where
  "walk os cb max_depth cur_depth dfd ctx h =
     (if max_depth < cur_depth then Some (0, ctx, h)
      else getdents_loop os dfd 8192
             (fs_dirent os cb (walk os cb max_depth (cur_depth + 1)) dfd cur_depth) ctx h)"
  by pat_completeness auto
termination
  by (relation "measure (\<lambda>(os, cb, max_depth, cur_depth, _). nat (max_depth + 1 - cur_depth))") auto

declare walk.simps [simp del]

definition pg_fs_walk_fd :: "os \<Rightarrow> int \<Rightarrow> 's pg_fs_cb \<Rightarrow> 's \<Rightarrow> int \<Rightarrow> hist \<Rightarrow> (int \<times> 's \<times> hist) option" where
  "pg_fs_walk_fd os dfd cb ctx max_depth h =
     (if dfd < 0 then Some (- EBADF, ctx, h)
      else if max_depth < 0 then Some (- EINVAL, ctx, h)
      else walk os cb max_depth 0 dfd ctx h)"

definition pg_fs_walk :: "os \<Rightarrow> string \<Rightarrow> 's pg_fs_cb \<Rightarrow> 's \<Rightarrow> int \<Rightarrow> hist \<Rightarrow> (int \<times> 's \<times> hist) option" where
  "pg_fs_walk os path cb ctx max_depth h =
     (if max_depth < 0 then Some (- EINVAL, ctx, h)
      else case sys_open os path [O_RDONLY, O_DIRECTORY, O_NOFOLLOW, O_CLOEXEC, O_NOATIME] h of
             (Inl err, h) \<Rightarrow> Some (- err, ctx, h)
           | (Inr fd, h) \<Rightarrow> do {
               (ret, ctx, h) \<leftarrow> pg_fs_walk_fd os fd cb ctx max_depth h;
               let h = sys_close fd h;
               Some (ret, ctx, h)
             })"

section \<open>The two loops\<close>

lemma dents_loop_spec:
  assumes body: "\<And>d ctx h. ok ctx \<Longrightarrow> dfd \<in> open_fds h \<Longrightarrow>
      runs (body d ctx h) (\<lambda>(ret, ctx', h'). ok ctx' \<and> tame D h h')"
    and "ok ctx" "dfd \<in> open_fds h"
  shows "runs (dents_loop body ds ctx h) (\<lambda>(ret, ctx', h'). ok ctx' \<and> tame D h h')"
  using assms(2,3)
proof (induction ds arbitrary: ctx h)
  case (Cons d ds)
  have "runs (dents_loop body ds ctx' h') (\<lambda>(ret, ctx'', h''). ok ctx'' \<and> tame D h h'')"
    if "ok ctx'" "tame D h h'" for ctx' h'
    using that Cons.prems(2) by (intro runs_mono [OF Cons.IH [of ctx' h']]) (auto simp: tame_fds intro: tame_trans)
  then show ?case
    using Cons.prems by (auto intro!: runs_mono [OF body])
qed simp

text \<open>
  The outer loop ends because the directory does: every round but the last took a record, and the
  body does not start the directory over.
\<close>

lemma getdents_loop_spec:
  assumes os: "os_ok os"
    and body: "\<And>d ctx h. ok ctx \<Longrightarrow> dfd \<in> open_fds h \<Longrightarrow>
      runs (body d ctx h) (\<lambda>(ret, ctx', h'). ok ctx' \<and> tame D h h')"
    and "ok ctx" "dfd \<in> open_fds h"
  shows "runs (getdents_loop os dfd bufsz body ctx h) (\<lambda>(ret, ctx', h'). ok ctx' \<and> tame D h h')"
proof -
  obtain N where N: "\<And>h fd n d ds. N \<le> blocks fd h \<Longrightarrow> os_getdents os h fd n \<noteq> Inr (d # ds)"
    using os_okD(6) [OF os] unfolding dirs_finite_def by blast
  show ?thesis
    using assms(3,4)
  proof (induction "N - blocks dfd h" arbitrary: ctx h rule: less_induct)
    case less
    define Q where "Q = (\<lambda>(ret :: int, ctx', h'). ok ctx' \<and> tame D h h')"
    have next_block: "runs (getdents_loop os dfd bufsz body ctx' h') Q"
      if "ok ctx'" "tame D (Getdents dfd bufsz (Inr (d # ds)) # pre @ h) h'" "grows inert h (pre @ h)"
        "os_getdents os (pre @ h) dfd bufsz = Inr (d # ds)" for ctx' h' d ds pre
    proof -
      have pre: "tame D h (pre @ h)" using that(3) by (rule tame_grows)
      have t: "tame D h (Getdents dfd bufsz (Inr (d # ds)) # pre @ h)"
        by (rule tame_Cons [OF pre]) (simp add: inert_def)
      have o: "dfd \<in> open_fds (pre @ h)" using pre less.prems(2) by (simp add: tame_fds)
      then have "Suc (blocks dfd (pre @ h)) \<le> blocks dfd h'"
        using that(2) balanced_blocks [of "Getdents dfd bufsz (Inr (d # ds)) # pre @ h" h' dfd] by (simp add: tame_def)
      moreover have "blocks dfd h \<le> blocks dfd (pre @ h)"
        using pre less.prems(2) by (simp add: tame_def balanced_blocks)
      moreover have "blocks dfd (pre @ h) < N" using N [of dfd "pre @ h"] that(4) by (meson not_le)
      ultimately have "N - blocks dfd h' < N - blocks dfd h" by linarith
      moreover have t': "tame D h h'" using t that(2) by (rule tame_trans)
      moreover have "dfd \<in> open_fds h'" using t' less.prems(2) by (simp add: tame_fds)
      ultimately show ?thesis
        unfolding Q_def using that(1)
        by (intro runs_mono [OF less.hyps [of h' ctx']]) (auto intro: tame_trans)
    qed
    have round: "runs (do { (ret, ctx, h) \<leftarrow> dents_loop body ds ctx (Getdents dfd bufsz (Inr ds) # pre @ h);
        if ret \<noteq> 0 then Some (ret, ctx, h) else getdents_loop os dfd bufsz body ctx h }) Q"
      if "ds \<noteq> []" "grows inert h (pre @ h)" "os_getdents os (pre @ h) dfd bufsz = Inr ds" for ds pre
    proof -
      obtain d ds' where ds: "ds = d # ds'" using \<open>ds \<noteq> []\<close> by (cases ds) auto
      have pre: "tame D h (Getdents dfd bufsz (Inr ds) # pre @ h)"
        by (rule tame_Cons [OF tame_grows [OF that(2)]]) (simp add: inert_def)
      then have "dfd \<in> open_fds (Getdents dfd bufsz (Inr ds) # pre @ h)"
        using less.prems(2) tame_fds [OF pre] by simp
      then have loop: "runs (dents_loop body ds ctx (Getdents dfd bufsz (Inr ds) # pre @ h))
          (\<lambda>(ret, ctx', h'). ok ctx' \<and> tame D (Getdents dfd bufsz (Inr ds) # pre @ h) h')"
        using less.prems(1) by (intro dents_loop_spec body) auto
      show ?thesis
        by (simp only: runs_simps, rule runs_mono [OF loop])
          (use next_block pre that ds in \<open>auto simp: Q_def intro: tame_trans split: prod.splits\<close>)
    qed
    have rep: "grows inert h (replicate k (Getdents dfd bufsz (Inl EINTR)) @ h)" for k
      by (auto simp: inert_def)
    have err: "tame D h (Getdents dfd bufsz r # replicate k (Getdents dfd bufsz (Inl EINTR)) @ h)" for r k
      by (rule tame_Cons [OF tame_grows [OF rep]]) (simp add: inert_def)
    show ?case
      unfolding Q_def [symmetric]
      by (subst getdents_loop.simps, simp only: runs_simps, rule runs_mono [OF retry_getdents [OF os_okD(1) [OF os]]])
        (use round rep err less.prems(1) in \<open>auto simp: Q_def split: sum.splits\<close>)
  qed
qed

section \<open>Reading a directory by name\<close>

text \<open>
  \<open>while ((entry = readdir(dir)) != NULL)\<close>, the loop of \<^verbatim>\<open>scan.c\<close> and \<^verbatim>\<open>block.c\<close>; its body says
  whether to go on.
\<close>

partial_function (option) readdir_loop :: "os \<Rightarrow> int \<Rightarrow>
    (string \<Rightarrow> 's \<Rightarrow> hist \<Rightarrow> (bool \<times> 's \<times> hist) option) \<Rightarrow> 's \<Rightarrow> hist \<Rightarrow> ('s \<times> hist) option" where
  "readdir_loop os dir body s h =
     (case sys_readdir os dir h of
        (None, h) \<Rightarrow> Some (s, h)
      | (Some name, h) \<Rightarrow> do {
          (go_on, s, h) \<leftarrow> body name s h;
          if go_on then readdir_loop os dir body s h else Some (s, h)
        })"

text \<open>
  The body may be anything that returns, keeps \<open>ok\<close> while it goes on (and has \<open>fin\<close> when it stops) and a
  relation \<open>R\<close>, and opens no directory.
\<close>

lemma readdir_loop_spec:
  assumes os: "os_ok os"
    and body: "\<And>name s h. ok s h \<Longrightarrow> runs (body name s (Readdir dir (Some name) # h))
      (\<lambda>(go_on, s', h'). (if go_on then ok s' h' else fin s' h') \<and> R (Readdir dir (Some name) # h) h' \<and> grows no_opendir (Readdir dir (Some name) # h) h')"
    and R: "\<And>h h' h''. R h h' \<Longrightarrow> R h' h'' \<Longrightarrow> R h h''" "\<And>r h. R h (Readdir dir r # h)"
    and stays: "\<And>s h. ok s h \<Longrightarrow> fin s (Readdir dir None # h)"
    and "ok s h"
  shows "runs (readdir_loop os dir body s h) (\<lambda>(s', h'). fin s' h' \<and> R h h' \<and> grows no_opendir h h')"
proof -
  obtain N where N: "\<And>h d e. N \<le> entries d h \<Longrightarrow> os_readdir os h d \<noteq> Some e"
    using os_okD(6) [OF os] unfolding dirs_finite_def by blast
  show ?thesis
    using \<open>ok s h\<close>
  proof (induction "N - entries dir h" arbitrary: s h rule: less_induct)
    case less
    define Q where "Q = (\<lambda>(s', h'). fin s' h' \<and> R h h' \<and> grows no_opendir h h')"
    have one: "grows no_opendir h (Readdir dir r # h)" for r by (simp add: no_opendir_def)
    show ?case
    proof (cases "os_readdir os h dir")
      case None
      then show ?thesis
        using stays [OF less.prems] one R(2) by (subst readdir_loop.simps) (simp add: sys_readdir_def Let_def)
    next
      case (Some name)
      then have n: "entries dir h < N" using N by (meson not_le)
      let ?g = "Readdir dir (Some name) # h"
      have trans: "R h h' \<and> grows no_opendir h h'" if "R ?g h'" "grows no_opendir ?g h'" for h'
        using R(1) [OF R(2) that(1)] grows_trans [OF one that(2)] by blast
      have more: "runs (readdir_loop os dir body s' h') Q" if "ok s' h'" "R ?g h'" "grows no_opendir ?g h'" for s' h'
      proof -
        have "Suc (entries dir h) \<le> entries dir h'" using entries_grows [OF that(3), of dir] by simp
        then have "N - entries dir h' < N - entries dir h" using n by linarith
        then show ?thesis
          unfolding Q_def using that(1) trans [OF that(2,3)]
          by (intro runs_mono [OF less.hyps [of h' s']]) (auto intro: R(1) grows_trans)
      qed
      have stop: "Q (s', h')" if "fin s' h'" "R ?g h'" "grows no_opendir ?g h'" for s' h'
        unfolding Q_def using that(1) trans [OF that(2,3)] by simp
      have "runs (readdir_loop os dir body s h) Q"
        using Some more stop
        by (subst readdir_loop.simps)
          (auto simp: sys_readdir_def Let_def intro!: runs_mono [OF body [OF less.prems]])
      then show ?thesis by (simp only: Q_def)
    qed
  qed
qed

section \<open>The interface of a callback\<close>

text \<open>
  What a callback promises: from a good context it returns in a good context, gives back the
  descriptors it opened, removes nothing itself that \<open>D\<close> does not allow, and asks only for removals
  that \<open>D\<close> allows.
\<close>

locale visitor =
  fixes os :: os and cb :: "'s pg_fs_cb" and ok :: "'s \<Rightarrow> bool"
    and D :: "int \<Rightarrow> string \<Rightarrow> bool \<Rightarrow> hist \<Rightarrow> bool"
  assumes visit: "os_ok os \<Longrightarrow> ok ctx \<Longrightarrow> runs (cb dfd name ty depth ctx h) (\<lambda>(act, ctx', h'). ok ctx' \<and> tame D h h' \<and>
      (act = FS_DELETE \<longrightarrow> D dfd name (ty = DT_DIR) h'))"
begin

lemma entry_type_tame: "tame D h (snd (entry_type os dfd d h))"
  by (auto simp: entry_type_def sys_fstatat_def Let_def inert_def intro!: tame_Cons split: sum.splits)

lemma dirent_spec:
  assumes env: "os_ok os"
    and sub: "\<And>sfd ctx h. ok ctx \<Longrightarrow> sfd \<in> open_fds h \<Longrightarrow>
      runs (walk_sub sfd ctx h) (\<lambda>(ret, ctx', h'). ok ctx' \<and> tame D h h')"
    and "ok ctx"
  shows "runs (fs_dirent os cb walk_sub dfd depth d ctx h) (\<lambda>(ret, ctx', h'). ok ctx' \<and> tame D h h')"
proof -
  define Q where "Q = (\<lambda>(ret :: int, ctx', h'). ok ctx' \<and> tame D h h')"
  obtain ty g where e: "entry_type os dfd d h = (ty, g)" by (cases "entry_type os dfd d h")
  then have g: "tame D h g" using entry_type_tame [of h dfd d] by simp
  have open_sub: "runs (case sys_openat os dfd (d_name d) h' of
        (Inl err, h) \<Rightarrow> Some (0, ctx', h)
      | (Inr sfd, h) \<Rightarrow> do { (stop, ctx, h) \<leftarrow> walk_sub sfd ctx' h; let h = sys_close sfd h; Some (stop, ctx, h) }) Q"
    if t: "tame D h h'" and c: "ok ctx'" for ctx' h'
  proof (cases "os_openat os h' dfd (d_name d)")
    case (Inl err)
    then show ?thesis using t c by (auto simp: sys_openat_def Let_def Q_def inert_def intro!: tame_Cons)
  next
    case (Inr sfd)
    let ?o = "Openat dfd (d_name d) (Inr sfd) # h'"
    have "runs (walk_sub sfd ctx' ?o) (\<lambda>(ret, ctx'', h''). ok ctx'' \<and> tame D ?o h'')"
      by (rule sub [OF c]) simp
    then show ?thesis
      using Inr fresh_fd(2) [OF env Inr] t
      by (auto simp: sys_openat_def sys_close_def Let_def Q_def elim!: runs_mono intro: tame_trans [OF t tame_openat])
  qed
  have obey: "runs (if act = FS_STOP then Some (- ECANCELED, ctx', h')
      else if act = FS_DELETE
      then let (_, h) = sys_unlinkat os dfd (d_name d) (ty = DT_DIR) h' in Some (0, ctx', h)
      else if ty = DT_DIR
      then case sys_openat os dfd (d_name d) h' of
          (Inl err, h) \<Rightarrow> Some (0, ctx', h)
        | (Inr sfd, h) \<Rightarrow> do { (stop, ctx, h) \<leftarrow> walk_sub sfd ctx' h; let h = sys_close sfd h; Some (stop, ctx, h) }
      else Some (0, ctx', h')) Q"
    if "ok ctx'" "tame D g h'" "act = FS_DELETE \<longrightarrow> D dfd (d_name d) (ty = DT_DIR) h'" for act ctx' h'
  proof -
    have t: "tame D h h'" using g that(2) by (rule tame_trans)
    then show ?thesis
      using that open_sub [OF t that(1)]
      by (cases act) (auto simp: sys_unlinkat_def Let_def Q_def tame_delete)
  qed
  show ?thesis
    unfolding Q_def [symmetric] fs_dirent_def e Let_def prod.case
    using g assms(3) obey [unfolded Let_def]
    by (auto simp: Q_def intro!: runs_mono [OF visit [OF env]] simp del: if_split)
qed

lemma walk_spec:
  assumes env: "os_ok os" and "ok ctx" "dfd \<in> open_fds h"
  shows "runs (walk os cb max_depth cur_depth dfd ctx h) (\<lambda>(ret, ctx', h'). ok ctx' \<and> tame D h h')"
  using assms(2,3)
proof (induction "nat (max_depth + 1 - cur_depth)" arbitrary: cur_depth dfd ctx h rule: less_induct)
  case less
  show ?case
  proof (cases "max_depth < cur_depth")
    case True
    then show ?thesis using less.prems by (subst walk.simps) simp
  next
    case False
    have sub: "runs (walk os cb max_depth (cur_depth + 1) sfd ctx h) (\<lambda>(ret, ctx', h'). ok ctx' \<and> tame D h h')"
      if "ok ctx" "sfd \<in> open_fds h" for sfd ctx h
      using False that by (intro less.hyps) auto
    show ?thesis
      using False less.prems
      by (subst walk.simps) (auto intro!: getdents_loop_spec [OF env] dirent_spec [OF env] sub)
  qed
qed

lemma walk_fd_spec:
  assumes "os_ok os" "ok ctx" "dfd \<in> open_fds h"
  shows "runs (pg_fs_walk_fd os dfd cb ctx max_depth h) (\<lambda>(ret, ctx', h'). ok ctx' \<and> tame D h h')"
  using assms walk_spec by (simp add: pg_fs_walk_fd_def)

lemma walk_path_spec:
  assumes env: "os_ok os" and "ok ctx"
  shows "runs (pg_fs_walk os path cb ctx max_depth h) (\<lambda>(ret, ctx', h'). ok ctx' \<and> tame D h h')"
proof (cases "os_open os h path [O_RDONLY, O_DIRECTORY, O_NOFOLLOW, O_CLOEXEC, O_NOATIME]")
  case (Inl err)
  then show ?thesis
    using assms by (auto simp: pg_fs_walk_def sys_open_def Let_def inert_def intro!: tame_Cons)
next
  case (Inr fd)
  show ?thesis
    unfolding pg_fs_walk_def sys_open_def Let_def Inr
    using assms fresh_fd(1) [OF env Inr]
    by (auto simp: sys_close_def intro!: runs_mono [OF walk_fd_spec [OF env]] intro: tame_open)
qed

end

end
