(* ===== verification/Pg_Topo.thy ===== *)
theory Pg_Topo
  imports Pg_Sysfs
begin

text \<open>
  The topology of the machine, \<^verbatim>\<open>src/sys/topo.c\<close>: how many processors there are, how fast and how
  large they are, and the affinity mask of the small ones.  A \<open>cpu_set_t\<close> is a set of indices.  The
  lemmas give the mask of \<open>build_cpuset\<close> as the processors with the least positive reading.
\<close>

section \<open>Paths\<close>

abbreviation (input) CPU_CAPACITY :: string where
  "CPU_CAPACITY \<equiv> ''/sys/devices/system/cpu/cpu%d/cpu_capacity''"
abbreviation (input) CPU_MAX_FREQ :: string where
  "CPU_MAX_FREQ \<equiv> ''/sys/devices/system/cpu/cpu%d/cpufreq/cpuinfo_max_freq''"
abbreviation (input) CPU_SETSIZE :: int where "CPU_SETSIZE \<equiv> 1024"

text \<open>\<open>out\<close> is what the buffer holds so far, \<open>length out\<close> is \<open>pos\<close>.\<close>

function format_loop :: "nat \<Rightarrow> string \<Rightarrow> i32 \<Rightarrow> string \<Rightarrow> string" where
  "format_loop buf_len [] cpu out = out"
| "format_loop buf_len (c # cs) cpu out =
     (if c = CHR ''%'' \<and> cs \<noteq> [] \<and> hd cs = CHR ''d''
      then if buf_len \<le> length out + 11 then out else format_loop buf_len (tl cs) cpu (out @ pg_fmt_u32 cpu)
      else if buf_len \<le> length out + 1 then out
      else format_loop buf_len cs cpu (out @ [c]))"
  by pat_completeness auto
termination
  by (relation "measure (\<lambda>(_, fmt, _). length fmt)") auto

text \<open>A buffer of length 0 is left alone; no caller has one.\<close>

definition format_path :: "nat \<Rightarrow> string \<Rightarrow> i32 \<Rightarrow> string" where
  "format_path buf_len fmt cpu = (if buf_len = 0 then [] else take (buf_len - 1) (format_loop buf_len fmt cpu []))"

section \<open>The processors\<close>

definition nr_processors :: "os \<Rightarrow> hist \<Rightarrow> int \<times> hist" where
  "nr_processors os h = (case sys_ctl os Sysconf_nproc h of (Inl err, h) \<Rightarrow> (- 1, h) | (Inr n, h) \<Rightarrow> (n, h))"

text \<open>One round of \<open>build_cpuset\<close>: \<open>min_val\<close>, \<open>found\<close> and the set, given the reading of processor \<open>i\<close>.\<close>

type_synonym cpuset_state = "int \<times> bool \<times> nat set"

definition cpuset_step :: "nat \<Rightarrow> int + i32 \<Rightarrow> cpuset_state \<Rightarrow> cpuset_state" where
  "cpuset_step i r st =
     (case r of
        Inl err \<Rightarrow> st
      | Inr val \<Rightarrow>
          let (min_val, found, cpuset) = st
          in if val \<le>s 0 then st
             else if min_val < sint val then (min_val, True, cpuset)
             else if sint val < min_val then (sint val, True, {i})
             else (min_val, True, insert i cpuset))"

fun cpuset_loop :: "os \<Rightarrow> string \<Rightarrow> nat list \<Rightarrow> cpuset_state \<Rightarrow> hist \<Rightarrow> (cpuset_state \<times> hist) option" where
  "cpuset_loop os fmt [] st h = Some (st, h)"
| "cpuset_loop os fmt (i # is) st h = do {
     (r, h) \<leftarrow> pg_sysfs_read_i32 os (format_path 128 fmt (word_of_nat i)) h;
     cpuset_loop os fmt is (cpuset_step i r st) h
   }"

definition build_cpuset :: "os \<Rightarrow> int \<Rightarrow> string \<Rightarrow> hist \<Rightarrow> (bool \<times> nat set \<times> hist) option" where
  "build_cpuset os num_cores fmt h =
     (let num_cores = (if CPU_SETSIZE < num_cores then CPU_SETSIZE else num_cores) in do {
        ((min_val, found, cpuset), h) \<leftarrow> cpuset_loop os fmt [0..<nat num_cores] (2147483647, False, {}) h;
        Some (found, cpuset, h)
      })"

text \<open>One of the two attempts: a mask that was found and that the kernel accepts.\<close>

definition try_cpuset :: "os \<Rightarrow> int \<Rightarrow> string \<Rightarrow> hist \<Rightarrow> (bool \<times> hist) option" where
  "try_cpuset os num_cores fmt h = do {
     (found, cpuset, h) \<leftarrow> build_cpuset os num_cores fmt h;
     if found then (case sys_ctl os (Sched_setaffinity cpuset) h of (r, h) \<Rightarrow> Some (r = Inr 0, h))
     else Some (False, h)
   }"

definition pg_topo_set_little_core :: "os \<Rightarrow> hist \<Rightarrow> (int \<times> hist) option" where
  "pg_topo_set_little_core os h =
     (let (num_cores, h) = nr_processors os h
      in if num_cores \<le> 0 then Some (- EINVAL, h)
      else do {
        (done, h) \<leftarrow> try_cpuset os num_cores CPU_CAPACITY h;
        if done then Some (0, h)
        else do {
          (done, h) \<leftarrow> try_cpuset os num_cores CPU_MAX_FREQ h;
          if done then Some (0, h)
          else let num_cores = (if CPU_SETSIZE < num_cores then CPU_SETSIZE else num_cores);
                   (r, h) = sys_ctl os (Sched_setaffinity {0..<nat num_cores}) h
               in Some (case r of Inl err \<Rightarrow> - err | Inr _ \<Rightarrow> 0, h)
        }
      })"

definition pg_topo_get_core_count :: "os \<Rightarrow> hist \<Rightarrow> i32 \<times> hist" where
  "pg_topo_get_core_count os h = (let (cores, h) = nr_processors os h in (if 0 < cores then word_of_int cores else 0, h))"

fun freq_loop :: "os \<Rightarrow> nat list \<Rightarrow> i32 \<Rightarrow> hist \<Rightarrow> (i32 \<times> hist) option" where
  "freq_loop os [] freq h = Some (freq, h)"
| "freq_loop os (i # is) freq h = do {
     (r, h) \<leftarrow> pg_sysfs_read_i32 os (format_path 128 CPU_MAX_FREQ (word_of_nat i)) h;
     freq_loop os is (case r of Inr val \<Rightarrow> if freq <s val then val else freq | Inl err \<Rightarrow> freq) h
   }"

definition pg_topo_get_max_freq_khz :: "os \<Rightarrow> hist \<Rightarrow> (i32 \<times> hist) option" where
  "pg_topo_get_max_freq_khz os h =
     (let (num_cores, h) = nr_processors os h
      in if num_cores \<le> 0 then Some (0, h) else freq_loop os [0..<nat num_cores] 0 h)"

text \<open>The total, the least and the greatest positive capacity.\<close>

definition capacity_step :: "int + i32 \<Rightarrow> i32 \<times> i32 \<times> i32 \<Rightarrow> i32 \<times> i32 \<times> i32" where
  "capacity_step r st =
     (case r of
        Inl err \<Rightarrow> st
      | Inr val \<Rightarrow>
          let (t, min_cap, max_cap) = st
          in if val \<le>s 0 then st
             else (t + val, if val <s min_cap then val else min_cap, if max_cap <s val then val else max_cap))"

fun capacity_loop :: "os \<Rightarrow> nat list \<Rightarrow> i32 \<times> i32 \<times> i32 \<Rightarrow> hist \<Rightarrow> ((i32 \<times> i32 \<times> i32) \<times> hist) option" where
  "capacity_loop os [] st h = Some (st, h)"
| "capacity_loop os (i # is) st h = do {
     (r, h) \<leftarrow> pg_sysfs_read_i32 os (format_path 128 CPU_CAPACITY (word_of_nat i)) h;
     capacity_loop os is (capacity_step r st) h
   }"

text \<open>\<open>Inl\<close> is the negated errno of the C result, \<open>Inr\<close> the three values stored through the pointers.\<close>

definition pg_topo_get_cpu_capacity :: "os \<Rightarrow> hist \<Rightarrow> ((int + i32 \<times> i32 \<times> i32) \<times> hist) option" where
  "pg_topo_get_cpu_capacity os h =
     (let (num_cores, h) = nr_processors os h
      in if num_cores \<le> 0 then Some (Inl EINVAL, h)
      else do {
        ((t, min_cap, max_cap), h) \<leftarrow> capacity_loop os [0..<nat num_cores] (0, INT32_MAX, 0) h;
        Some (if t = 0 then Inl ENODATA else Inr (t, min_cap, max_cap), h)
      })"

section \<open>The affinity mask\<close>

text \<open>The processors whose reading is the least of the positive ones.\<close>

definition positive :: "int + i32 \<Rightarrow> bool" where
  "positive r \<longleftrightarrow> (case r of Inl err \<Rightarrow> False | Inr val \<Rightarrow> 0 < sint val)"

definition reading :: "int + i32 \<Rightarrow> int" where
  "reading r = (case r of Inl err \<Rightarrow> 0 | Inr val \<Rightarrow> sint val)"

definition least_positive :: "(int + i32) list \<Rightarrow> nat set" where
  "least_positive rs = {i. i < length rs \<and> positive (rs ! i) \<and>
     (\<forall>j < length rs. positive (rs ! j) \<longrightarrow> reading (rs ! i) \<le> reading (rs ! j))}"

lemma reading_bound: "reading r \<le> 2147483647"
proof (cases r)
  case (Inr v)
  then show ?thesis using sint32_range [of v] by (simp add: reading_def)
qed (simp add: reading_def)

text \<open>What the loop has after the readings \<open>rs\<close>.\<close>

definition cpuset_after :: "(int + i32) list \<Rightarrow> cpuset_state \<Rightarrow> bool" where
  "cpuset_after rs st = (case st of (min_val, found, cpuset) \<Rightarrow>
     cpuset = least_positive rs \<and> (found \<longleftrightarrow> (\<exists>r \<in> set rs. positive r)) \<and> min_val \<le> 2147483647 \<and>
     (\<forall>r \<in> set rs. positive r \<longrightarrow> min_val \<le> reading r) \<and>
     (found \<longrightarrow> (\<exists>r \<in> set rs. positive r \<and> reading r = min_val)) \<and> (\<not> found \<longrightarrow> min_val = 2147483647))"

lemma least_positive_snoc:
  "least_positive (rs @ [r]) =
     {i \<in> least_positive rs. positive r \<longrightarrow> reading (rs ! i) \<le> reading r} \<union>
     (if positive r \<and> (\<forall>q \<in> set rs. positive q \<longrightarrow> reading r \<le> reading q) then {length rs} else {})"
  by (auto simp: least_positive_def nth_append less_Suc_eq all_set_conv_all_nth split: if_splits)

lemma cpuset_step_after:
  assumes "cpuset_after rs st"
  shows "cpuset_after (rs @ [r]) (cpuset_step (length rs) r st)"
proof -
  obtain m f c where st: "st = (m, f, c)" by (cases st)
  have a: "c = least_positive rs" "f \<longleftrightarrow> (\<exists>r \<in> set rs. positive r)" "m \<le> 2147483647"
    "\<And>r. r \<in> set rs \<Longrightarrow> positive r \<Longrightarrow> m \<le> reading r"
    "f \<Longrightarrow> \<exists>r \<in> set rs. positive r \<and> reading r = m" "\<not> f \<Longrightarrow> m = 2147483647"
    using assms by (auto simp: cpuset_after_def st)
  have nth: "reading (rs ! i) = m" if "i \<in> least_positive rs" for i
  proof -
    have i: "i < length rs" "positive (rs ! i)" using that by (simp_all add: least_positive_def)
    then have "f" using a(2) nth_mem by blast
    then obtain j where j: "j < length rs" "positive (rs ! j)" "reading (rs ! j) = m"
      using a(5) by (auto simp: in_set_conv_nth)
    then have "reading (rs ! i) \<le> m" using that by (auto simp: least_positive_def)
    moreover have "m \<le> reading (rs ! i)" using a(4) i nth_mem by blast
    ultimately show ?thesis by simp
  qed
  show ?thesis
  proof (cases "positive r")
    case False
    then have "cpuset_step (length rs) r st = st"
      by (auto simp: cpuset_step_def st positive_def word_sle_eq not_less split: sum.splits)
    then show ?thesis using assms False by (auto simp: cpuset_after_def least_positive_snoc st)
  next
    case True
    then obtain v where v: "r = Inr v" "reading r = sint v" "\<not> v \<le>s 0"
      by (auto simp: positive_def reading_def word_sle_eq split: sum.splits)
    have up: "reading r \<le> 2147483647" by (rule reading_bound)
    have all: "(\<forall>q \<in> set rs. positive q \<longrightarrow> reading r \<le> reading q) \<longleftrightarrow> reading r \<le> m"
      using a(4,5,6) up by (cases f) (auto intro: order_trans)
    consider "m < reading r" | "reading r < m" | "reading r = m" by linarith
    then show ?thesis
    proof cases
      case 1
      then have "f" using a(6) up by linarith
      then show ?thesis
        using 1 a nth True v all
        by (auto simp: cpuset_after_def cpuset_step_def st least_positive_snoc)
    next
      case 2
      then show ?thesis
        using a nth True v all
        by (auto simp: cpuset_after_def cpuset_step_def st least_positive_snoc)
    next
      case 3
      then show ?thesis
        using a nth True v all
        by (auto simp: cpuset_after_def cpuset_step_def st least_positive_snoc)
    qed
  qed
qed

text \<open>\<open>rs\<close> are readings of processors \<open>0, 1, ...\<close>: each is what reading its file gave at some point.\<close>

definition readings_of :: "os \<Rightarrow> string \<Rightarrow> (int + i32) list \<Rightarrow> bool" where
  "readings_of os fmt rs \<longleftrightarrow>
     (\<forall>i < length rs. \<exists>h h'. pg_sysfs_read_i32 os (format_path 128 fmt (word_of_nat i)) h = Some (rs ! i, h'))"

lemma readings_of_snoc:
  "readings_of os fmt rs \<Longrightarrow> pg_sysfs_read_i32 os (format_path 128 fmt (word_of_nat (length rs))) h = Some (r, h') \<Longrightarrow>
    readings_of os fmt (rs @ [r])"
  by (auto simp: readings_of_def nth_append less_Suc_eq)

lemma cpuset_loop_spec:
  assumes os: "os_ok os" and "cpuset_after rs st" "readings_of os fmt rs" "length rs \<le> n"
  shows "runs (cpuset_loop os fmt [length rs..<n] st h) (\<lambda>(st', h'). \<exists>rs. length rs = n \<and>
    cpuset_after rs st' \<and> readings_of os fmt rs \<and> looks h h')"
  using assms(2-4)
proof (induction "n - length rs" arbitrary: rs st h)
  case 0
  then show ?case by auto
next
  case (Suc k)
  let ?path = "format_path 128 fmt (word_of_nat (length rs))"
  obtain r g where r: "pg_sysfs_read_i32 os ?path h = Some (r, g)" and g: "looks h g"
    using read_i32_looks [OF os, of ?path h] by (auto simp: runs_iff)
  have "runs (cpuset_loop os fmt [length (rs @ [r])..<n] (cpuset_step (length rs) r st) g) (\<lambda>(st', h').
      \<exists>rs. length rs = n \<and> cpuset_after rs st' \<and> readings_of os fmt rs \<and> looks g h')"
    by (rule Suc.hyps(1)) (use Suc cpuset_step_after readings_of_snoc [OF _ r] in auto)
  moreover have "[length rs..<n] = length rs # [length (rs @ [r])..<n]"
    using Suc.hyps(2) by (simp add: upt_conv_Cons)
  ultimately show ?case
    using r g by (auto elim!: runs_mono intro: looks_trans)
qed

lemma cpuset_after_found: "cpuset_after rs (m, f, c) \<Longrightarrow> f \<longleftrightarrow> c \<noteq> {}"
proof
  assume a: "cpuset_after rs (m, f, c)" and f
  then obtain i where "i < length rs" "positive (rs ! i)" "reading (rs ! i) = m"
    by (auto simp: cpuset_after_def in_set_conv_nth)
  then have "i \<in> c" using a by (auto simp: cpuset_after_def least_positive_def)
  then show "c \<noteq> {}" by blast
next
  assume "cpuset_after rs (m, f, c)" "c \<noteq> {}"
  then show f by (auto simp: cpuset_after_def least_positive_def)
qed

lemma build_cpuset_spec:
  assumes "os_ok os"
  shows "runs (build_cpuset os n fmt h) (\<lambda>(found, cpuset, h'). \<exists>rs. length rs = nat (min 1024 n) \<and>
    readings_of os fmt rs \<and> cpuset = least_positive rs \<and> (found \<longleftrightarrow> cpuset \<noteq> {}) \<and> looks h h')"
proof -
  have "cpuset_after [] (2147483647, False, {})" by (simp add: cpuset_after_def least_positive_def)
  from cpuset_loop_spec [OF assms this, of fmt "nat (min 1024 n)" h]
  show ?thesis
    unfolding build_cpuset_def Let_def
    by (auto simp: readings_of_def cpuset_after_found min_def elim!: runs_mono) (auto simp: cpuset_after_def)
qed

text \<open>
  Whatever happens, the only change is an affinity mask; it is never empty, and holds either the
  processors with the least positive reading or all of them.
\<close>

definition mask_of :: "os \<Rightarrow> int \<Rightarrow> nat set \<Rightarrow> bool" where
  "mask_of os n S \<longleftrightarrow> S \<noteq> {} \<and> (S = {0..<nat (min 1024 n)} \<or>
     (\<exists>fmt rs. (fmt = CPU_CAPACITY \<or> fmt = CPU_MAX_FREQ) \<and> length rs = nat (min 1024 n) \<and>
       readings_of os fmt rs \<and> S = least_positive rs))"

definition sets_mask :: "os \<Rightarrow> int \<Rightarrow> event \<Rightarrow> bool" where
  "sets_mask os n e \<longleftrightarrow> (changes e \<longrightarrow> (\<exists>S r. e = Ctl (Sched_setaffinity S) r \<and> mask_of os n S))"

lemma looks_masks: "looks h h' \<Longrightarrow> balanced h h' \<and> grows (sets_mask os n) h h'"
  by (auto simp: looks_def sets_mask_def elim: grows_mono)

lemma mask_set: "mask_of os n S \<Longrightarrow> balanced h h' \<and> grows (sets_mask os n) h h' \<Longrightarrow>
    balanced h (Ctl (Sched_setaffinity S) r # h') \<and> grows (sets_mask os n) h (Ctl (Sched_setaffinity S) r # h')"
  by (auto simp: sets_mask_def)

lemma try_cpuset_spec:
  assumes "os_ok os" "fmt = CPU_CAPACITY \<or> fmt = CPU_MAX_FREQ"
  shows "runs (try_cpuset os n fmt h) (\<lambda>(done, h'). balanced h h' \<and> grows (sets_mask os n) h h')"
proof -
  define Q where "Q = (\<lambda>(done :: bool, h'). balanced h h' \<and> grows (sets_mask os n) h h')"
  have "Q (r, Ctl (Sched_setaffinity (least_positive rs)) e # h')"
    if "length rs = nat (min 1024 n)" "readings_of os fmt rs" "least_positive rs \<noteq> {}" "looks h h'" for rs h' r e
  proof -
    have "mask_of os n (least_positive rs)" using that assms(2) unfolding mask_of_def by blast
    then show ?thesis unfolding Q_def prod.case by (intro mask_set looks_masks that(4))
  qed
  moreover have "Q (r, h')" if "looks h h'" for r h' using looks_masks [OF that] by (simp add: Q_def)
  ultimately show ?thesis
    unfolding try_cpuset_def sys_ctl_def Let_def Q_def [symmetric]
    by (auto intro!: runs_mono [OF build_cpuset_spec [OF assms(1), of n fmt h]])
qed

lemma nr_processors_looks: "looks h (snd (nr_processors os h))"
  by (auto simp: nr_processors_def sys_ctl_def Let_def intro!: looks_Cons split: sum.splits)

lemma little_core_spec:
  assumes os: "os_ok os"
  shows "runs (pg_topo_set_little_core os h) (\<lambda>(ret, h'). balanced h h' \<and>
    grows (sets_mask os (fst (nr_processors os h))) h h')"
proof -
  obtain n g where n: "nr_processors os h = (n, g)" by (cases "nr_processors os h")
  define I where "I = (\<lambda>h'. balanced h h' \<and> grows (sets_mask os n) h h')"
  have g: "I g" using n nr_processors_looks [of h os] looks_masks by (simp add: I_def)
  have tried: "runs (try_cpuset os n fmt h') (\<lambda>(done, h''). I h'')"
    if "I h'" "fmt = CPU_CAPACITY \<or> fmt = CPU_MAX_FREQ" for fmt h'
    using that unfolding I_def
    by (intro runs_mono [OF try_cpuset_spec [OF os that(2)]]) (blast intro: balanced_trans grows_trans)
  have fallback: "I (Ctl (Sched_setaffinity {0..<nat (if 1024 < n then 1024 else n)}) r # h')" if "I h'" "0 < n" for h' r
    using that unfolding I_def by (intro mask_set) (auto simp: mask_of_def min_def)
  show ?thesis
    unfolding pg_topo_set_little_core_def n Let_def prod.case fst_conv sys_ctl_def I_def [symmetric]
    using g fallback by (auto intro!: runs_mono [OF tried])
qed

text \<open>
  C20: The call that moves the thread to the small processors returns; it opens nothing for good, and
  the only thing it changes is the affinity mask, which is never empty and holds the processors with
  the least positive capacity, those with the least positive maximal frequency, or all of them.
\<close>

theorem little_core_mask:
  assumes "os_ok os"
  shows "runs (pg_topo_set_little_core os h) (\<lambda>(ret, h'). balanced h h' \<and>
    grows (sets_mask os (fst (nr_processors os h))) h h')"
  by (rule little_core_spec [OF assms])

lemma little_core_mask_witness:
  "runs (pg_topo_set_little_core sample_os []) (\<lambda>(ret, h'). balanced [] h' \<and>
    grows (sets_mask sample_os (fst (nr_processors sample_os []))) [] h')"
  by (rule little_core_mask [OF sample_os_ok])

section \<open>Capacities\<close>

lemma freq_loop_spec:
  assumes "os_ok os" "0 \<le> sint f"
  shows "runs (freq_loop os is f h) (\<lambda>(f', h'). 0 \<le> sint f' \<and> looks h h')"
  using assms(2)
proof (induction "is" arbitrary: f h)
  case (Cons i "is")
  have "runs (freq_loop os is f' g) (\<lambda>(f'', h'). 0 \<le> sint f'' \<and> looks h h')" if "0 \<le> sint f'" "looks h g" for f' g
    using that by (intro runs_mono [OF Cons.IH]) (auto intro: looks_trans)
  then show ?case
    using Cons.prems by (auto simp: word_sless_alt intro!: runs_mono [OF read_i32_looks [OF assms(1)]] split: sum.splits)
qed simp

lemma max_freq_spec:
  assumes "os_ok os"
  shows "runs (pg_topo_get_max_freq_khz os h) (\<lambda>(f, h'). 0 \<le> sint f \<and> looks h h')"
  using nr_processors_looks [of h os]
  by (auto simp: pg_topo_get_max_freq_khz_def split_beta Let_def intro: looks_trans
      intro!: runs_mono [OF freq_loop_spec [OF assms]])

definition capacity_ok :: "i32 \<times> i32 \<times> i32 \<Rightarrow> bool" where
  "capacity_ok st = (case st of (t, mn, mx) \<Rightarrow>
     t = 0 \<and> mn = INT32_MAX \<and> mx = 0 \<or> 0 < sint mn \<and> sint mn \<le> sint mx)"

lemma capacity_step_ok: "capacity_ok st \<Longrightarrow> capacity_ok (capacity_step r st)"
  by (auto simp: capacity_ok_def capacity_step_def word_sle_eq word_sless_alt Let_def split: sum.splits prod.splits)

lemma capacity_loop_spec:
  assumes "os_ok os" "capacity_ok st"
  shows "runs (capacity_loop os is st h) (\<lambda>(st', h'). capacity_ok st' \<and> looks h h')"
  using assms(2)
proof (induction "is" arbitrary: st h)
  case (Cons i "is")
  have step: "runs (capacity_loop os is (capacity_step r st) g) (\<lambda>(st'', h'). capacity_ok st'' \<and> looks h h')"
    if "looks h g" for r g
    using that Cons.prems by (intro runs_mono [OF Cons.IH [OF capacity_step_ok]]) (auto intro: looks_trans)
  define Q where "Q = (\<lambda>(st'', h'). capacity_ok st'' \<and> looks h h')"
  show ?case
    unfolding Q_def [symmetric]
    using step [folded Q_def] by (auto intro!: runs_mono [OF read_i32_looks [OF assms(1)]])
qed simp

lemma cpu_capacity_spec:
  assumes "os_ok os"
  shows "runs (pg_topo_get_cpu_capacity os h) (\<lambda>(r, h'). looks h h' \<and>
    (case r of Inl e \<Rightarrow> e = EINVAL \<or> e = ENODATA | Inr (t, mn, mx) \<Rightarrow> t \<noteq> 0 \<and> 0 < sint mn \<and> sint mn \<le> sint mx))"
proof -
  obtain n g where n: "nr_processors os h = (n, g)" by (cases "nr_processors os h")
  then have g: "looks h g" using nr_processors_looks [of h os] by simp
  have init: "capacity_ok (0, INT32_MAX, 0)" by (simp add: capacity_ok_def)
  show ?thesis
    unfolding pg_topo_get_cpu_capacity_def n Let_def prod.case
    using g by (auto simp: capacity_ok_def intro: looks_trans intro!: runs_mono [OF capacity_loop_spec [OF assms init]])
qed

end
