(* ===== verification/Pg_Task.thy ===== *)
theory Pg_Task
  imports Pg_Topo
begin

text \<open>
  The scheduling attributes of the daemon itself, \<^verbatim>\<open>src/sys/task.c\<close>: one system call each, with the
  negated errno as the result of a failure.
\<close>

abbreviation (input) SCHED_FLAG_KEEP_POLICY :: u64 where "SCHED_FLAG_KEEP_POLICY \<equiv> 0x08"
abbreviation (input) SCHED_FLAG_KEEP_PARAMS :: u64 where "SCHED_FLAG_KEEP_PARAMS \<equiv> 0x10"
abbreviation (input) SCHED_FLAG_UTIL_CLAMP_MIN :: u64 where "SCHED_FLAG_UTIL_CLAMP_MIN \<equiv> 0x20"
abbreviation (input) SCHED_FLAG_UTIL_CLAMP_MAX :: u64 where "SCHED_FLAG_UTIL_CLAMP_MAX \<equiv> 0x40"

text \<open>\<open>if (call == -1) return -errno; return 0\<close>\<close>

definition ctl_status :: "os \<Rightarrow> ctl \<Rightarrow> hist \<Rightarrow> int \<times> hist" where
  "ctl_status os c h = (case sys_ctl os c h of (Inl err, h) \<Rightarrow> (- err, h) | (Inr _, h) \<Rightarrow> (0, h))"

definition pg_task_set_rt_prio :: "os \<Rightarrow> int \<Rightarrow> hist \<Rightarrow> int \<times> hist" where
  "pg_task_set_rt_prio os priority h = ctl_status os (Sched_setscheduler priority) h"

definition pg_task_set_io_prio :: "os \<Rightarrow> i32 \<Rightarrow> i32 \<Rightarrow> hist \<Rightarrow> int \<times> hist" where
  "pg_task_set_io_prio os ioprio_class ioprio_data h =
     (let ioprio_val = push_bit 13 ioprio_class OR ioprio_data
      in ctl_status os (Ioprio_set (sint ioprio_val)) h)"

text \<open>
  A result of -1 is the errno \<open>EPERM\<close> of the last \<^verbatim>\<open>sched_setaffinity\<close>: every failure of
  \<open>pg_topo_set_little_core\<close> is a negated errno, and nothing that could change errno comes after it.
\<close>

definition pg_task_set_core_efficiency :: "os \<Rightarrow> hist \<Rightarrow> (int \<times> hist) option" where
  "pg_task_set_core_efficiency os h = do {
     (ret, h) \<leftarrow> pg_topo_set_little_core os h;
     Some (if ret < 0 then let err = (if ret = - 1 then EPERM else - ret) in - err else 0, h)
   }"

definition pg_task_set_timer_slack :: "os \<Rightarrow> u64 \<Rightarrow> hist \<Rightarrow> int \<times> hist" where
  "pg_task_set_timer_slack os slack_ns h = ctl_status os (Prctl_timerslack slack_ns) h"

definition uclamp_attr :: "u32 \<Rightarrow> pg_sched_attr" where
  "uclamp_attr util_max = \<lparr>at_size = 56, sched_policy = 0,
     sched_flags = SCHED_FLAG_KEEP_POLICY OR SCHED_FLAG_KEEP_PARAMS OR SCHED_FLAG_UTIL_CLAMP_MIN OR SCHED_FLAG_UTIL_CLAMP_MAX,
     sched_nice = 0, sched_priority = 0, sched_runtime = 0, sched_deadline = 0, sched_period = 0,
     sched_util_min = 0, sched_util_max = util_max\<rparr>"

definition pg_task_set_uclamp :: "os \<Rightarrow> u32 \<Rightarrow> hist \<Rightarrow> int \<times> hist" where
  "pg_task_set_uclamp os util_max h = ctl_status os (Sched_setattr (uclamp_attr util_max)) h"

lemma ctl_status_hist: "snd (ctl_status os c h) = Ctl c (os_ctl os h c) # h"
  by (simp add: ctl_status_def sys_ctl_def Let_def split: sum.splits)

end
