(* ===== verification/Pg_Sweep.thy ===== *)
theory Pg_Sweep
  imports Pg_Fs Pg_Task Pg_Sensor Pg_Psi
begin

text \<open>
  The cache sweep of \<^verbatim>\<open>src/core/sweep.c\<close> (part of the \<^verbatim>\<open>NDK_BUILD\<close>).  Of the governor's context the
  sweep reads the backlight sensor only.  \<open>sweep_cb\<close> is a provider for the locale \<open>visitor\<close> of the
  walk; what rests on it is that a sweep returns, gives back its descriptors and removes nothing
  but regular files that were not modified for a day.
\<close>

section \<open>Model\<close>

record sweep_ctx =
  sw_bl :: pg_bl_sensor
  now_sec :: u64
  nr_files :: i32
  intr :: bool

abbreviation (input) AGE_LIMIT :: u64 where "AGE_LIMIT \<equiv> 86400"
abbreviation (input) MAX_DEPTH :: int where "MAX_DEPTH \<equiv> 12"
abbreviation (input) UCLAMP_UNRESTRICTED :: u32 where "UCLAMP_UNRESTRICTED \<equiv> 1024"
abbreviation (input) PG_UCLAMP_MAX :: u32 where "PG_UCLAMP_MAX \<equiv> 102"
abbreviation (input) INTR_MASK :: i32 where "INTR_MASK \<equiv> 1023"
abbreviation (input) PG_PATH_PSI_CPU :: string where "PG_PATH_PSI_CPU \<equiv> ''/proc/pressure/cpu''"

abbreviation TEMP_PATHS :: "string list" where
  "TEMP_PATHS \<equiv> [''/data/media/0/DCIM/.thumbnails'', ''/data/media/0/Movies/.thumbnails'',
     ''/data/media/0/Pictures/.thumbnails'']"

abbreviation APP_ROOTS :: "string list" where
  "APP_ROOTS \<equiv> [''/data/data'', ''/data/media/0/Android/data'']"

abbreviation dir_flags :: "oflag list" where
  "dir_flags \<equiv> [O_RDONLY, O_DIRECTORY, O_NOFOLLOW, O_CLOEXEC, O_NOATIME]"

text \<open>Every 1024th entry looks at the display and at the pressure.\<close>

definition sweep_chk_intr :: "os \<Rightarrow> sweep_ctx \<Rightarrow> hist \<Rightarrow> (bool \<times> sweep_ctx \<times> hist) option" where
  "sweep_chk_intr os sctx h =
     (if intr sctx then Some (True, sctx, h)
      else let sctx = sctx\<lparr>nr_files := nr_files sctx + 1\<rparr>
      in if nr_files sctx AND INTR_MASK \<noteq> 0 then Some (False, sctx, h)
      else do {
        (ret, bl, h) \<leftarrow> pg_sensor_read_bl os (sw_bl sctx) h;
        if 0 <s bl then Some (True, sctx\<lparr>intr := True\<rparr>, h)
        else do {
          (r, h) \<leftarrow> pg_psi_read_raw os PG_PATH_PSI_CPU h;
          case r of
            Inr avg \<Rightarrow> if INT_TO_Q16 3 <s avg then Some (True, sctx\<lparr>intr := True\<rparr>, h) else Some (False, sctx, h)
          | Inl err \<Rightarrow> Some (False, sctx, h)
        }
      })"

text \<open>Whether an entry is to be removed, from what \<^verbatim>\<open>fstatat\<close> says of it.\<close>

definition sweep_old :: "u64 \<Rightarrow> stat \<Rightarrow> bool" where
  "sweep_old now st =
     (let s_mtime = (if st_mtime st <s 0 then 0 else st_mtime st)
      in if \<not> S_ISREG (st_mode st) \<or> now \<le> s_mtime then False
         else let age = now - s_mtime in AGE_LIMIT < age)"

definition sweep_cb :: "os \<Rightarrow> sweep_ctx pg_fs_cb" where
  "sweep_cb os dfd name type depth sctx h = do {
     (stop, sctx, h) \<leftarrow> sweep_chk_intr os sctx h;
     if stop then Some (FS_STOP, sctx, h)
     else if type = DT_DIR then Some (FS_KEEP, sctx, h)
     else case sys_fstatat os dfd name h of
            (Inl err, h) \<Rightarrow> Some (FS_KEEP, sctx, h)
          | (Inr st, h) \<Rightarrow> Some (if sweep_old (now_sec sctx) st then FS_DELETE else FS_KEEP, sctx, h)
   }"

definition sweep_package :: "os \<Rightarrow> int \<Rightarrow> string \<Rightarrow> sweep_ctx \<Rightarrow> hist \<Rightarrow> (sweep_ctx \<times> hist) option" where
  "sweep_package os root_fd pkg_name sctx h =
     (case sys_openat os root_fd pkg_name h of
        (Inl err, h) \<Rightarrow> Some (sctx, h)
      | (Inr pkg_fd, h) \<Rightarrow> do {
          (sctx, h) \<leftarrow>
            (case sys_openat os pkg_fd ''cache'' h of
               (Inl err, h) \<Rightarrow> Some (sctx, h)
             | (Inr cache_fd, h) \<Rightarrow> do {
                 (ret, sctx, h) \<leftarrow> pg_fs_walk_fd os cache_fd (sweep_cb os) sctx MAX_DEPTH h;
                 let h = sys_close cache_fd h;
                 Some (sctx, h)
               });
          let h = sys_close pkg_fd h;
          Some (sctx, h)
        })"

definition sweep_process_dirent :: "os \<Rightarrow> int \<Rightarrow> linux_dirent64 \<Rightarrow> sweep_ctx \<Rightarrow> hist \<Rightarrow> (sweep_ctx \<times> hist) option" where
  "sweep_process_dirent os root_fd d sctx h = do {
     (stop, sctx, h) \<leftarrow> sweep_chk_intr os sctx h;
     if stop then Some (sctx, h)
     else if d_name d \<noteq> [] \<and> hd (d_name d) = CHR ''.'' then Some (sctx, h)
     else let (dtype, h) = entry_type os root_fd d h
          in if dtype = DT_DIR then sweep_package os root_fd (d_name d) sctx h else Some (sctx, h)
   }"

text \<open>The loops over a root are those of the walk; an interrupted sweep leaves them.\<close>

definition sweep_app_data :: "os \<Rightarrow> int \<Rightarrow> sweep_ctx \<Rightarrow> hist \<Rightarrow> (sweep_ctx \<times> hist) option" where
  "sweep_app_data os root_fd sctx h = do {
     (ret, sctx, h) \<leftarrow> getdents_loop os root_fd 32768
       (\<lambda>d sctx h. do {
          (sctx, h) \<leftarrow> sweep_process_dirent os root_fd d sctx h;
          Some (if intr sctx then 1 else 0, sctx, h)
        }) sctx h;
     Some (sctx, h)
   }"

fun sweep_roots :: "os \<Rightarrow> string list \<Rightarrow> sweep_ctx \<Rightarrow> hist \<Rightarrow> (sweep_ctx \<times> hist) option" where
  "sweep_roots os [] sctx h = Some (sctx, h)"
| "sweep_roots os (root # roots) sctx h =
     (if intr sctx then Some (sctx, h)
      else case sys_open os root dir_flags h of
             (Inl err, h) \<Rightarrow> sweep_roots os roots sctx h
           | (Inr root_fd, h) \<Rightarrow> do {
               (sctx, h) \<leftarrow> sweep_app_data os root_fd sctx h;
               let h = sys_close root_fd h;
               sweep_roots os roots sctx h
             })"

fun sweep_temps :: "os \<Rightarrow> string list \<Rightarrow> sweep_ctx \<Rightarrow> hist \<Rightarrow> (sweep_ctx \<times> hist) option" where
  "sweep_temps os [] sctx h = Some (sctx, h)"
| "sweep_temps os (path # paths) sctx h =
     (if intr sctx then Some (sctx, h)
      else do {
        (ret, sctx, h) \<leftarrow> pg_fs_walk os path (sweep_cb os) sctx MAX_DEPTH h;
        sweep_temps os paths sctx h
      })"

definition pg_sweep_run :: "os \<Rightarrow> pg_bl_sensor \<Rightarrow> hist \<Rightarrow> hist option" where
  "pg_sweep_run os bl h =
     (let (ts, h) = sys_clock os CLOCK_REALTIME h;
          sctx = \<lparr>sw_bl = bl, now_sec = tv_sec ts, nr_files = INTR_MASK, intr = False\<rparr>
      in if now_sec sctx < 1767225600 then Some h
      else do {
        (stop, sctx, h) \<leftarrow> sweep_chk_intr os sctx h;
        if stop then Some h
        else do {
          let h = snd (pg_task_set_uclamp os UCLAMP_UNRESTRICTED h);
          (sctx, h) \<leftarrow> sweep_roots os APP_ROOTS sctx h;
          (sctx, h) \<leftarrow> sweep_temps os TEMP_PATHS sctx h;
          let h = snd (pg_task_set_uclamp os PG_UCLAMP_MAX h);
          Some h
        }
      })"

section \<open>The callback is a visitor\<close>

text \<open>What may be removed: a file that the call just before found regular and older than a day.\<close>

definition stale :: "u64 \<Rightarrow> int \<Rightarrow> string \<Rightarrow> bool \<Rightarrow> hist \<Rightarrow> bool" where
  "stale now dfd name rmdir h \<longleftrightarrow> \<not> rmdir \<and> (\<exists>st h0. h = Fstatat dfd name (Inr st) # h0 \<and> S_ISREG (st_mode st) \<and>
     86400 < uint now - max 0 (sint (st_mtime st)))"

lemma sweep_old_age:
  assumes "sweep_old now st"
  shows "S_ISREG (st_mode st)" "86400 < uint now - max 0 (sint (st_mtime st))"
proof -
  define m where "m = (if st_mtime st <s 0 then 0 else st_mtime st)"
  have um: "uint m = max 0 (sint (st_mtime st))"
    by (auto simp: m_def word_sless_alt uint_sint_64 max_def)
  have o: "S_ISREG (st_mode st)" "m < now" "86400 < now - m"
    using assms by (auto simp: sweep_old_def Let_def m_def [symmetric] not_le split: if_splits)
  have "uint (now - m) = uint now - uint m" using o(2) by (intro uint_diff_64) (simp add: word_less_def)
  moreover have "86400 < uint (now - m)" using o(3) by (simp add: word_less_def)
  ultimately show "S_ISREG (st_mode st)" "86400 < uint now - max 0 (sint (st_mtime st))" using o(1) um by simp_all
qed

lemma chk_intr_looks:
  assumes os: "os_ok os"
  shows "runs (sweep_chk_intr os sctx h) (\<lambda>(stop, sctx', h'). looks h h' \<and> now_sec sctx' = now_sec sctx \<and>
    (stop \<longrightarrow> intr sctx') \<and> (\<not> stop \<longrightarrow> \<not> intr sctx'))"
proof -
  have l: "looks h h'" if "only_reads new" "looks (new @ h) h'" for h' new
    using looks_trans [OF only_reads_looks] that by blast
  show ?thesis
    unfolding sweep_chk_intr_def Let_def
    by (auto simp: only_reads_looks split: sum.splits intro: l
        intro!: runs_mono [OF read_bl_spec [OF os]] runs_mono [OF raw_looks [OF os]]) (erule (1) l)+
qed

interpretation sweep: visitor os "sweep_cb os" "\<lambda>sctx. now_sec sctx = now" "stale now" for os now
proof unfold_locales
  fix ctx :: sweep_ctx and dfd name ty depth h
  assume os: "os_ok os" and n: "now_sec ctx = now"
  define Q where "Q = (\<lambda>(act, ctx' :: sweep_ctx, h'). now_sec ctx' = now \<and> tame (stale now) h h' \<and>
      (act = FS_DELETE \<longrightarrow> stale now dfd name (ty = DT_DIR) h'))"
  have del: "stale now dfd name False (Fstatat dfd name (Inr st) # h')" if "sweep_old now st" for st h'
    using sweep_old_age [OF that] by (simp add: stale_def)
  have t: "tame (stale now) h (Fstatat dfd name r # h')" if "looks h h'" for r h'
    by (rule tame_Cons [OF looks_tame [OF that]]) (simp add: inert_def)
  show "runs (sweep_cb os dfd name ty depth ctx h) Q"
    unfolding sweep_cb_def sys_fstatat_def Let_def
    using n del t by (auto simp: Q_def looks_tame split: sum.splits intro!: runs_mono [OF chk_intr_looks [OF os]])
qed

section \<open>The sweep\<close>

lemma package_spec:
  assumes os: "os_ok os"
  shows "runs (sweep_package os root_fd pkg sctx h) (\<lambda>(sctx', h'). now_sec sctx' = now_sec sctx \<and>
    tame (stale (now_sec sctx)) h h')"
proof (cases "os_openat os h root_fd pkg")
  case (Inl err)
  then show ?thesis by (auto simp: sweep_package_def sys_openat_def Let_def inert_def intro!: tame_Cons)
next
  case (Inr pkg_fd)
  let ?g = "Openat root_fd pkg (Inr pkg_fd) # h"
  have pkg: "tame (stale (now_sec sctx)) h (Close pkg_fd # h')" if "tame (stale (now_sec sctx)) ?g h'" for h'
    using fresh_fd(2) [OF os Inr] that by (rule tame_openat)
  show ?thesis
  proof (cases "os_openat os ?g pkg_fd ''cache''")
    case (Inl err)
    have "tame (stale (now_sec sctx)) ?g (Openat pkg_fd ''cache'' (Inl err) # ?g)"
      by (rule tame_Cons) (simp_all add: inert_def)
    then show ?thesis
      using Inl Inr pkg by (simp add: sweep_package_def sys_openat_def sys_close_def Let_def)
  next
    case c: (Inr cache_fd)
    have cache: "tame (stale (now_sec sctx)) ?g (Close cache_fd # h')"
      if "tame (stale (now_sec sctx)) (Openat pkg_fd ''cache'' (Inr cache_fd) # ?g) h'" for h'
      using fresh_fd(2) [OF os c] that by (rule tame_openat)
    show ?thesis
      using Inr c pkg cache
      by (auto simp: sweep_package_def sys_openat_def sys_close_def Let_def
          intro!: runs_mono [OF sweep.walk_fd_spec [OF os refl]])
  qed
qed

lemma process_spec:
  assumes os: "os_ok os"
  shows "runs (sweep_process_dirent os root_fd d sctx h) (\<lambda>(sctx', h'). now_sec sctx' = now_sec sctx \<and>
    tame (stale (now_sec sctx)) h h')"
proof -
  define Q where "Q = (\<lambda>(sctx' :: sweep_ctx, h'). now_sec sctx' = now_sec sctx \<and> tame (stale (now_sec sctx)) h h')"
  have inner: "runs (let (dtype, h) = entry_type os root_fd d g
        in if dtype = DT_DIR then sweep_package os root_fd (d_name d) sctx' h else Some (sctx', h)) Q"
    if "looks h g" "now_sec sctx' = now_sec sctx" for g sctx'
  proof -
    have t: "tame (stale (now_sec sctx)) h (snd (entry_type os root_fd d g))"
      using tame_trans [OF looks_tame [OF that(1)] sweep.entry_type_tame] .
    show ?thesis
      unfolding Let_def split_beta Q_def
      using t that(2)
      by (auto intro!: runs_mono [OF package_spec [OF os]] intro: tame_trans)
  qed
  show ?thesis
    unfolding sweep_process_dirent_def Q_def [symmetric]
    using inner by (auto simp: Q_def looks_tame intro!: runs_mono [OF chk_intr_looks [OF os]])
qed

lemma app_data_spec:
  assumes os: "os_ok os" and "root_fd \<in> open_fds h"
  shows "runs (sweep_app_data os root_fd sctx h) (\<lambda>(sctx', h'). now_sec sctx' = now_sec sctx \<and>
    tame (stale (now_sec sctx)) h h')"
proof -
  have body: "runs (do { (sctx, h) \<leftarrow> sweep_process_dirent os root_fd d s h; Some (if intr sctx then 1 else 0, sctx, h) })
      (\<lambda>(ret :: int, s', h'). now_sec s' = now_sec sctx \<and> tame (stale (now_sec sctx)) h h')"
    if "now_sec s = now_sec sctx" for d s h
    using that by (auto intro!: runs_mono [OF process_spec [OF os, of root_fd d s h]])
  show ?thesis
    unfolding sweep_app_data_def
    by (simp, rule runs_mono [OF getdents_loop_spec [OF os, where ok = "\<lambda>s. now_sec s = now_sec sctx"
          and D = "stale (now_sec sctx)"]]) (use body assms(2) in auto)
qed

lemma roots_spec:
  assumes os: "os_ok os"
  shows "runs (sweep_roots os roots sctx h) (\<lambda>(sctx', h'). now_sec sctx' = now_sec sctx \<and>
    tame (stale (now_sec sctx)) h h')"
proof (induction roots arbitrary: sctx h)
  case (Cons root roots)
  define Q where "Q = (\<lambda>(sctx' :: sweep_ctx, h'). now_sec sctx' = now_sec sctx \<and> tame (stale (now_sec sctx)) h h')"
  have rest: "runs (sweep_roots os roots s g) Q" if "now_sec s = now_sec sctx" "tame (stale (now_sec sctx)) h g" for s g
    unfolding Q_def using that by (intro runs_mono [OF Cons.IH]) (auto intro: tame_trans)
  show ?case
  proof (cases "os_open os h root dir_flags")
    case (Inl err)
    have "tame (stale (now_sec sctx)) h (Open root dir_flags (Inl err) # h)"
      by (rule tame_Cons) (simp_all add: inert_def)
    then show ?thesis
      using Inl rest unfolding Q_def [symmetric] by (auto simp: sys_open_def Let_def Q_def)
  next
    case (Inr fd)
    have closed: "tame (stale (now_sec sctx)) h (Close fd # h')"
      if "tame (stale (now_sec sctx)) (Open root dir_flags (Inr fd) # h) h'" for h'
      using fresh_fd(1) [OF os Inr] that by (rule tame_open)
    have "runs (sweep_roots os (root # roots) sctx h) Q"
      using Inr rest closed
      by (auto simp: sys_open_def sys_close_def Let_def Q_def intro!: runs_mono [OF app_data_spec [OF os]])
    then show ?thesis by (simp only: Q_def)
  qed
qed simp

lemma temps_spec:
  assumes os: "os_ok os"
  shows "runs (sweep_temps os paths sctx h) (\<lambda>(sctx', h'). now_sec sctx' = now_sec sctx \<and>
    tame (stale (now_sec sctx)) h h')"
proof (induction paths arbitrary: sctx h)
  case (Cons path paths)
  have rest: "runs (sweep_temps os paths s g) (\<lambda>(sctx', h'). now_sec sctx' = now_sec sctx \<and>
      tame (stale (now_sec sctx)) h h')" if "now_sec s = now_sec sctx" "tame (stale (now_sec sctx)) h g" for s g
    using that by (intro runs_mono [OF Cons.IH]) (auto intro: tame_trans)
  show ?case
    using rest by (auto intro!: runs_mono [OF sweep.walk_path_spec [OF os refl]])
qed simp

lemma sweep_run_spec:
  fixes h
  assumes os: "os_ok os"
  defines "now \<equiv> tv_sec (os_clock os h CLOCK_REALTIME)"
  shows "runs (pg_sweep_run os bl h) (\<lambda>h'. tame (stale now) h h' \<and>
    (looks h h' \<or> (\<exists>g r. h' = Ctl (Sched_setattr (uclamp_attr 102)) r # g)))"
proof -
  define Q where "Q = (\<lambda>h'. tame (stale now) h h' \<and> (looks h h' \<or> (\<exists>g r. h' = Ctl (Sched_setattr (uclamp_attr 102)) r # g)))"
  have clk: "looks h (Clock CLOCK_REALTIME t # h)" for t by (rule looks_Cons) simp_all
  have stop: "Q h'" if "looks (Clock CLOCK_REALTIME t # h) h'" for h' t
    using looks_trans [OF clk that] looks_tame unfolding Q_def by blast
  have up: "tame (stale now) h (Ctl (Sched_setattr a) r # h')" if "tame (stale now) h h'" for a r h'
    using that by (rule tame_Cons) (simp add: inert_def)
  have last: "Q (Ctl (Sched_setattr (uclamp_attr 102)) r # h')" if "tame (stale now) h h'" for r h'
    using up [OF that] unfolding Q_def by blast
  have c: "tame (stale now) h h'" if "looks (Clock CLOCK_REALTIME t # h) h'" for h' t
    using looks_trans [OF clk that] by (rule looks_tame)
  show ?thesis
    unfolding Q_def [symmetric] pg_sweep_run_def sys_clock_def Let_def pg_task_set_uclamp_def ctl_status_hist prod.case now_def [symmetric]
    using stop last c up
    by (auto intro!: runs_mono [OF chk_intr_looks [OF os]] runs_mono [OF roots_spec [OF os]] runs_mono [OF temps_spec [OF os]]
        simp del: sweep_roots.simps sweep_temps.simps) (rule last, meson tame_trans c up)
qed

section \<open>Properties\<close>

text \<open>
  C19: A sweep returns, gives back every descriptor it opened, and every file it removes was found by the call
  just before it to be a regular file whose modification time is more than 24 hours before the
  clock of the sweep; directories are never removed. It ends by putting the utilisation clamp of
  the daemon back to 102, unless it stopped before raising it and changed nothing at all.
\<close>

theorem sweep_removes_only_stale:
  assumes "os_ok os"
  shows "runs (pg_sweep_run os bl h) (\<lambda>h'. open_fds h' = open_fds h \<and>
    (\<forall>xs dfd name rmdir r ys. h' = xs @ Unlinkat dfd name rmdir r # ys \<longrightarrow> length h \<le> length ys \<longrightarrow>
       stale (tv_sec (os_clock os h CLOCK_REALTIME)) dfd name rmdir ys) \<and>
    (looks h h' \<or> (\<exists>g r. h' = Ctl (Sched_setattr (uclamp_attr 102)) r # g)))"
  by (rule runs_mono [OF sweep_run_spec [OF assms]], elim conjE, intro conjI, erule tame_fds)
    (auto simp: tame_def dest: deletes_okD)

lemma sweep_removes_only_stale_witness:
  "runs (pg_sweep_run sample_os \<lparr>bl_fd = [3, -1, -1, -1], bl_n = 1\<rparr> []) (\<lambda>h'. open_fds h' = {})"
  by (rule runs_mono [OF sweep_removes_only_stale [OF sample_os_ok]]) simp

end
