(* ===== verification/Pg_Str.thy ===== *)
theory Pg_Str
  imports Pg_Prelude "HOL-Library.Sublist"
begin

text \<open>
  The string helpers of \<^verbatim>\<open>include/str.h\<close>.  A C string is the list of its characters before
  the terminating NUL; a \<^verbatim>\<open>char\<close> is a HOL \<open>char\<close> (a byte).
  The lemmas identify the hand-written loops with the list library's prefix and sublist relations
  and show that \<open>pg_str_build_path\<close> never exceeds its buffer.
\<close>

section \<open>Prefixes and substrings\<close>

fun pg_str_has_prefix :: "string \<Rightarrow> string \<Rightarrow> bool" where
  "pg_str_has_prefix str [] = True"
| "pg_str_has_prefix [] (p # ps) = False"
| "pg_str_has_prefix (s # ss) (p # ps) = (if p \<noteq> s then False else pg_str_has_prefix ss ps)"

text \<open>The inner loop of \<open>pg_str_contains\<close>, followed by its test that the substring is used up.\<close>

fun match_here :: "string \<Rightarrow> string \<Rightarrow> bool" where
  "match_here (a # p1) (b # p2) = (if a = b then match_here p1 p2 else False)"
| "match_here [] (b # p2) = False"
| "match_here p1 [] = True"

fun contains_from :: "string \<Rightarrow> string \<Rightarrow> bool" where
  "contains_from [] substr = False"
| "contains_from (c # cs) substr = (if match_here (c # cs) substr then True else contains_from cs substr)"

definition pg_str_contains :: "string \<Rightarrow> string \<Rightarrow> bool" where
  "pg_str_contains str substr = (if substr = [] then True else contains_from str substr)"

fun pg_str_to_lower :: "string \<Rightarrow> string" where
  "pg_str_to_lower [] = []"
| "pg_str_to_lower (c # cs) =
     (if 65 \<le> (of_char c :: nat) \<and> of_char c \<le> (90 :: nat) then char_of (of_char c + (32 :: nat)) else c)
       # pg_str_to_lower cs"

section \<open>Paths\<close>

text \<open>\<open>while (*s && i + 1 < len) out[i++] = *s++\<close>, and one bounded character.\<close>

fun copy_bounded :: "nat \<Rightarrow> string \<Rightarrow> string \<Rightarrow> string" where
  "copy_bounded len out [] = out"
| "copy_bounded len out (c # cs) =
     (if length out + 1 < len then copy_bounded len (out @ [c]) cs else out)"

definition put_bounded :: "nat \<Rightarrow> string \<Rightarrow> char \<Rightarrow> string" where
  "put_bounded len out c = (if length out + 1 < len then out @ [c] else out)"

text \<open>\<open>None\<close>: a buffer of size 0, which is left unwritten.\<close>

definition pg_str_build_path :: "nat \<Rightarrow> string \<Rightarrow> string \<Rightarrow> string \<Rightarrow> string option" where
  "pg_str_build_path len dir sub file =
     (if len = 0 then None
      else let out = copy_bounded len [] dir;
               out = put_bounded len out CHR ''/'';
               out = copy_bounded len out sub;
               out = put_bounded len out CHR ''/'';
               out = copy_bounded len out file
           in Some out)"

section \<open>What the loops compute\<close>

lemma has_prefix_iff [simp]: "pg_str_has_prefix str p \<longleftrightarrow> prefix p str"
  by (induction str p rule: pg_str_has_prefix.induct) auto

lemma match_here_iff: "match_here str p \<longleftrightarrow> prefix p str"
  by (induction str p rule: match_here.induct) auto

lemma contains_from_iff: "p \<noteq> [] \<Longrightarrow> contains_from str p \<longleftrightarrow> sublist p str"
  by (induction str) (auto simp: match_here_iff sublist_Cons_right)

lemma contains_iff [simp]: "pg_str_contains str p \<longleftrightarrow> sublist p str"
  by (simp add: pg_str_contains_def contains_from_iff)

lemma copy_bounded_eq: "length out < len \<Longrightarrow> copy_bounded len out s = take (len - 1) (out @ s)"
proof (induction len out s rule: copy_bounded.induct)
  case (1 len out)
  then show ?case by simp
next
  case (2 len out c cs)
  then show ?case by (auto simp: Suc_le_eq not_less le_Suc_eq less_Suc_eq)
qed

lemma put_bounded_eq: "length out < len \<Longrightarrow> put_bounded len out c = take (len - 1) (out @ [c])"
  by (auto simp: put_bounded_def)

lemma take_take_append: "take n (take n xs @ ys) = take n (xs @ ys)"
  by (simp add: min_def)

lemma build_path_eq:
  assumes "0 < len"
  shows "pg_str_build_path len dir sub file = Some (take (len - 1) (dir @ ''/'' @ sub @ ''/'' @ file))"
proof -
  have lt: "length (take (len - 1) xs) < len" for xs :: string
    using assms by (cases len) (auto simp: min_def)
  show ?thesis
    using assms unfolding pg_str_build_path_def Let_def
    by (simp add: copy_bounded_eq put_bounded_eq lt take_take_append del: take_append)
qed

section \<open>Properties\<close>

text \<open>
  \<open>pg_str_build_path\<close> joins its three parts with slashes, cut off so that the text and its
  terminator fit the buffer; a path that fits is complete.
\<close>

theorem build_path_bounded:
  assumes "0 < len"
  shows "\<exists>p. pg_str_build_path len dir sub file = Some p \<and> length p < len \<and>
    prefix p (dir @ ''/'' @ sub @ ''/'' @ file) \<and>
    (length (dir @ ''/'' @ sub @ ''/'' @ file) < len \<longrightarrow> p = dir @ ''/'' @ sub @ ''/'' @ file)"
proof -
  let ?full = "dir @ ''/'' @ sub @ ''/'' @ file"
  have "length (take (len - 1) ?full) \<le> len - 1" by (simp only: length_take min.cobounded2)
  then have "length (take (len - 1) ?full) < len" using assms by linarith
  moreover have "length ?full < len \<Longrightarrow> take (len - 1) ?full = ?full" by (intro take_all) linarith
  moreover have "prefix (take (len - 1) ?full) ?full" by (rule take_is_prefix)
  ultimately show ?thesis unfolding build_path_eq [OF assms] by blast
qed

lemma build_path_bounded_witness:
  "\<exists>p. pg_str_build_path 12 ''/sys'' ''dm-0'' ''queue'' = Some p \<and> length p < 12 \<and> prefix p ''/sys/dm-0/queue''"
  using build_path_bounded [of 12 "''/sys''" "''dm-0''" "''queue''"] by auto

end
