(* ===== verification/Pg_Scan.thy ===== *)
theory Pg_Scan
  imports Pg_Fs Pg_Str Pg_Sysfs
begin

text \<open>
  The search for the CPU thermal zone, the backlight nodes and the passive trip point,
  \<^verbatim>\<open>src/sys/scan.c\<close>, with \<open>pg_sensor_get_trip_temp\<close> of \<^verbatim>\<open>src/sys/sensor.c\<close>.  A text that was read ends
  at its first NUL.  The lemmas give what a scan returns in terms of the zones it saw, and that a
  scan only looks.
\<close>

section \<open>Tables\<close>

abbreviation (input) PG_PATH_THERMAL_BASE :: string where "PG_PATH_THERMAL_BASE \<equiv> ''/sys/class/thermal''"
abbreviation (input) PG_PATH_BACKLIGHT_BASE :: string where "PG_PATH_BACKLIGHT_BASE \<equiv> ''/sys/class/backlight''"
abbreviation (input) PG_BL_PATH_LEN :: nat where "PG_BL_PATH_LEN \<equiv> 128"

definition PRIORITY :: "string list" where
  "PRIORITY = [''cpu'', ''cpu-1-0-usr'', ''cpu-1-1-usr'', ''cpu-1-2-usr'', ''cpu-1-3-usr'', ''cpu-0-0-usr'',
     ''cpu-0-1-usr'', ''cpu0_thermal'', ''cpu1_thermal'', ''mtktscpu'', ''mtk_ts_cpu'', ''mtkts_cpu'',
     ''thermal-cpuss-0'', ''thermal-cpuss-1'', ''exynos_thermal'', ''exynos_dev_thermal'', ''hisi_thermal'',
     ''mtktsAP'', ''mtk_ts_ap'', ''ap_cdev'', ''ap_thermal'', ''soc_thermal'', ''soc-thermal'', ''cpu_thermal'',
     ''cpu-thermal'', ''tsens_tz_sensor10'', ''tsens_tz_sensor5'', ''tsens_tz_sensor0'', ''big-core'',
     ''mid-core'', ''little-core'']"

definition BLACKLIST :: "string list" where
  "BLACKLIST = [''battery'', ''bms'', ''bat'', ''charger'', ''usb'', ''pa_therm'', ''pa-therm'', ''modem'', ''wifi'',
     ''wlan'', ''gpu'', ''camera'', ''flash'', ''led'', ''pmic'', ''buck'', ''ldo'', ''xo_therm'', ''quiet'', ''backlight'']"

record tz_info =
  tz_name :: string
  tz_folder :: string

section \<open>Thermal zones\<close>

definition c_string :: "string \<Rightarrow> string" where
  "c_string buf = takeWhile (\<lambda>c. c \<noteq> CHR 0x00) buf"

text \<open>The bytes of a buffer up to its first line end, as a C string.\<close>

definition first_line :: "string \<Rightarrow> string" where
  "first_line buf = c_string (takeWhile (\<lambda>c. c \<noteq> newline \<and> c \<noteq> CHR 0x0D) buf)"

definition path_of :: "nat \<Rightarrow> string \<Rightarrow> string \<Rightarrow> string \<Rightarrow> string" where
  "path_of len dir sub file = (case pg_str_build_path len dir sub file of Some p \<Rightarrow> p | None \<Rightarrow> [])"

definition thermal_valid :: "string \<Rightarrow> bool" where
  "thermal_valid name =
     (let l_name = pg_str_to_lower (take 63 name);
          cpu = pg_str_contains l_name ''cpu'' \<or> pg_str_contains l_name ''soc'' \<or>
            pg_str_contains l_name ''cluster'' \<or> pg_str_contains l_name ''ap''
      in if \<not> cpu then False else \<not> list_ex (\<lambda>b. pg_str_contains l_name b) BLACKLIST)"

text \<open>Open, read once with retries, close; \<open>None\<close> if there is nothing to read.\<close>

definition read_node :: "os \<Rightarrow> string \<Rightarrow> hist \<Rightarrow> (string option \<times> hist) option" where
  "read_node os path h =
     (case sys_open os path [O_RDONLY, O_CLOEXEC] h of
        (Inl err, h) \<Rightarrow> Some (None, h)
      | (Inr fd, h) \<Rightarrow> do {
          (bytes, h) \<leftarrow> retry_eintr (sys_read os fd 63) h;
          let h = sys_close fd h;
          Some (case bytes of Inl err \<Rightarrow> None | Inr buf \<Rightarrow> if buf = [] then None else Some buf, h)
        })"

definition type_valid :: "os \<Rightarrow> string \<Rightarrow> hist \<Rightarrow> (bool \<times> hist) option" where
  "type_valid os name h = do {
     (bytes, h) \<leftarrow> read_node os (path_of 256 PG_PATH_THERMAL_BASE name ''type'') h;
     Some (case bytes of
             None \<Rightarrow> False
           | Some buf \<Rightarrow> let buf = first_line buf in if list_ex (\<lambda>p. buf = p) PRIORITY then True else thermal_valid buf, h)
   }"

fun find_priority_from :: "string list \<Rightarrow> tz_info list \<Rightarrow> tz_info option" where
  "find_priority_from [] zones = None"
| "find_priority_from (p # ps) zones =
     (case find (\<lambda>z. tz_name z = p) zones of Some z \<Rightarrow> Some z | None \<Rightarrow> find_priority_from ps zones)"

definition find_priority :: "tz_info list \<Rightarrow> nat \<Rightarrow> string option" where
  "find_priority zones len =
     map_option (\<lambda>z. path_of len PG_PATH_THERMAL_BASE (tz_folder z) ''temp'') (find_priority_from PRIORITY zones)"

definition find_heuristic :: "tz_info list \<Rightarrow> nat \<Rightarrow> string option" where
  "find_heuristic zones len =
     map_option (\<lambda>z. path_of len PG_PATH_THERMAL_BASE (tz_folder z) ''temp'') (find (\<lambda>z. thermal_valid (tz_name z)) zones)"

definition zone_body :: "os \<Rightarrow> string \<Rightarrow> tz_info list \<Rightarrow> hist \<Rightarrow> (bool \<times> tz_info list \<times> hist) option" where
  "zone_body os name zones h =
     (if 256 \<le> length zones then Some (False, zones, h)
      else if \<not> pg_str_has_prefix name ''thermal_zone'' then Some (True, zones, h)
      else do {
        (bytes, h) \<leftarrow> read_node os (path_of 256 PG_PATH_THERMAL_BASE name ''type'') h;
        Some (True,
          case bytes of
            None \<Rightarrow> zones
          | Some buf \<Rightarrow> zones @ [\<lparr>tz_name = take 63 (first_line buf), tz_folder = take 63 name\<rparr>], h)
      })"

text \<open>The status and the path, which is empty when no zone is found.\<close>

definition pg_scan_thermal_zone :: "os \<Rightarrow> nat \<Rightarrow> hist \<Rightarrow> (int \<times> string \<times> hist) option" where
  "pg_scan_thermal_zone os len h =
     (if len = 0 then Some (- EINVAL, [], h)
      else case sys_opendir os PG_PATH_THERMAL_BASE h of
             (Inl err, h) \<Rightarrow> Some (- ENOENT, [], h)
           | (Inr dir, h) \<Rightarrow> do {
               (zones, h) \<leftarrow> readdir_loop os dir (zone_body os) [] h;
               let h = sys_closedir dir h;
               Some (case find_priority zones len of
                       Some path \<Rightarrow> (0, path, h)
                     | None \<Rightarrow>
                         (case find_heuristic zones len of Some path \<Rightarrow> (0, path, h) | None \<Rightarrow> (- ENODEV, [], h)))
             })"

section \<open>Backlights\<close>

definition backlight_body :: "os \<Rightarrow> nat \<Rightarrow> string \<Rightarrow> string list \<Rightarrow> hist \<Rightarrow> (bool \<times> string list \<times> hist) option" where
  "backlight_body os mx name paths h =
     (if name \<noteq> [] \<and> hd name = CHR ''.'' then Some (True, paths, h)
      else let path = path_of PG_BL_PATH_LEN PG_PATH_BACKLIGHT_BASE name ''brightness''
           in case sys_open os path [O_RDONLY, O_CLOEXEC] h of
                (Inl err, h) \<Rightarrow> Some (True, paths, h)
              | (Inr fd, h) \<Rightarrow>
                  (let h = sys_close fd h; paths = paths @ [path] in Some (length paths < mx, paths, h)))"

text \<open>The result (the number of paths or a negated errno) and the paths.\<close>

definition pg_scan_backlight :: "os \<Rightarrow> nat \<Rightarrow> hist \<Rightarrow> (int \<times> string list \<times> hist) option" where
  "pg_scan_backlight os mx h =
     (if mx = 0 then Some (- EINVAL, [], h)
      else case sys_opendir os PG_PATH_BACKLIGHT_BASE h of
             (Inl err, h) \<Rightarrow> Some (- ENOENT, [], h)
           | (Inr dir, h) \<Rightarrow> do {
               (paths, h) \<leftarrow> readdir_loop os dir (backlight_body os mx) [] h;
               let h = sys_closedir dir h;
               Some (if paths = [] then (- ENODEV, [], h) else (int (length paths), paths, h))
             })"

section \<open>Trip points\<close>

definition format_trip_node :: "nat \<Rightarrow> string \<Rightarrow> string" where
  "format_trip_node i sfx = ''trip_point_'' @ [char_of (48 + i)] @ ''_'' @ sfx"

fun trip_point_from :: "os \<Rightarrow> string \<Rightarrow> nat list \<Rightarrow> nat \<Rightarrow> hist \<Rightarrow> (string option \<times> hist) option" where
  "trip_point_from os name [] len h = Some (None, h)"
| "trip_point_from os name (i # is) len h = do {
     (bytes, h) \<leftarrow> read_node os (path_of 256 PG_PATH_THERMAL_BASE name (format_trip_node i ''type'')) h;
     case bytes of
       None \<Rightarrow> trip_point_from os name is len h
     | Some buf \<Rightarrow>
         (let buf = c_string buf
          in if pg_str_contains buf ''passive'' \<or> pg_str_contains buf ''critical''
             then Some (Some (path_of len PG_PATH_THERMAL_BASE name (format_trip_node i ''temp'')), h)
             else trip_point_from os name is len h)
   }"

definition trip_point :: "os \<Rightarrow> string \<Rightarrow> nat \<Rightarrow> hist \<Rightarrow> (string option \<times> hist) option" where
  "trip_point os name len h = trip_point_from os name [0..<10] len h"

definition trip_body :: "os \<Rightarrow> nat \<Rightarrow> string \<Rightarrow> string option \<Rightarrow> hist \<Rightarrow> (bool \<times> string option \<times> hist) option" where
  "trip_body os len name found h =
     (if \<not> pg_str_has_prefix name ''thermal_zone'' then Some (True, found, h)
      else do {
        (valid, h) \<leftarrow> type_valid os name h;
        if \<not> valid then Some (True, found, h)
        else do {
          (r, h) \<leftarrow> trip_point os name len h;
          Some (case r of Some path \<Rightarrow> (False, Some path, h) | None \<Rightarrow> (True, found, h))
        }
      })"

definition pg_scan_trip_point :: "os \<Rightarrow> nat \<Rightarrow> hist \<Rightarrow> (int \<times> string \<times> hist) option" where
  "pg_scan_trip_point os len h =
     (if len = 0 then Some (- EINVAL, [], h)
      else case sys_opendir os PG_PATH_THERMAL_BASE h of
             (Inl err, h) \<Rightarrow> Some (- ENOENT, [], h)
           | (Inr dir, h) \<Rightarrow> do {
               (found, h) \<leftarrow> readdir_loop os dir (trip_body os len) None h;
               let h = sys_closedir dir h;
               Some (case found of Some path \<Rightarrow> (0, path, h) | None \<Rightarrow> (- ENODEV, [], h))
             })"

text \<open>The trip temperature of the sensors; the product is cut to 32 bits before its range is checked.\<close>

definition trip_temp :: "q16 \<Rightarrow> i32 \<Rightarrow> q16" where
  "trip_temp fallback val =
     (let temp = ucast (word_sdiv (scast val * (scast Q16_ONE :: q32)) 1000)
      in if temp <s INT_TO_Q16 40 \<or> INT_TO_Q16 115 <s temp then fallback else temp)"

definition pg_sensor_get_trip_temp :: "os \<Rightarrow> q16 \<Rightarrow> hist \<Rightarrow> (q16 \<times> hist) option" where
  "pg_sensor_get_trip_temp os fallback h = do {
     (ret, path, h) \<leftarrow> pg_scan_trip_point os 256 h;
     if ret \<noteq> 0 then Some (fallback, h)
     else do {
       (r, h) \<leftarrow> pg_sysfs_read_i32 os path h;
       Some (case r of Inl err \<Rightarrow> fallback | Inr val \<Rightarrow> trip_temp fallback val, h)
     }
   }"

section \<open>What the searches return\<close>

text \<open>
  \<open>z\<close> comes first: its name is in the table, no zone has a name that is earlier in the table, and
  no earlier zone has the same name.
\<close>

definition first_zone :: "tz_info list \<Rightarrow> tz_info \<Rightarrow> bool" where
  "first_zone zones z \<longleftrightarrow> (\<exists>i < length PRIORITY. tz_name z = PRIORITY ! i \<and>
     (\<forall>j < i. \<forall>y \<in> set zones. tz_name y \<noteq> PRIORITY ! j) \<and>
     (\<exists>k < length zones. zones ! k = z \<and> (\<forall>m < k. tz_name (zones ! m) \<noteq> tz_name z)))"

lemma find_priority_from_Some:
  assumes "find_priority_from ps zones = Some z"
  shows "\<exists>i < length ps. tz_name z = ps ! i \<and> (\<forall>j < i. \<forall>y \<in> set zones. tz_name y \<noteq> ps ! j) \<and>
     (\<exists>k < length zones. zones ! k = z \<and> (\<forall>m < k. tz_name (zones ! m) \<noteq> tz_name z))"
  using assms
proof (induction ps)
  case (Cons p ps)
  show ?case
  proof (cases "find (\<lambda>z. tz_name z = p) zones")
    case None
    then have "\<forall>y \<in> set zones. tz_name y \<noteq> p" by (auto simp: find_None_iff)
    moreover obtain i where "i < length ps" "tz_name z = ps ! i" "\<forall>j < i. \<forall>y \<in> set zones. tz_name y \<noteq> ps ! j"
      "\<exists>k < length zones. zones ! k = z \<and> (\<forall>m < k. tz_name (zones ! m) \<noteq> tz_name z)"
      using Cons.IH Cons.prems None by (auto simp del: ex_simps) metis
    ultimately show ?thesis
      by (intro exI [of _ "Suc i"]) (auto simp: nth_Cons split: nat.splits)
  next
    case (Some y)
    then have "y = z" using Cons.prems by simp
    then show ?thesis
      using Some [unfolded find_Some_iff] by (intro exI [of _ 0]) auto
  qed
qed simp

lemma find_priority_from_None:
  "find_priority_from ps zones = None \<longleftrightarrow> (\<forall>z \<in> set zones. tz_name z \<notin> set ps)"
proof (induction ps)
  case (Cons p ps)
  show ?case
  proof (cases "find (\<lambda>z. tz_name z = p) zones")
    case None
    then show ?thesis using Cons.IH None [unfolded find_None_iff] by auto
  next
    case (Some z)
    then have "z \<in> set zones" "tz_name z = p" by (auto simp: find_Some_iff)
    then show ?thesis using Some by auto
  qed
qed simp

section \<open>Scans only look\<close>

definition scans :: "hist \<Rightarrow> hist \<Rightarrow> bool" where
  "scans h h' \<longleftrightarrow> looks h h' \<and> grows no_opendir h h'"

lemma scans_refl: "scans h h"
  by (simp add: scans_def)

lemma scans_trans: "scans h h' \<Longrightarrow> scans h' h'' \<Longrightarrow> scans h h''"
  by (auto simp: scans_def intro: looks_trans grows_trans)

lemma scans_readdir: "scans h (Readdir d r # h)"
  by (auto simp: scans_def no_opendir_def intro: looks_Cons)

lemma read_node_scans:
  assumes os: "os_ok os"
  shows "runs (read_node os path h) (\<lambda>(r, h'). scans h h' \<and> (\<forall>buf. r = Some buf \<longrightarrow> (\<exists>fd. Read fd 63 (Inr buf) \<in> set h')))"
proof (cases "os_open os h path [O_RDONLY, O_CLOEXEC]")
  case (Inl err)
  then show ?thesis by (auto simp: read_node_def sys_open_def Let_def scans_def no_opendir_def intro: looks_Cons)
next
  case (Inr fd)
  have l: "scans h (Close fd # Read fd n r # replicate k (Read fd n r') @ Open path [O_RDONLY, O_CLOEXEC] (Inr fd) # h)" for n k r r'
  proof -
    have "grows no_opendir h ((Close fd # Read fd n r # replicate k (Read fd n r') @ [Open path [O_RDONLY, O_CLOEXEC] (Inr fd)]) @ h)"
      by (simp only: grows_append) (auto simp: no_opendir_def)
    then show ?thesis
      using looks_read [OF fresh_fd(1) [OF os Inr]] by (simp add: scans_def)
  qed
  show ?thesis
    unfolding read_node_def sys_open_def Let_def Inr
    using l by (auto simp: sys_close_def split: sum.splits
        intro!: runs_mono [OF retry_read [OF os_okD(1) [OF os], of fd]])
qed
section \<open>The thermal zone\<close>

text \<open>Every zone in the table comes from an entry of the directory and from a text that was read.\<close>

definition zones_seen :: "tz_info list \<Rightarrow> hist \<Rightarrow> bool" where
  "zones_seen zones h \<longleftrightarrow> length zones \<le> 256 \<and> (\<forall>z \<in> set zones. \<exists>n d buf fd.
     Readdir d (Some n) \<in> set h \<and> pg_str_has_prefix n ''thermal_zone'' \<and> tz_folder z = take 63 n \<and>
     Read fd 63 (Inr buf) \<in> set h \<and> tz_name z = take 63 (first_line buf))"

lemma zones_seen_mono: "zones_seen zones h \<Longrightarrow> set h \<subseteq> set h' \<Longrightarrow> zones_seen zones h'"
  unfolding zones_seen_def by (meson subsetD)

lemma scans_set: "scans h h' \<Longrightarrow> set h \<subseteq> set h'"
  by (auto simp: scans_def grows_def)

lemma zone_body_spec:
  assumes os: "os_ok os" and z: "zones_seen zones h"
  shows "runs (zone_body os name zones (Readdir dir (Some name) # h))
    (\<lambda>(go_on, zones', h'). zones_seen zones' h' \<and> scans (Readdir dir (Some name) # h) h')"
proof -
  let ?g = "Readdir dir (Some name) # h"
  have keep: "zones_seen zones h'" if "scans ?g h'" for h'
    by (rule zones_seen_mono [OF z]) (use scans_set [OF that] in auto)
  have add: "zones_seen (zones @ [\<lparr>tz_name = take 63 (first_line buf), tz_folder = take 63 name\<rparr>]) h'"
    if "scans ?g h'" "Read fd 63 (Inr buf) \<in> set h'" "\<not> 256 \<le> length zones" "pg_str_has_prefix name ''thermal_zone''" for h' buf fd
  proof -
    have "Readdir dir (Some name) \<in> set h'" using scans_set [OF that(1)] by auto
    then show ?thesis using that keep [OF that(1)] unfolding zones_seen_def by auto
  qed
  have r: "scans ?g ?g" by (rule scans_refl)
  show ?thesis
    unfolding zone_body_def
    using add keep keep [OF r] r
    by (auto simp del: has_prefix_iff split: option.splits intro!: runs_mono [OF read_node_scans [OF os]])
qed

lemma scans_looks: "scans h h' \<Longrightarrow> looks h h'"
  by (simp add: scans_def)

lemma dir_bracket: "scans (Opendir p r # h) h' \<Longrightarrow> looks h (Closedir d # h')"
  by (rule looks_trans [of _ "Opendir p r # h"]) (auto simp: scans_def intro: looks_Cons)

definition zone_choice :: "tz_info list \<Rightarrow> nat \<Rightarrow> int \<Rightarrow> string \<Rightarrow> bool" where
  "zone_choice zones len ret path \<longleftrightarrow>
     (if \<exists>z \<in> set zones. tz_name z \<in> set PRIORITY
      then ret = 0 \<and> (\<exists>z. first_zone zones z \<and> path = path_of len PG_PATH_THERMAL_BASE (tz_folder z) ''temp'')
      else if \<exists>z \<in> set zones. thermal_valid (tz_name z)
      then ret = 0 \<and> (\<exists>k < length zones. thermal_valid (tz_name (zones ! k)) \<and>
        (\<forall>m < k. \<not> thermal_valid (tz_name (zones ! m))) \<and>
        path = path_of len PG_PATH_THERMAL_BASE (tz_folder (zones ! k)) ''temp'')
      else ret < 0 \<and> path = [])"

lemma zone_choice_found:
  "zone_choice zones len
     (fst (case find_priority zones len of Some path \<Rightarrow> (0, path, h)
           | None \<Rightarrow> (case find_heuristic zones len of Some path \<Rightarrow> (0, path, h) | None \<Rightarrow> (- ENODEV, [], h))))
     (fst (snd (case find_priority zones len of Some path \<Rightarrow> (0, path, h)
           | None \<Rightarrow> (case find_heuristic zones len of Some path \<Rightarrow> (0, path, h) | None \<Rightarrow> (- ENODEV, [], h)))))"
proof (cases "find_priority_from PRIORITY zones")
  case (Some z)
  then have f: "first_zone zones z" using find_priority_from_Some unfolding first_zone_def by blast
  have "\<not> (\<forall>z \<in> set zones. tz_name z \<notin> set PRIORITY)" using Some find_priority_from_None [of PRIORITY zones] by auto
  then show ?thesis using Some f by (auto simp: zone_choice_def find_priority_def)
next
  case None
  then have n: "\<forall>z \<in> set zones. tz_name z \<notin> set PRIORITY" by (simp add: find_priority_from_None)
  show ?thesis
  proof (cases "find (\<lambda>z. thermal_valid (tz_name z)) zones")
    case n2: None
    then have "\<forall>z \<in> set zones. \<not> thermal_valid (tz_name z)" by (simp add: find_None_iff)
    then show ?thesis using None n n2 by (simp add: zone_choice_def find_priority_def find_heuristic_def)
  next
    case (Some z)
    then obtain k where k: "k < length zones" "thermal_valid (tz_name (zones ! k))" "z = zones ! k"
      "\<forall>m < k. \<not> thermal_valid (tz_name (zones ! m))"
      by (auto simp: find_Some_iff)
    then have "\<exists>z \<in> set zones. thermal_valid (tz_name z)" by (meson nth_mem)
    then show ?thesis
      using None n Some k unfolding zone_choice_def find_priority_def find_heuristic_def by auto
  qed
qed

lemma thermal_zone_spec:
  assumes os: "os_ok os"
  shows "runs (pg_scan_thermal_zone os len h) (\<lambda>(ret, path, h'). looks h h' \<and>
    (ret < 0 \<and> path = [] \<or> (\<exists>zones. zones_seen zones h' \<and> zone_choice zones len ret path)))"
proof (cases "len = 0 \<or> (\<exists>err. os_opendir os h PG_PATH_THERMAL_BASE = Inl err)")
  case True
  then show ?thesis
    by (auto simp: pg_scan_thermal_zone_def sys_opendir_def Let_def intro!: looks_Cons)
next
  case False
  then obtain dir where d: "os_opendir os h PG_PATH_THERMAL_BASE = Inr dir" and l: "len \<noteq> 0"
    by (cases "os_opendir os h PG_PATH_THERMAL_BASE") auto
  let ?g = "Opendir PG_PATH_THERMAL_BASE (Inr dir) # h"
  define Q where "Q = (\<lambda>(ret, path, h'). looks h h' \<and>
    (ret < 0 \<and> path = [] \<or> (\<exists>zones. zones_seen zones h' \<and> zone_choice zones len ret path)))"
  have fin: "Q (case find_priority zones len of Some path \<Rightarrow> (0, path, Closedir dir # h')
      | None \<Rightarrow> (case find_heuristic zones len of Some path \<Rightarrow> (0, path, Closedir dir # h') | None \<Rightarrow> (- ENODEV, [], Closedir dir # h')))"
    if "zones_seen zones h'" "scans ?g h'" for zones h'
  proof -
    have "looks h (Closedir dir # h')" using that(2) by (rule dir_bracket)
    moreover have "zones_seen zones (Closedir dir # h')" by (rule zones_seen_mono [OF that(1)]) auto
    ultimately show ?thesis
      using zone_choice_found [of zones len "Closedir dir # h'"] unfolding Q_def
      by (auto split: option.splits)
  qed
  have loop: "runs (readdir_loop os dir (zone_body os) [] ?g) (\<lambda>(zones, h'). zones_seen zones h' \<and> scans ?g h' \<and> grows no_opendir ?g h')"
  proof (rule readdir_loop_spec [OF os, where ok = zones_seen])
    fix name zones h assume z: "zones_seen zones h"
    show "runs (zone_body os name zones (Readdir dir (Some name) # h)) (\<lambda>(go_on, zones', h').
        (if go_on then zones_seen zones' h' else zones_seen zones' h') \<and> scans (Readdir dir (Some name) # h) h' \<and> grows no_opendir (Readdir dir (Some name) # h) h')"
      by (rule runs_mono [OF zone_body_spec [OF os z]]) (auto simp: scans_def)
  qed (auto simp: zones_seen_def intro: scans_trans scans_readdir elim: zones_seen_mono)
  show ?thesis
    unfolding pg_scan_thermal_zone_def Q_def [symmetric] sys_opendir_def Let_def d sys_closedir_def
    using l fin by (auto intro!: runs_mono [OF loop])
qed

section \<open>Backlights and trip points\<close>

lemma path_of_bounded: "0 < len \<Longrightarrow> length (path_of len dir sub file) < len"
  unfolding path_of_def by (simp add: build_path_eq)

definition paths_seen :: "string list \<Rightarrow> hist \<Rightarrow> bool" where
  "paths_seen paths h \<longleftrightarrow> (\<forall>p \<in> set paths. length p < 128 \<and> (\<exists>fd. Open p [O_RDONLY, O_CLOEXEC] (Inr fd) \<in> set h))"

lemma paths_seen_mono: "paths_seen paths h \<Longrightarrow> set h \<subseteq> set h' \<Longrightarrow> paths_seen paths h'"
  unfolding paths_seen_def by (meson subsetD)

lemma backlight_body_spec:
  assumes os: "os_ok os" and p: "paths_seen paths h" "length paths < mx"
  shows "runs (backlight_body os mx name paths (Readdir dir (Some name) # h)) (\<lambda>(go_on, paths', h').
    paths_seen paths' h' \<and> length paths' \<le> mx \<and> (go_on \<longrightarrow> length paths' < mx) \<and> scans (Readdir dir (Some name) # h) h')"
proof -
  let ?g = "Readdir dir (Some name) # h"
  let ?path = "path_of PG_BL_PATH_LEN PG_PATH_BACKLIGHT_BASE name ''brightness''"
  have keep: "paths_seen paths (xs @ ?g)" for xs by (rule paths_seen_mono [OF p(1)]) auto
  have k1: "paths_seen paths ?g" "paths_seen paths (e # ?g)" "paths_seen paths (e # e' # ?g)" for e e'
    using keep [of "[]"] keep [of "[e]"] keep [of "[e, e']"] by simp_all
  have err: "scans ?g (Open ?path [O_RDONLY, O_CLOEXEC] (Inl err) # ?g)" for err
    by (auto simp: scans_def no_opendir_def intro: looks_Cons)
  have ok: "scans ?g (Close fd # Open ?path [O_RDONLY, O_CLOEXEC] (Inr fd) # ?g)"
    if "os_open os ?g ?path [O_RDONLY, O_CLOEXEC] = Inr fd" for fd
    unfolding scans_def using looks_open [OF fresh_fd(1) [OF os that] looks_refl]
    by (intro conjI grows_Cons grows_refl) (auto simp: no_opendir_def)
  have len: "length ?path < 128" by (rule path_of_bounded) simp
  show ?thesis
    using p k1 err ok len
    by (auto simp: backlight_body_def sys_open_def sys_close_def Let_def scans_refl paths_seen_def split: sum.splits)
qed

lemma backlight_spec:
  assumes os: "os_ok os"
  shows "runs (pg_scan_backlight os mx h) (\<lambda>(n, paths, h'). looks h h' \<and> length paths \<le> mx \<and> paths_seen paths h' \<and>
    (if paths = [] then n < 0 else n = int (length paths)))"
proof (cases "mx = 0 \<or> (\<exists>err. os_opendir os h PG_PATH_BACKLIGHT_BASE = Inl err)")
  case True
  then show ?thesis
    by (auto simp: pg_scan_backlight_def sys_opendir_def Let_def paths_seen_def intro!: looks_Cons)
next
  case False
  then obtain dir where d: "os_opendir os h PG_PATH_BACKLIGHT_BASE = Inr dir" and mx: "0 < mx"
    by (cases "os_opendir os h PG_PATH_BACKLIGHT_BASE") auto
  let ?g = "Opendir PG_PATH_BACKLIGHT_BASE (Inr dir) # h"
  have loop: "runs (readdir_loop os dir (backlight_body os mx) [] ?g) (\<lambda>(paths, h').
      (paths_seen paths h' \<and> length paths \<le> mx) \<and> scans ?g h' \<and> grows no_opendir ?g h')"
  proof (rule readdir_loop_spec [OF os, where ok = "\<lambda>paths h. paths_seen paths h \<and> length paths < mx"])
    fix name paths h assume "paths_seen paths h \<and> length paths < mx"
    then show "runs (backlight_body os mx name paths (Readdir dir (Some name) # h)) (\<lambda>(go_on, paths', h').
        (if go_on then paths_seen paths' h' \<and> length paths' < mx else paths_seen paths' h' \<and> length paths' \<le> mx) \<and>
        scans (Readdir dir (Some name) # h) h' \<and> grows no_opendir (Readdir dir (Some name) # h) h')"
      by (intro runs_mono [OF backlight_body_spec [OF os]]) (auto simp: scans_def)
  qed (use mx in \<open>auto simp: paths_seen_def intro: scans_trans scans_readdir\<close>)
  show ?thesis
    unfolding pg_scan_backlight_def sys_opendir_def Let_def d sys_closedir_def
    using mx by (auto simp: paths_seen_def intro: dir_bracket intro!: runs_mono [OF loop])
qed

lemma trip_point_from_scans:
  assumes os: "os_ok os"
  shows "runs (trip_point_from os name is len h) (\<lambda>(r, h'). scans h h')"
proof (induction "is" arbitrary: h)
  case (Cons i "is")
  have "runs (trip_point_from os name is len g) (\<lambda>(r, h'). scans h h')" if "scans h g" for g
    using that by (intro runs_mono [OF Cons.IH]) (auto intro: scans_trans)
  then show ?case
    by (auto simp: Let_def split: option.splits intro!: runs_mono [OF read_node_scans [OF os]])
qed (simp add: scans_refl)

lemma type_valid_scans: "os_ok os \<Longrightarrow> runs (type_valid os name h) (\<lambda>(r, h'). scans h h')"
  unfolding type_valid_def by (auto intro!: runs_mono [OF read_node_scans])

lemma trip_body_scans:
  assumes os: "os_ok os"
  shows "runs (trip_body os len name found h) (\<lambda>(go_on, r, h'). scans h h')"
  unfolding trip_body_def trip_point_def
  by (auto simp: scans_refl split: option.splits
      intro!: runs_mono [OF type_valid_scans [OF os]] runs_mono [OF trip_point_from_scans [OF os]]) (erule (1) scans_trans)+

lemma scan_trip_looks:
  assumes os: "os_ok os"
  shows "runs (pg_scan_trip_point os len h) (\<lambda>(ret, path, h'). looks h h')"
proof (cases "len = 0 \<or> (\<exists>err. os_opendir os h PG_PATH_THERMAL_BASE = Inl err)")
  case True
  then show ?thesis
    by (auto simp: pg_scan_trip_point_def sys_opendir_def Let_def intro!: looks_Cons)
next
  case False
  then obtain dir where d: "os_opendir os h PG_PATH_THERMAL_BASE = Inr dir" and len: "0 < len"
    by (cases "os_opendir os h PG_PATH_THERMAL_BASE") auto
  let ?g = "Opendir PG_PATH_THERMAL_BASE (Inr dir) # h"
  have loop: "runs (readdir_loop os dir (trip_body os len) None ?g)
      (\<lambda>(r, h'). True \<and> scans ?g h' \<and> grows no_opendir ?g h')"
  proof (rule readdir_loop_spec [OF os, where ok = "\<lambda>_ _. True"])
    fix name found h
    show "runs (trip_body os len name found (Readdir dir (Some name) # h)) (\<lambda>(go_on, r, h'). (if go_on then True else True) \<and>
        scans (Readdir dir (Some name) # h) h' \<and> grows no_opendir (Readdir dir (Some name) # h) h')"
      by (rule runs_mono [OF trip_body_scans [OF os]]) (auto simp: scans_def)
  qed (auto intro: scans_trans scans_readdir)
  show ?thesis
    unfolding pg_scan_trip_point_def sys_opendir_def Let_def d sys_closedir_def
    using len by (auto intro: dir_bracket split: option.splits intro!: runs_mono [OF loop])
qed

lemma trip_temp_range: "trip_temp fb v = fb \<or> 40 * 65536 \<le> sint (trip_temp fb v) \<and> sint (trip_temp fb v) \<le> 115 * 65536"
proof -
  have "sint (INT_TO_Q16 40) = 2621440" "sint (INT_TO_Q16 115) = 7536640" by (simp_all add: q16_consts)
  then show ?thesis by (auto simp: trip_temp_def Let_def sint_cmp not_less)
qed

text \<open>The range is checked after the truncation to 32 bits: 65586 degrees are taken for 50.\<close>

lemma trip_temp_wraps: "trip_temp fb 65586000 = INT_TO_Q16 50"
  by (simp add: trip_temp_def word_sdiv_def INT_TO_Q16_def)

lemma get_trip_temp_spec:
  assumes os: "os_ok os"
  shows "runs (pg_sensor_get_trip_temp os fb h) (\<lambda>(t, h'). looks h h' \<and>
    (t = fb \<or> 40 * 65536 \<le> sint t \<and> sint t \<le> 115 * 65536))"
  unfolding pg_sensor_get_trip_temp_def using trip_temp_range
  by (auto split: sum.splits
      intro!: runs_mono [OF scan_trip_looks [OF os]] runs_mono [OF read_i32_looks [OF os]]) (erule (1) looks_trans)+



end
