(* ===== verification/Pg_Tune.thy ===== *)
theory Pg_Tune
  imports Pg_Cpu Pg_Thermal Pg_Topo Pg_Scan
begin

text \<open>
  The tables of \<^verbatim>\<open>src/policy/config.c\<close> and their tuning to the machine, \<^verbatim>\<open>src/policy/tune.c\<close>.  The
  three global tables are values that the tuning takes and returns.  The lemmas show that whatever
  the machine reports, the tables end in the ranges the rest of the program relies on: limits in
  order, slopes at most one half, set points and gains within their bounds.
\<close>

section \<open>Tables\<close>

definition LIM_CPU :: pg_cpu_lim where
  "LIM_CPU = \<lparr>min_lat = FLOAT_TO_Q16 8 1, max_lat = FLOAT_TO_Q16 20 1, min_gran = FLOAT_TO_Q16 25 10,
     max_gran = FLOAT_TO_Q16 65 10, min_wake = FLOAT_TO_Q16 15 10, max_wake = FLOAT_TO_Q16 65 10,
     min_mig = FLOAT_TO_Q16 2 10, max_mig = FLOAT_TO_Q16 6 10, min_walt = FLOAT_TO_Q16 10 1,
     max_walt = FLOAT_TO_Q16 40 1, min_ucl = FLOAT_TO_Q16 0 1, max_ucl = FLOAT_TO_Q16 384 1\<rparr>"

definition CFG_CPU :: pg_cpu_cfg where
  "CFG_CPU = \<lparr>lat_gran_rat = FLOAT_TO_Q16 34 100, uclamp_k = FLOAT_TO_Q16 185 1000, sigmoid_k = FLOAT_TO_Q16 72 1000,
     surge_thresh = FLOAT_TO_Q16 175 10, trans_rate = FLOAT_TO_Q16 115 1000, trans_diff = FLOAT_TO_Q16 58 100,
     trans_poll = INT_TO_Q16 50\<rparr>"

definition CFG_THERMAL :: pg_thermal_cfg where
  "CFG_THERMAL = \<lparr>limit_cpu = FLOAT_TO_Q16 525 10, limit_bat = FLOAT_TO_Q16 405 10, kp_base = FLOAT_TO_Q16 61 100,
     ki_base = FLOAT_TO_Q16 95 10000, kd_base = FLOAT_TO_Q16 82 100\<rparr>"

section \<open>Tuning\<close>

definition calc_heuristic_cap :: "i32 \<Rightarrow> i32 \<Rightarrow> q16" where
  "calc_heuristic_cap core mhz =
     (let c_val = INT_TO_Q16 (if 0 <s core then core else 8);
          f_val = INT_TO_Q16 (if 0 <s mhz then mhz else 2000);
          r_core = pg_math_clamp (q16_div c_val (INT_TO_Q16 8)) 0 Q16_ONE;
          r_freq = pg_math_clamp (q16_div f_val (INT_TO_Q16 3500)) 0 Q16_ONE;
          cap = q16_mul r_core (FLOAT_TO_Q16 40 100) + q16_mul r_freq (FLOAT_TO_Q16 60 100)
      in pg_math_clamp cap 0 Q16_ONE)"

text \<open>\<open>val = lerp(a, b, t); clamp(val, lo, hi)\<close>, the step of every tuned entry.\<close>

definition tuned :: "q16 \<Rightarrow> q16 \<Rightarrow> q16 \<Rightarrow> q16 \<Rightarrow> q16 \<Rightarrow> q16" where
  "tuned a b t lo hi = pg_math_clamp (pg_math_lerp a b t) lo hi"

definition tune_limits :: "q16 \<Rightarrow> pg_cpu_lim \<Rightarrow> pg_cpu_lim" where
  "tune_limits cap lim = lim\<lparr>
     max_ucl := tuned (FLOAT_TO_Q16 384 1) (FLOAT_TO_Q16 1024 1) cap (FLOAT_TO_Q16 384 1) (FLOAT_TO_Q16 1024 1),
     min_lat := tuned (FLOAT_TO_Q16 20 1) (FLOAT_TO_Q16 4 1) cap (FLOAT_TO_Q16 4 1) (FLOAT_TO_Q16 20 1),
     max_lat := tuned (FLOAT_TO_Q16 25 1) (FLOAT_TO_Q16 12 1) cap (FLOAT_TO_Q16 12 1) (FLOAT_TO_Q16 25 1),
     min_gran := tuned (FLOAT_TO_Q16 65 10) (FLOAT_TO_Q16 15 10) cap (FLOAT_TO_Q16 15 10) (FLOAT_TO_Q16 65 10),
     max_gran := tuned (FLOAT_TO_Q16 10 1) (FLOAT_TO_Q16 4 1) cap (FLOAT_TO_Q16 4 1) (FLOAT_TO_Q16 10 1),
     min_wake := tuned (FLOAT_TO_Q16 3 1) (FLOAT_TO_Q16 1 1) cap (FLOAT_TO_Q16 1 1) (FLOAT_TO_Q16 3 1),
     max_wake := tuned (FLOAT_TO_Q16 8 1) (FLOAT_TO_Q16 4 1) cap (FLOAT_TO_Q16 4 1) (FLOAT_TO_Q16 8 1),
     min_mig := tuned (FLOAT_TO_Q16 6 10) (FLOAT_TO_Q16 2 10) cap (FLOAT_TO_Q16 2 10) (FLOAT_TO_Q16 6 10),
     max_mig := tuned (FLOAT_TO_Q16 12 10) (FLOAT_TO_Q16 6 10) cap (FLOAT_TO_Q16 6 10) (FLOAT_TO_Q16 12 10)\<rparr>"

definition pg_tune_limits :: "os \<Rightarrow> pg_cpu_lim \<Rightarrow> hist \<Rightarrow> (pg_cpu_lim \<times> hist) option" where
  "pg_tune_limits os lim h =
     (let (core, h) = pg_topo_get_core_count os h in do {
        (freq_khz, h) \<leftarrow> pg_topo_get_max_freq_khz os h;
        if core \<le>s 0 \<or> freq_khz \<le>s 0 then Some (lim, h)
        else let cap = calc_heuristic_cap core (word_sdiv freq_khz 1000)
             in Some (tune_limits cap lim, h)
      })"

text \<open>The results are \<open>*rat\<close>, \<open>*rel\<close> and \<open>*therm\<close>; \<open>topo_metrics\<close> is the part without input.\<close>

definition topo_metrics :: "int + i32 \<times> i32 \<times> i32 \<Rightarrow> i32 \<Rightarrow> i32 \<Rightarrow> q16 \<times> q16 \<times> q16" where
  "topo_metrics r khz core =
     (let (cap, min_c, max_c) = (case r of Inr st \<Rightarrow> st | Inl err \<Rightarrow> (0, 0, 0));
          eas = (case r of Inr st \<Rightarrow> True | Inl err \<Rightarrow> False);
          (mhz, rel, rat) =
            (if \<not> eas \<or> max_c \<le>s 0 \<or> khz \<le>s 0
             then let mhz = (if 0 <s khz then word_sdiv khz 1000 else 2000)
                  in (mhz, calc_heuristic_cap core mhz, if 4 <s core then FLOAT_TO_Q16 50 100 else Q16_ONE)
             else (word_sdiv khz 1000,
                   pg_math_clamp (q16_div (INT_TO_Q16 cap) (INT_TO_Q16 8192)) 0 Q16_ONE,
                   pg_math_clamp (q16_div (INT_TO_Q16 min_c) (INT_TO_Q16 max_c)) 0 Q16_ONE));
          f_val = pg_math_clamp (q16_div (INT_TO_Q16 mhz) (INT_TO_Q16 3500)) 0 Q16_ONE
      in (rat, rel, pg_math_clamp (q16_mul rel f_val) 0 Q16_ONE))"

definition calc_topo_metrics :: "os \<Rightarrow> hist \<Rightarrow> ((q16 \<times> q16 \<times> q16) \<times> hist) option" where
  "calc_topo_metrics os h = do {
     (r, h) \<leftarrow> pg_topo_get_cpu_capacity os h;
     (khz, h) \<leftarrow> pg_topo_get_max_freq_khz os h;
     let (core, h) = pg_topo_get_core_count os h;
     Some (topo_metrics r khz core, h)
   }"

definition tune_cpu_configs :: "q16 \<Rightarrow> q16 \<Rightarrow> pg_cpu_cfg \<Rightarrow> pg_cpu_cfg" where
  "tune_cpu_configs rel rat cfg = cfg\<lparr>
     lat_gran_rat := tuned (FLOAT_TO_Q16 50 100) (FLOAT_TO_Q16 20 100) rel (FLOAT_TO_Q16 20 100) (FLOAT_TO_Q16 50 100),
     uclamp_k := tuned (FLOAT_TO_Q16 12 100) (FLOAT_TO_Q16 25 100) rat (FLOAT_TO_Q16 12 100) (FLOAT_TO_Q16 25 100),
     sigmoid_k := tuned (FLOAT_TO_Q16 4 100) (FLOAT_TO_Q16 12 100) rat (FLOAT_TO_Q16 4 100) (FLOAT_TO_Q16 12 100),
     surge_thresh := tuned (FLOAT_TO_Q16 12 1) (FLOAT_TO_Q16 25 1) rel (FLOAT_TO_Q16 12 1) (FLOAT_TO_Q16 25 1),
     trans_rate := tuned (FLOAT_TO_Q16 8 100) (FLOAT_TO_Q16 20 100) rel (FLOAT_TO_Q16 8 100) (FLOAT_TO_Q16 20 100),
     trans_diff := tuned (FLOAT_TO_Q16 40 100) (FLOAT_TO_Q16 90 100) rel (FLOAT_TO_Q16 40 100) (FLOAT_TO_Q16 90 100)\<rparr>"

definition tune_thermal_with :: "q16 \<Rightarrow> q16 \<Rightarrow> pg_thermal_cfg \<Rightarrow> pg_thermal_cfg" where
  "tune_thermal_with trip therm cfg = cfg\<lparr>
     limit_cpu := pg_math_clamp (trip - INT_TO_Q16 5) (FLOAT_TO_Q16 45 1) (FLOAT_TO_Q16 90 1),
     limit_bat := tuned (FLOAT_TO_Q16 42 1) (FLOAT_TO_Q16 38 1) therm (FLOAT_TO_Q16 38 1) (FLOAT_TO_Q16 42 1),
     ki_base := tuned (FLOAT_TO_Q16 5 1000) (FLOAT_TO_Q16 15 1000) therm (FLOAT_TO_Q16 5 1000) (FLOAT_TO_Q16 15 1000),
     kp_base := tuned (FLOAT_TO_Q16 45 100) (FLOAT_TO_Q16 90 100) therm (FLOAT_TO_Q16 45 100) (FLOAT_TO_Q16 90 100),
     kd_base := tuned (FLOAT_TO_Q16 60 100) (FLOAT_TO_Q16 130 100) therm (FLOAT_TO_Q16 60 100) (FLOAT_TO_Q16 130 100)\<rparr>"

definition tune_thermal_configs :: "os \<Rightarrow> q16 \<Rightarrow> pg_thermal_cfg \<Rightarrow> hist \<Rightarrow> (pg_thermal_cfg \<times> hist) option" where
  "tune_thermal_configs os therm cfg h = do {
     (trip, h) \<leftarrow> pg_sensor_get_trip_temp os (FLOAT_TO_Q16 575 10) h;
     Some (tune_thermal_with trip therm cfg, h)
   }"

definition pg_tune_configs :: "os \<Rightarrow> pg_cpu_cfg \<Rightarrow> pg_thermal_cfg \<Rightarrow> hist \<Rightarrow> (pg_cpu_cfg \<times> pg_thermal_cfg \<times> hist) option" where
  "pg_tune_configs os cpu thermal h = do {
     ((rat, rel, therm), h) \<leftarrow> calc_topo_metrics os h;
     let cpu = tune_cpu_configs rel rat cpu;
     (thermal, h) \<leftarrow> tune_thermal_configs os therm thermal h;
     Some (cpu, thermal, h)
   }"

section \<open>Ranges\<close>

lemma tune_literals [q16_consts]:
  "FLOAT_TO_Q16 50 100 = 32768"
  "FLOAT_TO_Q16 20 100 = 13107"
  "FLOAT_TO_Q16 40 100 = 26214"
  "FLOAT_TO_Q16 90 100 = 58982"
  "FLOAT_TO_Q16 60 100 = 39321"
  "FLOAT_TO_Q16 130 100 = 85196"
  by (simp_all add: FLOAT_TO_Q16_def round_half_even_def f32_exp_numeral Let_def)

lemma tuned_range: "sint lo \<le> sint hi \<Longrightarrow> sint lo \<le> sint (tuned a b t lo hi) \<and> sint (tuned a b t lo hi) \<le> sint hi"
  unfolding tuned_def using clamp_range by blast

text \<open>Two entries that are in order at both ends are in order in between.\<close>

lemma tuned_order:
  assumes t: "unit_range t"
    and r: "\<bar>sint a\<bar> \<le> 67108864" "\<bar>sint b\<bar> \<le> 67108864" "\<bar>sint c\<bar> \<le> 67108864" "\<bar>sint d\<bar> \<le> 67108864"
    and "sint a \<le> sint c" "sint b \<le> sint d"
    and "sint lo \<le> sint hi" "sint lo' \<le> sint hi'" "sint lo \<le> sint lo'" "sint hi \<le> sint hi'"
  shows "sint (tuned a b t lo hi) \<le> sint (tuned c d t lo' hi')"
proof -
  have t': "0 \<le> sint t" "sint t \<le> 65536" using t by (simp_all add: unit_range_def)
  have ab: "sint (pg_math_lerp a b t) = sint a + (sint b - sint a) * sint t div 65536"
    using t' r by (intro sint_lerp) auto
  have cd: "sint (pg_math_lerp c d t) = sint c + (sint d - sint c) * sint t div 65536"
    using t' r by (intro sint_lerp) auto
  have "sint a * (65536 - sint t) \<le> sint c * (65536 - sint t)" "sint b * sint t \<le> sint d * sint t"
    using assms t' by (auto intro: mult_right_mono)
  then have "sint a * 65536 + (sint b - sint a) * sint t \<le> sint c * 65536 + (sint d - sint c) * sint t"
    by (simp add: algebra_simps)
  then have "(sint a * 65536 + (sint b - sint a) * sint t) div 65536 \<le> (sint c * 65536 + (sint d - sint c) * sint t) div 65536"
    by (rule zdiv_mono1) simp
  then have "sint (pg_math_lerp a b t) \<le> sint (pg_math_lerp c d t)" unfolding ab cd by simp
  then show ?thesis
    unfolding tuned_def sint_clamp [OF assms(8)] sint_clamp [OF assms(9)]
    by (intro max.mono min.mono assms(10,11))
qed

lemma heuristic_cap_unit: "unit_range (calc_heuristic_cap core mhz)"
  unfolding calc_heuristic_cap_def Let_def by (intro unit_rangeI) (simp_all add: sint_clamp)

lemma tuned_pair:
  assumes "unit_range t" "0 \<le> sint lo" "sint lo \<le> sint hi" "sint hi \<le> 67108864"
    "0 \<le> sint lo'" "sint lo' \<le> sint hi'" "sint hi' \<le> 67108864" "sint lo \<le> sint lo'" "sint hi \<le> sint hi'"
  shows "lim_pair (tuned hi lo t lo hi) (tuned hi' lo' t lo' hi')"
  using assms tuned_order [OF assms(1), of hi lo hi' lo' lo hi lo' hi']
    tuned_range [of lo hi hi lo t] tuned_range [of lo' hi' hi' lo' t]
  by (simp add: lim_pair_def)

lemma lim_cpu_ok: "lim_ok LIM_CPU"
  by (simp add: lim_ok_def lim_pair_def LIM_CPU_def q16_consts)

lemma tune_limits_ok:
  assumes "unit_range cap"
  shows "lim_ok (tune_limits cap LIM_CPU)"
proof -
  have "lim_pair 0 (tuned 25165824 67108864 cap 25165824 67108864)"
    using tuned_range [of 25165824 67108864 25165824 67108864 cap] by (simp add: lim_pair_def)
  moreover have "lim_pair (tuned 1310720 262144 cap 262144 1310720) (tuned 1638400 786432 cap 786432 1638400)"
    "lim_pair (tuned 425984 98304 cap 98304 425984) (tuned 655360 262144 cap 262144 655360)"
    "lim_pair (tuned 196608 Q16_ONE cap Q16_ONE 196608) (tuned 524288 262144 cap 262144 524288)"
    "lim_pair (tuned 39321 13107 cap 13107 39321) (tuned 78643 39321 cap 39321 78643)"
    by (rule tuned_pair [OF assms]; simp)+
  ultimately show ?thesis
    by (simp add: lim_ok_def tune_limits_def LIM_CPU_def q16_consts) (simp add: lim_pair_def)
qed

lemma tuned_mono:
  assumes r: "\<bar>sint a\<bar> \<le> 67108864" "\<bar>sint b\<bar> \<le> 67108864" and "sint lo \<le> sint hi"
    and t: "unit_range t" and u: "unit_range u" and "sint t \<le> sint u"
  shows "sint a \<le> sint b \<Longrightarrow> sint (tuned a b t lo hi) \<le> sint (tuned a b u lo hi)"
    "sint b \<le> sint a \<Longrightarrow> sint (tuned a b u lo hi) \<le> sint (tuned a b t lo hi)"
proof -
  have lerp: "sint (pg_math_lerp a b v) = sint a + (sint b - sint a) * sint v div 65536" if "unit_range v" for v
    using r that by (intro sint_lerp) (auto simp: unit_range_def)
  show "sint (tuned a b t lo hi) \<le> sint (tuned a b u lo hi)" if "sint a \<le> sint b"
  proof -
    have "(sint b - sint a) * sint t \<le> (sint b - sint a) * sint u"
      using that assms(6) by (intro mult_left_mono) auto
    then show ?thesis unfolding tuned_def
      by (intro clamp_mono assms(3)) (simp add: lerp [OF t] lerp [OF u] zdiv_mono1)
  qed
  show "sint (tuned a b u lo hi) \<le> sint (tuned a b t lo hi)" if "sint b \<le> sint a"
  proof -
    have "(sint b - sint a) * sint u \<le> (sint b - sint a) * sint t"
      using that assms(6) by (intro mult_left_mono_neg) auto
    then show ?thesis unfolding tuned_def
      by (intro clamp_mono assms(3)) (simp add: lerp [OF t] lerp [OF u] zdiv_mono1)
  qed
qed

lemma heuristic_cap_mono:
  assumes c: "0 < sint core" "sint core \<le> sint core'" "sint core' \<le> 32767"
    and m: "0 < sint mhz" "sint mhz \<le> sint mhz'" "sint mhz' \<le> 32767"
  shows "sint (calc_heuristic_cap core mhz) \<le> sint (calc_heuristic_cap core' mhz')"
proof -
  have q: "sint (INT_TO_Q16 x) = sint x * 65536" if "0 < sint x" "sint x \<le> 32767" for x
    using that unfolding INT_TO_Q16_def by (simp add: sint_push no_wrap)
  let ?c = "\<lambda>x. ratio (INT_TO_Q16 x) 524288" and ?f = "\<lambda>x. ratio (INT_TO_Q16 x) 229376000"
  have rc: "sint (?c core) \<le> sint (?c core')" using c by (intro ratio_mono) (simp_all add: q q16_consts)
  have rf: "sint (?f mhz) \<le> sint (?f mhz')" using m by (intro ratio_mono) (simp_all add: q q16_consts)
  have e: "q16_mul x y = q16_mul y x" for x y :: q16 by (simp add: q16_mul_def mult.commute)
  have part: "0 \<le> sint (q16_mul r k) \<and> sint (q16_mul r k) \<le> sint k \<and> sint (q16_mul r k) \<le> sint (q16_mul r' k)"
    if "unit_range r" "unit_range r'" "sint r \<le> sint r'" "0 \<le> sint k" for r r' k
    unfolding e [of r] e [of r'] using that unit_mul_mono [of r r' k k] unit_mul [of r k] by auto
  have add: "sint (a + b) = sint a + sint b"
    if "0 \<le> sint a" "sint a \<le> 26214" "0 \<le> sint b" "sint b \<le> 39321" for a b :: q16
    using that by (simp add: sint_push no_wrap)
  have sum: "sint (q16_mul (?c x) 26214 + q16_mul (?f y) 39321) = sint (q16_mul (?c x) 26214) + sint (q16_mul (?f y) 39321)"
    for x y
    using part [of "?c x" "?c x" 26214] part [of "?f y" "?f y" 39321] by (intro add) auto
  show ?thesis
    using c m part [OF _ _ rc, of 26214] part [OF _ _ rf, of 39321]
    unfolding calc_heuristic_cap_def Let_def ratio_def [symmetric]
    by (intro clamp_mono) (simp_all add: word_sless_alt q16_consts sum)
qed

text \<open>What the tuned configuration promises: slopes and set points in their ranges.\<close>

definition cpu_cfg_ok :: "pg_cpu_cfg \<Rightarrow> bool" where
  "cpu_cfg_ok c \<longleftrightarrow> slope_ok (uclamp_k c) \<and> slope_ok (sigmoid_k c) \<and> unit_range (lat_gran_rat c) \<and>
     0 \<le> sint (surge_thresh c) \<and> sint (surge_thresh c) \<le> 25 * 65536 \<and> unit_range (trans_rate c) \<and>
     unit_range (trans_diff c) \<and> trans_poll c = INT_TO_Q16 50"

definition thermal_cfg_ok :: "pg_thermal_cfg \<Rightarrow> bool" where
  "thermal_cfg_ok c \<longleftrightarrow> 45 * 65536 \<le> sint (limit_cpu c) \<and> sint (limit_cpu c) \<le> 90 * 65536 \<and>
     38 * 65536 \<le> sint (limit_bat c) \<and> sint (limit_bat c) \<le> 42 * 65536 \<and>
     0 \<le> sint (ki_base c) \<and> sint (ki_base c) \<le> 983 \<and> 0 \<le> sint (kp_base c) \<and> sint (kp_base c) \<le> 65536 \<and>
     0 \<le> sint (kd_base c) \<and> sint (kd_base c) \<le> 2 * 65536"

lemma cfg_defaults_ok: "cpu_cfg_ok CFG_CPU" "thermal_cfg_ok CFG_THERMAL"
  by (simp_all add: cpu_cfg_ok_def thermal_cfg_ok_def slope_ok_def unit_range_def CFG_CPU_def CFG_THERMAL_def q16_consts)

lemma tune_cpu_configs_ok: "cpu_cfg_ok c \<Longrightarrow> cpu_cfg_ok (tune_cpu_configs rel rat c)"
  using tuned_range [of 13107 32768 32768 13107 rel] tuned_range [of 7864 16384 7864 16384 rat]
    tuned_range [of 2621 7864 2621 7864 rat] tuned_range [of 786432 1638400 786432 1638400 rel]
    tuned_range [of 5242 13107 5242 13107 rel] tuned_range [of 26214 58982 26214 58982 rel]
  by (simp add: cpu_cfg_ok_def tune_cpu_configs_def slope_ok_def unit_range_def q16_consts)

lemma tune_thermal_with_ok: "thermal_cfg_ok (tune_thermal_with trip therm c)"
  using clamp_range [of 2949120 5898240 "trip - 327680"] tuned_range [of 2490368 2752512 2752512 2490368 therm]
    tuned_range [of 327 983 327 983 therm] tuned_range [of 29491 58982 29491 58982 therm]
    tuned_range [of 39321 85196 39321 85196 therm]
  by (simp add: thermal_cfg_ok_def tune_thermal_with_def q16_consts)

section \<open>What the tuning does\<close>

lemma tune_limits_spec:
  assumes "os_ok os" "lim_ok lim"
  shows "runs (pg_tune_limits os LIM_CPU h) (\<lambda>(lim', h'). lim_ok lim' \<and> looks h h')"
proof -
  obtain core g where c: "pg_topo_get_core_count os h = (core, g)" by (cases "pg_topo_get_core_count os h")
  then have "looks h g"
    using nr_processors_looks [of h os] by (simp add: pg_topo_get_core_count_def split_beta Let_def prod_eq_iff)
  then show ?thesis
    unfolding pg_tune_limits_def c Let_def prod.case
    by (auto simp: lim_cpu_ok tune_limits_ok heuristic_cap_unit intro: looks_trans
        intro!: runs_mono [OF max_freq_spec [OF assms(1)]])
qed

lemma topo_metrics_looks:
  assumes "os_ok os"
  shows "runs (calc_topo_metrics os h) (\<lambda>((rat, rel, therm), h'). looks h h')"
  unfolding calc_topo_metrics_def using nr_processors_looks [of _ os]
  by (auto simp: pg_topo_get_core_count_def split_beta Let_def
      intro!: runs_mono [OF cpu_capacity_spec [OF assms]] runs_mono [OF max_freq_spec [OF assms]])
    (meson looks_trans)+

lemma tune_configs_spec:
  assumes "os_ok os" "cpu_cfg_ok c"
  shows "runs (pg_tune_configs os c t h) (\<lambda>(c', t', h'). cpu_cfg_ok c' \<and> thermal_cfg_ok t' \<and> looks h h')"
  unfolding pg_tune_configs_def tune_thermal_configs_def using assms(2)
  by (auto simp: tune_cpu_configs_ok tune_thermal_with_ok split_beta Let_def intro: looks_trans
      intro!: runs_mono [OF topo_metrics_looks [OF assms(1)]] runs_mono [OF get_trip_temp_spec [OF assms(1)]])

text \<open>
  C21: Whatever processors, frequencies, capacities and trip points the machine reports, tuning
  returns, changes nothing in the system, and leaves scheduler limits in order, response slopes of
  at most one half, and thermal set points and gains in their ranges.
\<close>

theorem tuning_in_range:
  assumes "os_ok os"
  shows "runs (do { (lim, h1) \<leftarrow> pg_tune_limits os LIM_CPU h; (c, t, h2) \<leftarrow> pg_tune_configs os CFG_CPU CFG_THERMAL h1;
      Some (lim, c, t, h2) })
    (\<lambda>(lim, c, t, h'). lim_ok lim \<and> cpu_cfg_ok c \<and> thermal_cfg_ok t \<and> looks h h')"
  by (auto intro: looks_trans intro!: runs_mono [OF tune_limits_spec [OF assms lim_cpu_ok]] runs_mono [OF tune_configs_spec [OF assms cfg_defaults_ok(1)]])

lemma tuning_in_range_witness:
  "runs (do { (lim, h1) \<leftarrow> pg_tune_limits sample_os LIM_CPU []; (c, t, h2) \<leftarrow> pg_tune_configs sample_os CFG_CPU CFG_THERMAL h1;
      Some (lim, c, t, h2) })
    (\<lambda>(lim, c, t, h'). lim_ok lim \<and> cpu_cfg_ok c \<and> thermal_cfg_ok t \<and> looks [] h')"
  by (rule tuning_in_range [OF sample_os_ok])

text \<open>
  A machine with more processors and a higher clock is tuned to shorter scheduler periods and a
  higher utilisation ceiling, never the other way round.
\<close>

theorem tuning_monotone:
  fixes l :: pg_cpu_lim
  assumes "0 < sint core" "sint core \<le> sint core'" "sint core' \<le> 32767"
    and "0 < sint mhz" "sint mhz \<le> sint mhz'" "sint mhz' \<le> 32767"
  defines "slow \<equiv> tune_limits (calc_heuristic_cap core mhz) l" and "fast \<equiv> tune_limits (calc_heuristic_cap core' mhz') l"
  shows "sint (min_lat fast) \<le> sint (min_lat slow) \<and> sint (max_lat fast) \<le> sint (max_lat slow) \<and>
    sint (min_gran fast) \<le> sint (min_gran slow) \<and> sint (max_gran fast) \<le> sint (max_gran slow) \<and>
    sint (min_wake fast) \<le> sint (min_wake slow) \<and> sint (max_wake fast) \<le> sint (max_wake slow) \<and>
    sint (min_mig fast) \<le> sint (min_mig slow) \<and> sint (max_mig fast) \<le> sint (max_mig slow) \<and>
    sint (max_ucl slow) \<le> sint (max_ucl fast)"
  unfolding slow_def fast_def tune_limits_def
  using heuristic_cap_mono [OF assms(1-6)] by (simp add: q16_consts heuristic_cap_unit tuned_mono)

lemma tuning_monotone_witness:
  "sint (min_lat (tune_limits (calc_heuristic_cap 8 3000) LIM_CPU)) \<le> sint (min_lat (tune_limits (calc_heuristic_cap 4 1500) LIM_CPU))"
  using tuning_monotone [of 4 8 1500 3000 LIM_CPU] by simp

end
