(* ===== verification/Pg_Gov.thy ===== *)
theory Pg_Gov
  imports Pg_Epoll Pg_Sweep Pg_Tune
begin

text \<open>
  The governor, \<^verbatim>\<open>src/core/gov.c\<close>.
\<close>

section \<open>Constants\<close>

abbreviation (input) PG_PATH_PSI_CPU :: string where "PG_PATH_PSI_CPU \<equiv> ''/proc/pressure/cpu''"
abbreviation (input) PG_PSI_THRESHOLD_US :: u32 where "PG_PSI_THRESHOLD_US \<equiv> 100000"
abbreviation (input) PG_PSI_WINDOW_US :: u32 where "PG_PSI_WINDOW_US \<equiv> 1000000"
abbreviation (input) PG_PSI_FAIL_MAX :: u8 where "PG_PSI_FAIL_MAX \<equiv> 6"
abbreviation (input) PG_TEMP_FAIL_MAX :: u8 where "PG_TEMP_FAIL_MAX \<equiv> 10"
abbreviation (input) PG_BAT_CHK_SEC :: i32 where "PG_BAT_CHK_SEC \<equiv> 5"
abbreviation (input) PG_THERM_CHK_SEC :: i32 where "PG_THERM_CHK_SEC \<equiv> 1"
abbreviation (input) PG_DISP_CHK_SEC :: i32 where "PG_DISP_CHK_SEC \<equiv> 1"
abbreviation (input) PG_SWEEP_IVL_SEC :: i32 where "PG_SWEEP_IVL_SEC \<equiv> 600"
abbreviation (input) PG_QUANT_NS :: u64 where "PG_QUANT_NS \<equiv> 65536"

section \<open>Drift checks\<close>

definition CHK_LAT :: pg_sysfs_chk where "CHK_LAT = \<lparr>chk_type = PG_CHK_REL, chk_thresh = 100\<rparr>"
definition CHK_GRAN :: pg_sysfs_chk where "CHK_GRAN = \<lparr>chk_type = PG_CHK_REL, chk_thresh = 100\<rparr>"
definition CHK_WAKE :: pg_sysfs_chk where "CHK_WAKE = \<lparr>chk_type = PG_CHK_REL, chk_thresh = 150\<rparr>"
definition CHK_MIG :: pg_sysfs_chk where "CHK_MIG = \<lparr>chk_type = PG_CHK_ABS, chk_thresh = 50000\<rparr>"
definition CHK_WALT :: pg_sysfs_chk where "CHK_WALT = \<lparr>chk_type = PG_CHK_ABS, chk_thresh = 5\<rparr>"
definition CHK_UCL :: pg_sysfs_chk where "CHK_UCL = \<lparr>chk_type = PG_CHK_ABS, chk_thresh = 32\<rparr>"

section \<open>The display\<close>

definition pg_gov_init :: "os \<Rightarrow> pg_context \<Rightarrow> hist \<Rightarrow> pg_context \<times> hist" where
  "pg_gov_init os ctx h = (let (t, h) = sys_clock os CLOCK_MONOTONIC h in (ctx\<lparr>last_tick := t\<rparr>, h))"

text \<open>The state after the brightness was read.\<close>

definition disp_next :: "pg_context \<Rightarrow> bool \<Rightarrow> timespec \<Rightarrow> pg_context" where
  "disp_next ctx on now =
     (if on \<and> disp_state ctx \<noteq> PG_DISP_ON
      then ctx\<lparr>load_state := (load_state ctx)\<lparr>load_first_run := True\<rparr>,
             psi := (psi ctx)\<lparr>mon_filter := pg_kalman_reset (mon_filter (psi ctx)), mon_first_run := True\<rparr>,
             disp_state := PG_DISP_ON\<rparr>
      else if \<not> on \<and> (disp_state ctx = PG_DISP_ON \<or> disp_state ctx = PG_DISP_UNKNOWN)
      then ctx\<lparr>disp_state := PG_DISP_GRACE, last_dispoff := now\<rparr>
      else if \<not> on \<and> disp_state ctx = PG_DISP_GRACE
      then (if INT_TO_Q16 10 <s pg_dt_sec (last_dispoff ctx) now then ctx\<lparr>disp_state := PG_DISP_SUSPEND\<rparr> else ctx)
      else ctx)"

definition disp_sweep :: "os \<Rightarrow> pg_context \<Rightarrow> timespec \<Rightarrow> hist \<Rightarrow> (pg_context \<times> hist) option" where
  "disp_sweep os ctx now h =
     (if INT_TO_Q16 PG_SWEEP_IVL_SEC <s pg_dt_sec (last_sweep ctx) now
      then do {
        h \<leftarrow> pg_sweep_run os (bl_sensor ctx) h;
        let (t, h) = sys_clock os CLOCK_MONOTONIC h;
        Some (ctx\<lparr>last_sweep := t\<rparr>, h)
      }
      else Some (ctx, h))"

definition update_disp :: "os \<Rightarrow> pg_context \<Rightarrow> timespec \<Rightarrow> hist \<Rightarrow> (bool \<times> pg_context \<times> hist) option" where
  "update_disp os ctx now h =
     (if disp_state ctx = PG_DISP_ON \<and> pg_dt_sec (last_disp ctx) now <s INT_TO_Q16 PG_DISP_CHK_SEC
      then Some (False, ctx, h)
      else do {
        let ctx = ctx\<lparr>last_disp := now\<rparr>;
        (ret, bl, h) \<leftarrow> pg_sensor_read_bl os (bl_sensor ctx) h;
        let on = (if ret < 0 then True else 0 <s bl);
        let ctx = disp_next ctx on now;
        if disp_state ctx = PG_DISP_SUSPEND
        then do {
          (ctx, h) \<leftarrow> disp_sweep os (ctx\<lparr>next_wake := 5000, last_tick := now\<rparr>) now h;
          Some (True, ctx, h)
        }
        else Some (False, ctx, h)
      })"

section \<open>Pressure\<close>

definition arm_trigger :: "os \<Rightarrow> pg_context \<Rightarrow> hist \<Rightarrow> (pg_context \<times> hist) option" where
  "arm_trigger os ctx h = do {
     (fd, h) \<leftarrow> pg_psi_open_trg os PG_PATH_PSI_CPU PG_PSI_THRESHOLD_US PG_PSI_WINDOW_US h;
     if fd < 0 then Some (ctx, h)
     else let ctx = ctx\<lparr>trg_fd := fd\<rparr>;
              (ret, h) = pg_epoll_add_trg os ctx h
          in Some (if ret < 0 then (ctx\<lparr>trg_fd := - 1\<rparr>, pg_psi_close_trg fd h) else (ctx, h))
   }"

text \<open>The failure branch of \<open>read_psi\<close>: back off, drop the trigger, reopen the monitor, arm again.\<close>

definition psi_backoff :: "u8 \<Rightarrow> u8 \<times> i32" where
  "psi_backoff fails =
     (let fails = (if fails < PG_PSI_FAIL_MAX then fails + 1 else fails);
          delay = push_bit (unat (fails - 1)) (1000 :: u32)
      in (fails, if 30000 < delay then 30000 else delay))"

definition psi_recover :: "os \<Rightarrow> pg_context \<Rightarrow> hist \<Rightarrow> (pg_context \<times> hist) option" where
  "psi_recover os ctx h =
     (let (fails, wake) = psi_backoff (psi_fails ctx);
          ctx = ctx\<lparr>psi_fails := fails, next_wake := wake\<rparr>;
          h = pg_epoll_rm_trg os ctx h;
          (ctx, h) = (if 0 \<le> trg_fd ctx then (ctx\<lparr>trg_fd := - 1\<rparr>, pg_psi_close_trg (trg_fd ctx) h) else (ctx, h));
          (ret, mon, h) = pg_psi_recov os (psi ctx) PG_PATH_PSI_CPU h
      in arm_trigger os (ctx\<lparr>psi := mon\<rparr>) h)"

text \<open>\<open>None\<close> is the result \<open>false\<close>, and \<open>Some data\<close> is \<open>true\<close> with what was stored in \<open>*psi\<close>.\<close>

definition read_psi :: "os \<Rightarrow> pg_context \<Rightarrow> timespec \<Rightarrow> hist \<Rightarrow> (pg_psi_data option \<times> pg_context \<times> hist) option" where
  "read_psi os ctx now h = do {
     (r, mon, h) \<leftarrow> pg_psi_read os (psi ctx) now h;
     let ctx = ctx\<lparr>psi := mon\<rparr>;
     case r of
       Inr data \<Rightarrow> Some (Some data, if psi_fails ctx \<noteq> 0 then ctx\<lparr>psi_fails := 0\<rparr> else ctx, h)
     | Inl err \<Rightarrow> do {
         (ctx, h) \<leftarrow> psi_recover os ctx h;
         Some (None, ctx, h)
       }
   }"

section \<open>Sensors\<close>

definition poll_battery_metrics :: "os \<Rightarrow> pg_context \<Rightarrow> timespec \<Rightarrow> hist \<Rightarrow> (pg_context \<times> hist) option" where
  "poll_battery_metrics os ctx now h =
     (if pg_dt_sec (last_bat ctx) now <s INT_TO_Q16 PG_BAT_CHK_SEC then Some (ctx, h)
      else do {
        (ret, lvl, h) \<leftarrow> pg_sensor_read_bat_cap os (bat_cap_sensor ctx) h;
        (ret, temp, h) \<leftarrow> pg_sensor_read_bat_temp os (bat_temp_sensor ctx) h;
        let ctx = ctx\<lparr>bat_lvl := lvl, bat_temp := temp, last_bat := now\<rparr>;
        if trg_fd ctx < 0 then arm_trigger os ctx h else Some (ctx, h)
      })"

text \<open>The temperature to control by, whether to hold the scale, and the count of failures in a row.\<close>

definition read_cpu_temp :: "os \<Rightarrow> pg_context \<Rightarrow> hist \<Rightarrow> ((q16 \<times> bool \<times> u8) \<times> hist) option" where
  "read_cpu_temp os ctx h =
     (if 0 \<le> ts_fd (cpu_temp_sensor ctx)
      then do {
        (ret, temp, h) \<leftarrow> pg_sensor_read_cpu_temp os (cpu_temp_sensor ctx) h;
        Some (if ret = 0 then (temp, False, 0)
              else if temp_fails ctx < PG_TEMP_FAIL_MAX then (temp, True, temp_fails ctx + 1)
              else (0, False, temp_fails ctx), h)
      }
      else Some ((0, False, temp_fails ctx), h))"

definition poll_thermal_metrics :: "os \<Rightarrow> pg_tables \<Rightarrow> pg_context \<Rightarrow> timespec \<Rightarrow> hist \<Rightarrow> (pg_context \<times> hist) option" where
  "poll_thermal_metrics os tbl ctx now h =
     (if pg_dt_sec (last_therm ctx) now <s INT_TO_Q16 PG_THERM_CHK_SEC then Some (ctx, h)
      else do {
        ((cpu_temp, hold, fails), h) \<leftarrow> read_cpu_temp os ctx h;
        let ctx = ctx\<lparr>temp_fails := fails\<rparr>;
        let ctx = (if hold then ctx
                   else let (scl, st) = pg_thermal_update (thermal_state ctx) cpu_temp (bat_temp ctx) (t_thermal tbl) now
                        in ctx\<lparr>thermal_state := st, cached_th_scl := scl\<rparr>);
        Some (ctx\<lparr>last_therm := now, remap_due := True\<rparr>, h)
      })"

section \<open>Demand\<close>

text \<open>The part of \<open>calc_demand\<close> without input: the new load state, demand and effective pressure.\<close>

definition demand_of :: "pg_tables \<Rightarrow> pg_context \<Rightarrow> timespec \<Rightarrow> pg_psi_trend \<Rightarrow> q16 \<times> q16 \<times> pg_load_state" where
  "demand_of tbl ctx now trend =
     (let th_scl = cached_th_scl ctx;
          e = pg_cpu_upd_eff (eff (load_state ctx)) (bat_lvl ctx) th_scl (avg300 trend);
          st = (load_state ctx)\<lparr>eff := e\<rparr>;
          dt_real = pg_dt_sec (last_tick ctx) now;
          dt = pg_math_clamp dt_real 1 (FLOAT_TO_Q16 1 10);
          (i, i_dt, st) = pg_cpu_upd_intg st (bat_lvl ctx) dt_real;
          t_fact = pg_cpu_calc_trend_gain (tr_vel trend);
          s_break = nis_thresh (eff st) <s tr_nis trend;
          d_in = \<lparr>tgt_psi = tr_cur trend, vel = tr_vel trend, dt_safe = dt, therm_scale = th_scl, trend_fact = t_fact,
                  di_integ = i, integ_dt = i_dt, struct_break = s_break\<rparr>;
          (l_dem, st) = pg_cpu_calc_load_demand st d_in (t_cpu tbl)
      in (l_dem, pg_cpu_calc_eff_press l_dem t_fact (eff st), st))"

definition calc_demand ::
    "os \<Rightarrow> pg_tables \<Rightarrow> pg_context \<Rightarrow> timespec \<Rightarrow> pg_psi_data \<Rightarrow> hist \<Rightarrow> ((q16 \<times> q16 \<times> q16) \<times> pg_context \<times> hist) option" where
  "calc_demand os tbl ctx now data h = do {
     (ctx, h) \<leftarrow> poll_battery_metrics os ctx now h;
     (ctx, h) \<leftarrow> poll_thermal_metrics os tbl ctx now h;
     let (l_dem, p_eff, st) = demand_of tbl ctx now (some_trend data);
     Some ((cached_th_scl ctx, l_dem, p_eff), ctx\<lparr>load_state := st, last_tick := now\<rparr>, h)
   }"

section \<open>The gate and the mapping\<close>

definition gov_gate :: "os \<Rightarrow> pg_tables \<Rightarrow> pg_context \<Rightarrow> pg_psi_data \<Rightarrow> q16 \<Rightarrow> hist \<Rightarrow> bool \<times> pg_context \<times> hist" where
  "gov_gate os tbl ctx data p_eff h =
     (let c = t_cpu tbl;
          (wait, pst, h) = pg_poll_calc_next os (poll_state ctx) p_eff (avg300 (some_trend data)) (tr_vel (some_trend data)) h;
          n_poll = ucast wait :: i32;
          ctx = ctx\<lparr>poll_state := pst, next_wake := n_poll\<rparr>;
          moving = pg_cpu_trans (load_state ctx) c
      in if \<not> moving \<and> \<not> remap_due ctx then (False, ctx, h)
         else let t_poll = Q16_TO_INT (trans_poll c);
                  ctx = (if moving \<and> t_poll <s n_poll then ctx\<lparr>next_wake := t_poll\<rparr> else ctx);
                  st = load_state ctx
              in (True, ctx\<lparr>load_state := st\<lparr>psi_ref := psi_val st\<rparr>, remap_due := False\<rparr>, h))"

text \<open>The six values of \<open>apply_mapping\<close>; 0 for a node that is not active.\<close>

definition map_lat :: "pg_tables \<Rightarrow> pg_context \<Rightarrow> q16 \<Rightarrow> q16 \<Rightarrow> q16 \<Rightarrow> q16" where
  "map_lat tbl ctx th_scl l_dem p_eff =
     (if sc_active (sched_lat ctx) \<or> sc_active (sched_gran ctx)
      then pg_cpu_calc_lat p_eff l_dem (pg_cpu_calc_therm_lat th_scl (t_lim tbl)) (t_cpu tbl) (eff (load_state ctx)) (t_lim tbl)
      else 0)"

definition map_v_lat :: "pg_tables \<Rightarrow> pg_context \<Rightarrow> q16 \<Rightarrow> u64" where
  "map_v_lat tbl ctx lat =
     (if sc_active (sched_lat ctx) then pg_math_san_quant_u64 lat (max_lat (t_lim tbl)) PG_QUANT_NS else 0)"

definition map_v_gran :: "pg_tables \<Rightarrow> pg_context \<Rightarrow> q16 \<Rightarrow> u64" where
  "map_v_gran tbl ctx lat =
     (if sc_active (sched_gran ctx)
      then pg_math_san_quant_u64 (pg_cpu_calc_gran lat (t_cpu tbl) (t_lim tbl)) (max_gran (t_lim tbl)) PG_QUANT_NS else 0)"

definition map_v_wake :: "pg_tables \<Rightarrow> pg_context \<Rightarrow> q16 \<Rightarrow> u64" where
  "map_v_wake tbl ctx p_eff =
     (if sc_active (sched_wake ctx)
      then pg_math_san_quant_u64 (pg_cpu_calc_wakeup p_eff (eff (load_state ctx)) (t_lim tbl)) (max_wake (t_lim tbl)) PG_QUANT_NS
      else 0)"

definition map_v_mig :: "pg_tables \<Rightarrow> pg_context \<Rightarrow> q16 \<Rightarrow> q16 \<Rightarrow> u64" where
  "map_v_mig tbl ctx v p_eff =
     (if sc_active (sched_mig ctx)
      then pg_math_san_quant_u64 (pg_cpu_calc_migration v p_eff (t_lim tbl)) (min_mig (t_lim tbl)) PG_QUANT_NS else 0)"

definition map_v_walt :: "pg_tables \<Rightarrow> pg_context \<Rightarrow> q16 \<Rightarrow> u64" where
  "map_v_walt tbl ctx p_eff =
     (if sc_active (sched_walt ctx)
      then pg_math_san_u64 (pg_cpu_calc_walt p_eff (t_lim tbl)) (scast (Q16_TO_INT (min_walt (t_lim tbl)))) else 0)"

definition map_v_ucl :: "pg_tables \<Rightarrow> pg_context \<Rightarrow> q16 \<Rightarrow> q16 \<Rightarrow> u64" where
  "map_v_ucl tbl ctx th_scl p_eff =
     (if sc_active (sched_ucl ctx)
      then pg_math_san_u64 (pg_cpu_calc_uclamp p_eff th_scl (t_cpu tbl) (eff (load_state ctx)) (t_lim tbl))
        (scast (Q16_TO_INT (min_ucl (t_lim tbl)))) else 0)"

definition apply_mapping ::
    "os \<Rightarrow> pg_tables \<Rightarrow> pg_context \<Rightarrow> pg_psi_data \<Rightarrow> q16 \<Rightarrow> q16 \<Rightarrow> q16 \<Rightarrow> hist \<Rightarrow> (pg_context \<times> hist) option" where
  "apply_mapping os tbl ctx data th_scl l_dem p_eff h =
     (let lat = map_lat tbl ctx th_scl l_dem p_eff;
          v_lat = map_v_lat tbl ctx lat;
          v_gran = map_v_gran tbl ctx lat;
          v_wake = map_v_wake tbl ctx p_eff;
          v_mig = map_v_mig tbl ctx (tr_vel (some_trend data)) p_eff;
          v_wlt = map_v_walt tbl ctx p_eff;
          v_ucl = map_v_ucl tbl ctx th_scl p_eff
      in do {
        (c, h) \<leftarrow> pg_sysfs_update os (sched_lat ctx) v_lat False (Some CHK_LAT) h;
        let ctx = ctx\<lparr>sched_lat := c\<rparr>;
        (c, h) \<leftarrow> pg_sysfs_update os (sched_gran ctx) v_gran False (Some CHK_GRAN) h;
        let ctx = ctx\<lparr>sched_gran := c\<rparr>;
        (c, h) \<leftarrow> pg_sysfs_update os (sched_wake ctx) v_wake False (Some CHK_WAKE) h;
        let ctx = ctx\<lparr>sched_wake := c\<rparr>;
        (c, h) \<leftarrow> pg_sysfs_update os (sched_mig ctx) v_mig False (Some CHK_MIG) h;
        let ctx = ctx\<lparr>sched_mig := c\<rparr>;
        (c, h) \<leftarrow> pg_sysfs_update os (sched_walt ctx) v_wlt False (Some CHK_WALT) h;
        let ctx = ctx\<lparr>sched_walt := c\<rparr>;
        (c, h) \<leftarrow> pg_sysfs_update os (sched_ucl ctx) v_ucl False (Some CHK_UCL) h;
        Some (ctx\<lparr>sched_ucl := c\<rparr>, h)
      })"

section \<open>The tick\<close>

definition exec_gov_logic :: "os \<Rightarrow> pg_tables \<Rightarrow> pg_context \<Rightarrow> timespec \<Rightarrow> hist \<Rightarrow> (pg_context \<times> hist) option" where
  "exec_gov_logic os tbl ctx now h = do {
     (asleep, ctx, h) \<leftarrow> update_disp os ctx now h;
     if asleep then Some (ctx, h)
     else do {
       (r, ctx, h) \<leftarrow> read_psi os ctx now h;
       case r of
         None \<Rightarrow> Some (ctx, h)
       | Some data \<Rightarrow> do {
           ((th_scl, l_dem, p_eff), ctx, h) \<leftarrow> calc_demand os tbl ctx now data h;
           let (go, ctx, h) = gov_gate os tbl ctx data p_eff h;
           if go then apply_mapping os tbl ctx data th_scl l_dem p_eff h else Some (ctx, h)
         }
     }
   }"

definition dormant_tick :: "os \<Rightarrow> pg_context \<Rightarrow> hist \<Rightarrow> (pg_context \<times> hist) option" where
  "dormant_tick os ctx h =
     (let (now, h) = sys_clock os CLOCK_MONOTONIC h in do {
        (asleep, ctx, h) \<leftarrow> update_disp os ctx now h;
        Some (if asleep then ctx else ctx\<lparr>next_wake := 10000\<rparr>, h)
      })"

text \<open>The wake-up of the tick is shortened by the time the tick took.\<close>

definition tick_wake :: "i32 \<Rightarrow> q16 \<Rightarrow> i32" where
  "tick_wake wake calc_s =
     (let calc_ms = ucast (signed_drop_bit 16 ((scast calc_s :: q32) * 1000)) :: i32;
          adj_wake = wake - calc_ms
      in if 0 <s adj_wake then adj_wake else 1)"

definition pg_gov_process :: "os \<Rightarrow> pg_tables \<Rightarrow> pg_context \<Rightarrow> hist \<Rightarrow> (pg_context \<times> hist) option" where
  "pg_gov_process os tbl ctx h =
     (if dormant ctx then dormant_tick os ctx h
      else let (now, h) = sys_clock os CLOCK_MONOTONIC h in do {
        (ctx, h) \<leftarrow> exec_gov_logic os tbl ctx now h;
        let (end_calc, h) = sys_clock os CLOCK_MONOTONIC h;
        Some (ctx\<lparr>next_wake := tick_wake (next_wake ctx) (pg_dt_sec now end_calc)\<rparr>, h)
      })"

end
