(* ===== verification/Pg_Tick.thy ===== *)
theory Pg_Tick
  imports Pg_Gov
begin

text \<open>
  A tick of the governor as a whole: the display as a state machine that the code refines, the
  invariant of the daemon's state, and what a tick does to it, to the descriptors of the process, to
  the scheduler nodes and to the file system.
\<close>

section \<open>The display as a state machine\<close>

text \<open>
  The abstract machine: what a look at the display, taken at time \<open>t\<close> with the answer \<open>on\<close>, does to
  the state and the time since when the display is off.  A look may be left out while it is on.
\<close>

inductive disp_step :: "bool \<Rightarrow> timespec \<Rightarrow> pg_disp_state \<times> timespec \<Rightarrow> pg_disp_state \<times> timespec \<Rightarrow> bool" where
  skip: "disp_step on t (PG_DISP_ON, off) (PG_DISP_ON, off)"
| wake: "disp_step True t (s, off) (PG_DISP_ON, off)"
| dim: "s = PG_DISP_ON \<or> s = PG_DISP_UNKNOWN \<Longrightarrow> disp_step False t (s, off) (PG_DISP_GRACE, t)"
| wait: "\<not> INT_TO_Q16 10 <s pg_dt_sec off t \<Longrightarrow> disp_step False t (PG_DISP_GRACE, off) (PG_DISP_GRACE, off)"
| sleep: "INT_TO_Q16 10 <s pg_dt_sec off t \<Longrightarrow> disp_step False t (PG_DISP_GRACE, off) (PG_DISP_SUSPEND, off)"
| asleep: "disp_step False t (PG_DISP_SUSPEND, off) (PG_DISP_SUSPEND, off)"

inductive_cases disp_stepE: "disp_step on t c c'"

definition disp_of :: "pg_context \<Rightarrow> pg_disp_state \<times> timespec" where
  "disp_of ctx = (disp_state ctx, last_dispoff ctx)"

lemma disp_next_step: "disp_step on now (disp_of ctx) (disp_of (disp_next ctx on now))"
  by (cases "disp_state ctx"; cases on)
    (simp_all add: disp_next_def disp_of_def disp_step.intros)

section \<open>The invariant\<close>

definition tables_ok :: "pg_tables \<Rightarrow> bool" where
  "tables_ok tbl \<longleftrightarrow> lim_ok (t_lim tbl) \<and> cpu_cfg_ok (t_cpu tbl) \<and> thermal_cfg_ok (t_thermal tbl)"

definition nodes :: "pg_context \<Rightarrow> pg_sysfs_cache list" where
  "nodes ctx = [sched_lat ctx, sched_gran ctx, sched_wake ctx, sched_mig ctx, sched_walt ctx, sched_ucl ctx]"

definition ctx_ok :: "pg_context \<Rightarrow> bool" where
  "ctx_ok ctx \<longleftrightarrow> psi_ok (psi ctx) \<and> thermal_ok (thermal_state ctx) \<and>
     6553 \<le> sint (cached_th_scl ctx) \<and> sint (cached_th_scl ctx) \<le> 65536 \<and> list_all cache_ok (nodes ctx) \<and>
     100 \<le> unat (cur_ivl (poll_state ctx)) \<and> unat (cur_ivl (poll_state ctx)) \<le> 10000 \<and>
     psi_fails ctx \<le> 6 \<and> temp_fails ctx \<le> 10 \<and>
     0 \<le> sint (psi_val (load_state ctx)) \<and> sint (psi_val (load_state ctx)) \<le> 32768000"

text \<open>The descriptors that a tick may close and reopen, and what it leaves alone.\<close>

definition own :: "pg_context \<Rightarrow> int set" where
  "own ctx = {fd \<in> {mon_fd (psi ctx), trg_fd ctx}. 0 \<le> fd}"

definition owns :: "pg_context \<Rightarrow> hist \<Rightarrow> bool" where
  "owns ctx h \<longleftrightarrow> own ctx \<subseteq> open_fds h \<and> (mon_fd (psi ctx) = trg_fd ctx \<longrightarrow> trg_fd ctx < 0)"

definition node_id :: "pg_sysfs_cache \<Rightarrow> int \<times> bool \<times> bool \<times> u32" where
  "node_id c = (sc_fd c, sc_active c, sc_has_base c, sc_base c)"

definition fittings :: "pg_context \<Rightarrow> (int \<times> bool \<times> bool \<times> u32) list \<times> pg_temp_sensor \<times> pg_temp_sensor \<times> pg_bat_sensor \<times>
    pg_bl_sensor \<times> int \<times> int \<times> bool" where
  "fittings ctx = (map node_id (nodes ctx), cpu_temp_sensor ctx, bat_temp_sensor ctx, bat_cap_sensor ctx, bl_sensor ctx,
     sig_fd ctx, lock_fd ctx, dormant ctx)"

definition wires :: "pg_context \<Rightarrow> ((int \<times> bool \<times> bool \<times> u32) list \<times> pg_temp_sensor \<times> pg_temp_sensor \<times> pg_bat_sensor \<times>
    pg_bl_sensor \<times> int \<times> int \<times> bool) \<times> int \<times> bool \<times> pg_event_cb option \<times> pg_event_cb option" where
  "wires ctx = (fittings ctx, epoll_fd ctx, shutdown_req ctx, on_trigger ctx, on_timeout ctx)"

text \<open>The caches agree with what was written to their nodes, and no two active ones share a descriptor.\<close>

definition tracks :: "pg_context \<Rightarrow> hist \<Rightarrow> bool" where
  "tracks ctx h \<longleftrightarrow> (\<forall>i < 6. sc_active (nodes ctx ! i) \<longrightarrow> cache_tracks (nodes ctx ! i) h \<and>
     (\<forall>j < 6. j \<noteq> i \<longrightarrow> sc_active (nodes ctx ! j) \<longrightarrow> sc_fd (nodes ctx ! j) \<noteq> sc_fd (nodes ctx ! i)))"

lemma tracks_nodes: "nodes ctx' = nodes ctx \<Longrightarrow> tracks ctx' h = tracks ctx h"
  by (simp add: tracks_def)

lemma tracks_frame [simp]:
  "tracks (ctx\<lparr>last_disp := t\<rparr>) h = tracks ctx h" "tracks (ctx\<lparr>last_tick := t\<rparr>) h = tracks ctx h"
  "tracks (ctx\<lparr>last_bat := t\<rparr>) h = tracks ctx h" "tracks (ctx\<lparr>last_therm := t\<rparr>) h = tracks ctx h"
  "tracks (ctx\<lparr>last_dispoff := t\<rparr>) h = tracks ctx h" "tracks (ctx\<lparr>last_sweep := t\<rparr>) h = tracks ctx h"
  "tracks (ctx\<lparr>next_wake := w\<rparr>) h = tracks ctx h" "tracks (ctx\<lparr>bat_lvl := v\<rparr>) h = tracks ctx h"
  "tracks (ctx\<lparr>bat_temp := x\<rparr>) h = tracks ctx h" "tracks (ctx\<lparr>remap_due := b\<rparr>) h = tracks ctx h"
  "tracks (ctx\<lparr>psi := mon\<rparr>) h = tracks ctx h" "tracks (ctx\<lparr>disp_state := d\<rparr>) h = tracks ctx h"
  "tracks (ctx\<lparr>load_state := st\<rparr>) h = tracks ctx h" "tracks (ctx\<lparr>shutdown_req := b\<rparr>) h = tracks ctx h"
  "tracks (ctx\<lparr>epoll_fd := fd\<rparr>) h = tracks ctx h"
  by (rule tracks_nodes, simp add: nodes_def)+

lemma tracks_done: "(\<And>fd. last_done fd h' = last_done fd h) \<Longrightarrow> tracks ctx h' = tracks ctx h"
  by (simp add: tracks_def cache_tracks_def)

lemma last_done_Cons: "(\<And>fd b r. e \<noteq> Pwrite fd b r) \<Longrightarrow> last_done fd (e # h) = last_done fd h"
  by (cases "(fd, e # h)" rule: last_done.cases) auto

lemma last_done_quiet: "grows quiet h h' \<Longrightarrow> last_done fd h' = last_done fd h"
proof (elim growsE, clarify)
  fix new assume "\<forall>e \<in> set new. quiet e"
  then show "last_done fd (new @ h) = last_done fd h"
  proof (induction new)
    case (Cons e new)
    then have "last_done fd (e # new @ h) = last_done fd (new @ h)" by (intro last_done_Cons) auto
    then show ?case using Cons by simp
  qed simp
qed

text \<open>
  What may be written to the scheduler nodes: times on the grid of 65536 ns, within half a step of
  the limits, and percentages and clamps between the rounded limits.
\<close>

definition node_ns :: "int \<Rightarrow> int \<Rightarrow> u64 \<Rightarrow> bool" where
  "node_ns lo hi v \<longleftrightarrow> 65536 dvd uint v \<and> lo * 1000000 div 65536 - 32768 \<le> uint v \<and> uint v \<le> hi * 1000000 div 65536 + 32768"

definition node_num :: "q16 \<Rightarrow> q16 \<Rightarrow> u64 \<Rightarrow> bool" where
  "node_num lo hi v \<longleftrightarrow> (sint lo + 32768) div 65536 \<le> uint v \<and> uint v \<le> (sint hi + 32768) div 65536"

inductive node_value :: "pg_cpu_lim \<Rightarrow> pg_context \<Rightarrow> int \<Rightarrow> u64 \<Rightarrow> bool" for l ctx where
  lat: "node_ns (sint (min_lat l)) (sint (max_lat l)) v \<Longrightarrow> node_value l ctx (sc_fd (sched_lat ctx)) v"
| gran: "node_ns (min (sint (min_gran l)) (sint (min_lat l))) (sint (max_gran l)) v \<Longrightarrow> node_value l ctx (sc_fd (sched_gran ctx)) v"
| wake: "node_ns (sint (min_wake l)) (sint (max_wake l)) v \<Longrightarrow> node_value l ctx (sc_fd (sched_wake ctx)) v"
| mig: "node_ns (sint (min_mig l)) (sint (max_mig l)) v \<Longrightarrow> node_value l ctx (sc_fd (sched_mig ctx)) v"
| walt: "node_num (min_walt l) (max_walt l) v \<Longrightarrow> node_value l ctx (sc_fd (sched_walt ctx)) v"
| ucl: "node_num (min_ucl l) (max_ucl l) v \<Longrightarrow> node_value l ctx (sc_fd (sched_ucl ctx)) v"

inductive_simps node_value_iff: "node_value l ctx fd v"

fun gov_write :: "pg_tables \<Rightarrow> pg_context \<Rightarrow> event \<Rightarrow> bool" where
  "gov_write tbl ctx (Pwrite fd b r) = (\<exists>v. b = pg_fmt_u64 v \<and> node_value (t_lim tbl) ctx fd v)"
| "gov_write tbl ctx (Write fd b r) = (b = trigger_text PG_PSI_THRESHOLD_US PG_PSI_WINDOW_US)"
| "gov_write tbl ctx e = (\<not> sets_prop e)"

lemma quiet_gov_write: "quiet e \<Longrightarrow> gov_write tbl ctx e"
  by (cases e) (simp_all add: quiet_def)

fun removes :: "event \<Rightarrow> bool" where
  "removes (Unlinkat dfd name rmdir r) = True"
| "removes e = False"

text \<open>The state within a tick that started in \<open>c0\<close> and \<open>h0\<close>; \<open>q\<close> says that nothing was removed.\<close>

definition gov_inv :: "pg_tables \<Rightarrow> pg_context \<Rightarrow> hist \<Rightarrow> bool \<Rightarrow> pg_context \<Rightarrow> hist \<Rightarrow> bool" where
  "gov_inv tbl c0 h0 q ctx h \<longleftrightarrow> ctx_ok ctx \<and> owns ctx h \<and> open_fds h - own ctx = open_fds h0 - own c0 \<and> wires ctx = wires c0 \<and>
     grows (gov_write tbl c0) h0 h \<and> deletes_ok (length h0) (\<lambda>dfd name rmdir ys. \<exists>now. stale now dfd name rmdir ys) h \<and>
     (q \<longrightarrow> grows (\<lambda>e. \<not> removes e) h0 h) \<and> (tracks c0 h0 \<longrightarrow> tracks ctx h) \<and> keeps_open (open_fds h0 - own c0) h0 h"

lemma gov_inv_start: "ctx_ok ctx \<Longrightarrow> owns ctx h \<Longrightarrow> gov_inv tbl ctx h q ctx h"
  by (simp add: gov_inv_def deletes_ok_old)

text \<open>Events that neither touch descriptors, nor write, nor remove keep it.\<close>

lemma gov_inv_tame:
  assumes "gov_inv tbl c0 h0 q ctx h" "balanced h h'" "grows quiet h h'" "grows (\<lambda>e. \<not> removes e) h h'"
  shows "gov_inv tbl c0 h0 q ctx h'"
proof -
  obtain new where new: "h' = new @ h" "\<forall>e \<in> set new. \<not> removes e" using assms(4) by (auto simp: grows_def)
  have del: "deletes_ok n D (xs @ h) = deletes_ok n D h" if "\<forall>e \<in> set xs. \<not> removes e" for n D xs
    using that
  proof (induction xs)
    case (Cons e xs)
    then show ?case by (cases e) simp_all
  qed simp
  have "grows (gov_write tbl c0) h0 h'"
    using assms(1,3) quiet_gov_write unfolding gov_inv_def by (meson grows_mono grows_trans)
  moreover have "grows (\<lambda>e. \<not> removes e) h0 h" if q
    using assms(1) that by (simp add: gov_inv_def)
  moreover have "keeps_open (open_fds h0 - own c0) h0 h'"
    using assms(1) balanced_keeps [OF assms(2), of "open_fds h0 - own c0"] by (auto simp: gov_inv_def intro: keeps_open_trans)
  ultimately show ?thesis
    using assms(1,4) balanced_fds [OF assms(2)] del [OF new(2)] tracks_done [of h' h ctx] last_done_quiet [OF assms(3)] unfolding gov_inv_def new(1)
    by (auto simp: owns_def intro: grows_trans)
qed

lemma gov_inv_looks: "gov_inv tbl c0 h0 q ctx h \<Longrightarrow> looks h h' \<Longrightarrow> gov_inv tbl c0 h0 q ctx h'"
proof (rule gov_inv_tame)
  assume l: "looks h h'"
  have "quiet e \<and> \<not> removes e" if "\<not> changes e" for e using that changes_quiet [of e] by (cases e) auto
  then show "grows quiet h h'" "grows (\<lambda>e. \<not> removes e) h h'"
    using l unfolding looks_def by (meson grows_mono)+
qed (auto simp: looks_def)

lemma gov_inv_reads: "gov_inv tbl c0 h0 q ctx h \<Longrightarrow> only_reads new \<Longrightarrow> gov_inv tbl c0 h0 q ctx (new @ h)"
  by (rule gov_inv_looks [OF _ only_reads_looks])

lemma gov_inv_idle: "gov_inv tbl c0 h0 q ctx h \<Longrightarrow> idle e \<Longrightarrow> quiet e \<Longrightarrow> \<not> removes e \<Longrightarrow> gov_inv tbl c0 h0 q ctx (e # h)"
  by (rule gov_inv_tame) auto

lemmas gov_inv_defs = gov_inv_def ctx_ok_def owns_def own_def wires_def fittings_def nodes_def

text \<open>Fields the invariant does not mention.\<close>

lemma gov_inv_frame [simp]:
  "gov_inv tbl c0 h0 q (ctx\<lparr>last_disp := t\<rparr>) h = gov_inv tbl c0 h0 q ctx h"
  "gov_inv tbl c0 h0 q (ctx\<lparr>last_tick := t\<rparr>) h = gov_inv tbl c0 h0 q ctx h"
  "gov_inv tbl c0 h0 q (ctx\<lparr>last_bat := t\<rparr>) h = gov_inv tbl c0 h0 q ctx h"
  "gov_inv tbl c0 h0 q (ctx\<lparr>last_therm := t\<rparr>) h = gov_inv tbl c0 h0 q ctx h"
  "gov_inv tbl c0 h0 q (ctx\<lparr>last_dispoff := t\<rparr>) h = gov_inv tbl c0 h0 q ctx h"
  "gov_inv tbl c0 h0 q (ctx\<lparr>last_sweep := t\<rparr>) h = gov_inv tbl c0 h0 q ctx h"
  "gov_inv tbl c0 h0 q (ctx\<lparr>next_wake := w\<rparr>) h = gov_inv tbl c0 h0 q ctx h"
  "gov_inv tbl c0 h0 q (ctx\<lparr>bat_lvl := v\<rparr>) h = gov_inv tbl c0 h0 q ctx h"
  "gov_inv tbl c0 h0 q (ctx\<lparr>bat_temp := v\<rparr>) h = gov_inv tbl c0 h0 q ctx h"
  "gov_inv tbl c0 h0 q (ctx\<lparr>remap_due := b\<rparr>) h = gov_inv tbl c0 h0 q ctx h"
  by (simp_all add: gov_inv_defs)


lemma gov_inv_psi: "gov_inv tbl c0 h0 q ctx h \<Longrightarrow> psi_ok mon \<Longrightarrow> mon_fd mon = mon_fd (psi ctx) \<Longrightarrow>
    gov_inv tbl c0 h0 q (ctx\<lparr>psi := mon\<rparr>) h"
  by (simp add: gov_inv_defs)

lemma gov_inv_disp: "gov_inv tbl c0 h0 q (ctx\<lparr>disp_state := d\<rparr>) h = gov_inv tbl c0 h0 q ctx h"
  by (simp add: gov_inv_defs)

lemma gov_inv_load: "gov_inv tbl c0 h0 q ctx h \<Longrightarrow> 0 \<le> sint (psi_val st) \<Longrightarrow> sint (psi_val st) \<le> 32768000 \<Longrightarrow>
    gov_inv tbl c0 h0 q (ctx\<lparr>load_state := st\<rparr>) h"
  by (simp add: gov_inv_defs)

text \<open>Opening and closing the trigger and the monitor.\<close>

lemma gov_inv_fds:
  assumes "gov_inv tbl c0 h0 q ctx h" "quiet e" "\<not> removes e" and f: "ctx_ok ctx \<Longrightarrow> ctx_ok ctx'" "wires ctx' = wires ctx" "nodes ctx' = nodes ctx"
    and "owns ctx h \<Longrightarrow> owns ctx' (e # h)" "owns ctx h \<Longrightarrow> open_fds (e # h) - own ctx' = open_fds h - own ctx"
    and k: "\<And>fd. fd \<in> open_fds h - own ctx \<Longrightarrow> \<not> rebinds fd e"
  shows "gov_inv tbl c0 h0 q ctx' (e # h)"
proof -
  have "gov_write tbl c0 e" using assms(2) by (rule quiet_gov_write)
  moreover have "deletes_ok n D (e # h) = deletes_ok n D h" for n D using assms(3) by (cases e) auto
  moreover have "last_done fd (e # h) = last_done fd h" for fd using assms(2) by (auto intro: last_done_Cons)
  then have "tracks ctx' (e # h) = tracks ctx h" using tracks_done tracks_nodes [OF f(3)] by blast
  moreover have "keeps_open (open_fds h0 - own c0) h0 (e # h)" using assms(1) k by (auto simp: gov_inv_def intro!: keeps_open_Cons)
  ultimately show ?thesis using assms(1-8) by (auto simp: gov_inv_def)
qed

lemma gov_inv_ctx:
  assumes "gov_inv tbl c0 h0 q ctx h" "ctx_ok ctx \<Longrightarrow> ctx_ok ctx'" "wires ctx' = wires ctx" "nodes ctx' = nodes ctx" "own ctx' = own ctx"
    and "owns ctx h \<Longrightarrow> owns ctx' h"
  shows "gov_inv tbl c0 h0 q ctx' h"
  using assms by (simp add: gov_inv_def tracks_nodes [OF assms(4)])

lemmas ctx_defs = ctx_ok_def owns_def own_def wires_def fittings_def nodes_def psi_ok_def

lemma close_trg_inv:
  "gov_inv tbl c0 h0 q ctx h \<Longrightarrow> 0 \<le> trg_fd ctx \<Longrightarrow> gov_inv tbl c0 h0 q (ctx\<lparr>trg_fd := - 1\<rparr>) (Close (trg_fd ctx) # h)"
  by (erule gov_inv_fds) (auto simp: ctx_defs)

lemma open_trg_inv:
  "gov_inv tbl c0 h0 q ctx h \<Longrightarrow> trg_fd ctx < 0 \<Longrightarrow> 0 \<le> fd \<Longrightarrow> fd \<notin> open_fds h \<Longrightarrow>
    gov_inv tbl c0 h0 q (ctx\<lparr>trg_fd := fd\<rparr>) (Open p f (Inr fd) # h)"
  by (erule gov_inv_fds) (auto simp: ctx_defs)

lemma close_psi_inv:
  "gov_inv tbl c0 h0 q ctx h \<Longrightarrow> 0 \<le> mon_fd (psi ctx) \<Longrightarrow>
    gov_inv tbl c0 h0 q (ctx\<lparr>psi := (psi ctx)\<lparr>mon_fd := - 1\<rparr>\<rparr>) (Close (mon_fd (psi ctx)) # h)"
  by (erule gov_inv_fds) (auto simp: ctx_defs)

lemma open_psi_inv:
  "gov_inv tbl c0 h0 q ctx h \<Longrightarrow> mon_fd (psi ctx) < 0 \<Longrightarrow> 0 \<le> mon_fd mon \<Longrightarrow> mon_fd mon \<notin> open_fds h \<Longrightarrow> psi_ok mon \<Longrightarrow>
    gov_inv tbl c0 h0 q (ctx\<lparr>psi := mon\<rparr>) (Open p f (Inr (mon_fd mon)) # h)"
  by (erule gov_inv_fds) (auto simp: ctx_defs)

lemma no_trg_inv: "gov_inv tbl c0 h0 q ctx h \<Longrightarrow> trg_fd ctx < 0 \<Longrightarrow> gov_inv tbl c0 h0 q (ctx\<lparr>trg_fd := - 1\<rparr>) h"
  by (erule gov_inv_ctx) (auto simp: ctx_defs)

lemma no_psi_inv: "gov_inv tbl c0 h0 q ctx h \<Longrightarrow> mon_fd (psi ctx) < 0 \<Longrightarrow>
    gov_inv tbl c0 h0 q (ctx\<lparr>psi := (psi ctx)\<lparr>mon_fd := - 1\<rparr>\<rparr>) h"
  by (erule gov_inv_ctx) (auto simp: ctx_defs)

section \<open>Display\<close>

lemma deletes_ok_mono: "deletes_ok n D h \<Longrightarrow> (\<And>dfd name rmdir h. D dfd name rmdir h \<Longrightarrow> D' dfd name rmdir h) \<Longrightarrow> deletes_ok n D' h"
  by (induction n D h rule: deletes_ok.induct) auto

lemma disp_next_inv:
  assumes "gov_inv tbl c0 h0 q ctx h"
  shows "gov_inv tbl c0 h0 q (disp_next ctx on now) h"
proof -
  let ?st = "(load_state ctx)\<lparr>load_first_run := True\<rparr>"
    and ?mon = "(psi ctx)\<lparr>mon_filter := pg_kalman_reset (mon_filter (psi ctx)), mon_first_run := True\<rparr>"
  have "gov_inv tbl c0 h0 q (ctx\<lparr>load_state := ?st\<rparr>) h"
    using assms by (intro gov_inv_load) (simp_all add: gov_inv_defs)
  then have "gov_inv tbl c0 h0 q (ctx\<lparr>load_state := ?st, psi := ?mon\<rparr>) h"
    by (rule gov_inv_psi) (simp_all add: psi_ok_def kalman_ok_reset)
  then show ?thesis
    using assms unfolding disp_next_def by (simp add: gov_inv_disp)
qed

lemma sweep_inv:
  assumes "gov_inv tbl c0 h0 True ctx h" "tame (stale now) h h'"
  shows "gov_inv tbl c0 h0 False ctx h'"
proof -
  obtain new where new: "h' = new @ h" using assms(2) by (auto simp: tame_def dest: balanced_new)
  have "deletes_ok (length h) (\<lambda>dfd name rmdir ys. \<exists>now. stale now dfd name rmdir ys) h'"
    using assms(2) by (auto simp: tame_def intro: deletes_ok_mono)
  then have "deletes_ok (length h0) (\<lambda>dfd name rmdir ys. \<exists>now. stale now dfd name rmdir ys) h'"
    using assms(1) unfolding gov_inv_def new by (blast intro: deletes_ok_append)
  moreover have q: "grows quiet h h'" using assms(2) by (simp add: tame_def)
  then have "grows (gov_write tbl c0) h0 h'"
    using assms quiet_gov_write unfolding gov_inv_def by (meson grows_mono grows_trans)
  moreover have "keeps_open (open_fds h0 - own c0) h0 h'"
    using assms balanced_keeps [of h h' "open_fds h0 - own c0"] by (auto simp: gov_inv_def tame_def intro: keeps_open_trans)
  ultimately show ?thesis
    using assms tame_fds [OF assms(2)] tracks_done [OF last_done_quiet [OF q]] by (auto simp: gov_inv_def owns_def)
qed

lemma gov_inv_weaken: "gov_inv tbl c0 h0 True ctx h \<Longrightarrow> gov_inv tbl c0 h0 q ctx h"
  by (simp add: gov_inv_def)

lemma disp_sweep_spec:
  assumes os: "os_ok os" and inv: "gov_inv tbl c0 h0 True ctx h"
  shows "runs (disp_sweep os ctx now h) (\<lambda>(ctx', h'). gov_inv tbl c0 h0 False ctx' h' \<and> (\<exists>t. ctx' = ctx\<lparr>last_sweep := t\<rparr>))"
proof -
  have "\<exists>t. ctx = ctx\<lparr>last_sweep := t\<rparr>" by (rule exI [of _ "last_sweep ctx"]) simp
  then show ?thesis
    using inv unfolding disp_sweep_def sys_clock_def Let_def
    by (auto intro: gov_inv_weaken gov_inv_idle intro!: runs_mono [OF sweep_run_spec [OF os]] dest: sweep_inv)
qed

lemma disp_of_last_disp [simp]: "disp_of (ctx\<lparr>last_disp := t\<rparr>) = disp_of ctx"
  by (simp add: disp_of_def)

lemma update_disp_spec:
  assumes os: "os_ok os" and inv: "gov_inv tbl c0 h0 True ctx h"
  shows "runs (update_disp os ctx now h) (\<lambda>(asleep, ctx', h'). gov_inv tbl c0 h0 (\<not> asleep) ctx' h' \<and>
    (asleep \<longleftrightarrow> disp_state ctx' = PG_DISP_SUSPEND) \<and> (asleep \<longrightarrow> next_wake ctx' = 5000) \<and>
    (\<exists>on. disp_step on now (disp_of ctx) (disp_of ctx')))"
proof (cases "disp_state ctx = PG_DISP_ON \<and> pg_dt_sec (last_disp ctx) now <s INT_TO_Q16 PG_DISP_CHK_SEC")
  case True
  then show ?thesis using inv by (auto simp: update_disp_def disp_of_def intro: disp_step.skip)
next
  case False
  define Q where "Q = (\<lambda>(asleep, ctx', h'). gov_inv tbl c0 h0 (\<not> asleep) ctx' h' \<and>
    (asleep \<longleftrightarrow> disp_state ctx' = PG_DISP_SUSPEND) \<and> (asleep \<longrightarrow> next_wake ctx' = 5000) \<and>
    (\<exists>on. disp_step on now (disp_of ctx) (disp_of ctx')))"
  define c1 where "c1 = (\<lambda>on. disp_next (ctx\<lparr>last_disp := now\<rparr>) on now)"
  have c1: "disp_next (ctx\<lparr>last_disp := now\<rparr>) on now = c1 on" for on by (simp add: c1_def)
  have st: "\<exists>b. disp_step b now (disp_of ctx) (disp_of (c1 on))" for on
    using disp_next_step [of on now "ctx\<lparr>last_disp := now\<rparr>"] by (auto simp: c1_def)
  have i: "gov_inv tbl c0 h0 True (c1 on) (new @ h)" if "only_reads new" for on new
    unfolding c1_def using inv that by (intro disp_next_inv) (simp add: gov_inv_reads)
  have awake: "Q (False, c1 on, new @ h)" if "only_reads new" "disp_state (c1 on) \<noteq> PG_DISP_SUSPEND" for on new
    using i [OF that(1)] st that(2) by (simp add: Q_def)
  have asleep: "runs (disp_sweep os ((c1 on)\<lparr>next_wake := 5000, last_tick := now\<rparr>) now (new @ h)) (\<lambda>(ctx', h'). Q (True, ctx', h'))"
    if "only_reads new" "disp_state (c1 on) = PG_DISP_SUSPEND" for on new
    using i [OF that(1)] st [of on] that(2)
    by (intro runs_mono [OF disp_sweep_spec [OF os]]) (auto simp: disp_of_def Q_def)
  show ?thesis
    unfolding update_disp_def if_not_P [OF False] Let_def Q_def [symmetric] pg_context.simps c1
    using awake asleep by (auto intro!: runs_mono [OF read_bl_spec [OF os]] runs_mono [OF asleep])
qed

section \<open>Pressure\<close>

lemma open_trg_spec:
  assumes os: "os_ok os" and inv: "gov_inv tbl c0 h0 q ctx h" and n: "trg_fd ctx < 0"
  shows "runs (pg_psi_open_trg os path PG_PSI_THRESHOLD_US PG_PSI_WINDOW_US h) (\<lambda>(r, h').
    if r < 0 then gov_inv tbl c0 h0 q ctx h' else gov_inv tbl c0 h0 q (ctx\<lparr>trg_fd := r\<rparr>) h')"
proof -
  let ?t = "trigger_text PG_PSI_THRESHOLD_US PG_PSI_WINDOW_US"
  let ?f = "[O_RDWR, O_CLOEXEC, O_NONBLOCK]"
  have pos: "0 < e" if "os_open os h p f = Inl e" for p f e h
    using os_okD(5) [OF os] that by (simp add: errno_ok_def)
  have wpos: "0 < e" if "os_write os h' fd b = Inl e" for h' fd b e
    using os_okD(5) [OF os] that unfolding errno_ok_def by metis
  have wr: "gov_inv tbl c0 h0 q c' (Write fd ?t r # replicate k (Write fd ?t e) @ h')" if "gov_inv tbl c0 h0 q c' h'" for c' fd r k e h'
  proof -
    have one: "gov_inv tbl c0 h0 q c' (Write fd ?t r # g)" if "gov_inv tbl c0 h0 q c' g" for g r
      using that idle_fds [of "Write fd ?t r" g] tracks_done [of "Write fd ?t r # g" g c'] by (auto simp: gov_inv_def owns_def intro: keeps_open_Cons)
    have "gov_inv tbl c0 h0 q c' (replicate k (Write fd ?t e) @ h')" using that one by (induction k) auto
    then show ?thesis by (rule one)
  qed
  have op: "gov_inv tbl c0 h0 q (ctx\<lparr>trg_fd := fd\<rparr>) (Open path ?f (Inr fd) # h) \<and> 0 \<le> fd" if "os_open os h path ?f = Inr fd" for fd
    using open_trg_inv [OF inv n, of fd] fresh_fd(1,3) [OF os that] by simp
  have cl: "gov_inv tbl c0 h0 q ctx (Close fd # g)" if "gov_inv tbl c0 h0 q (ctx\<lparr>trg_fd := fd\<rparr>) g" "0 \<le> fd" for fd g
  proof -
    have "gov_inv tbl c0 h0 q (ctx\<lparr>trg_fd := - 1\<rparr>) (Close fd # g)" using close_trg_inv [OF that(1)] that(2) by simp
    then show ?thesis by (rule gov_inv_ctx) (use n in \<open>auto simp: ctx_defs\<close>)
  qed
  have bad: "gov_inv tbl c0 h0 q ctx (Open p f (Inl e) # h)" for p f e
    using inv by (rule gov_inv_idle) simp_all
  show ?thesis
    unfolding pg_psi_open_trg_def sys_open_def sys_close_def Let_def
    using bad pos wpos op wr cl
    by (auto split: sum.splits intro!: runs_mono [OF retry_write [OF os_okD(1) [OF os]]])
qed

lemma add_trg_inv: "gov_inv tbl c0 h0 q c h \<Longrightarrow> gov_inv tbl c0 h0 q c (snd (pg_epoll_add_trg os ctx h))"
  by (auto simp: pg_epoll_add_trg_def sys_epoll_ctl_def Let_def intro: gov_inv_idle)

lemma rm_trg_inv: "gov_inv tbl c0 h0 q c h \<Longrightarrow> gov_inv tbl c0 h0 q c (pg_epoll_rm_trg os ctx h)"
  by (auto simp: pg_epoll_rm_trg_def sys_epoll_ctl_def Let_def intro: gov_inv_idle)

lemma arm_trigger_spec:
  assumes os: "os_ok os" and inv: "gov_inv tbl c0 h0 q ctx h" and n: "trg_fd ctx < 0"
  shows "runs (arm_trigger os ctx h) (\<lambda>(ctx', h'). gov_inv tbl c0 h0 q ctx' h' \<and> (\<exists>fd. ctx' = ctx\<lparr>trg_fd := fd\<rparr>))"
proof -
  have same: "\<exists>fd. ctx = ctx\<lparr>trg_fd := fd\<rparr>" by (rule exI [of _ "trg_fd ctx"]) simp
  have add: "gov_inv tbl c0 h0 q (ctx\<lparr>trg_fd := fd\<rparr>) g" if "gov_inv tbl c0 h0 q (ctx\<lparr>trg_fd := fd\<rparr>) h'"
    "pg_epoll_add_trg os (ctx\<lparr>trg_fd := fd\<rparr>) h' = (r, g)" for fd r h' g
    using add_trg_inv [OF that(1), of os "ctx\<lparr>trg_fd := fd\<rparr>"] that(2) by simp
  have cl: "gov_inv tbl c0 h0 q (ctx\<lparr>trg_fd := - 1\<rparr>) (Close fd # g)" if "gov_inv tbl c0 h0 q (ctx\<lparr>trg_fd := fd\<rparr>) g" "0 \<le> fd" for fd g
    using close_trg_inv [OF that(1)] that(2) by simp
  show ?thesis
    unfolding arm_trigger_def Let_def pg_psi_close_trg_def sys_close_def
    using same add cl by (auto intro!: runs_mono [OF open_trg_spec [OF os inv n]] split: prod.splits)
qed

lemma psi_recov_inv:
  assumes os: "os_ok os" and inv: "gov_inv tbl c0 h0 q ctx h"
  shows "case pg_psi_recov os (psi ctx) path h of (ret, mon, h') \<Rightarrow> gov_inv tbl c0 h0 q (ctx\<lparr>psi := mon\<rparr>) h'"
proof -
  define m where "m = (psi ctx)\<lparr>mon_fd := - 1\<rparr>"
  define g where "g = (if 0 \<le> mon_fd (psi ctx) then Close (mon_fd (psi ctx)) # h else h)"
  have m1: "gov_inv tbl c0 h0 q (ctx\<lparr>psi := m\<rparr>) g"
    using inv close_psi_inv [OF inv] no_psi_inv [OF inv] by (simp add: m_def g_def)
  have ok: "psi_ok (m\<lparr>mon_fd := fd, mon_filter := pg_kalman_reset (mon_filter m), mon_first_run := True\<rparr>)" for fd
    by (simp add: psi_ok_def kalman_ok_reset)
  have "pg_psi_recov os (psi ctx) path h = (case sys_open os path [O_RDONLY, O_CLOEXEC] g of
      (Inl err, h) \<Rightarrow> (- err, m, h)
    | (Inr fd, h) \<Rightarrow> (0, m\<lparr>mon_fd := fd, mon_filter := pg_kalman_reset (mon_filter m), mon_first_run := True\<rparr>, h))"
    by (simp add: pg_psi_recov_def m_def g_def sys_close_def split: sum.split prod.split)
  moreover have "gov_inv tbl c0 h0 q (ctx\<lparr>psi := m\<rparr>) (Open path f (Inl e) # g)" for f e
    using m1 by (rule gov_inv_idle) simp_all
  moreover have "gov_inv tbl c0 h0 q (ctx\<lparr>psi := m\<lparr>mon_fd := fd, mon_filter := pg_kalman_reset (mon_filter m), mon_first_run := True\<rparr>\<rparr>)
      (Open path f (Inr fd) # g)" if "os_open os g path f = Inr fd" for f fd
    using open_psi_inv [OF m1, of "m\<lparr>mon_fd := fd, mon_filter := pg_kalman_reset (mon_filter m), mon_first_run := True\<rparr>" path f]
      fresh_fd(1,3) [OF os that] ok by (simp add: m_def)
  ultimately show ?thesis by (auto simp: sys_open_def Let_def split: sum.splits)
qed

text \<open>The waits after consecutive failures.\<close>

lemma psi_backoff_values:
  assumes "f \<le> 6"
  shows "unat (fst (psi_backoff f)) = min 6 (unat f + 1)"
    "sint (snd (psi_backoff f)) = min 30000 (1000 * 2 ^ (min 6 (unat f + 1) - 1))"
proof -
  have "unat f \<in> {0, 1, 2, 3, 4, 5, 6}" using assms by (auto simp: word_le_nat_alt)
  then have "f \<in> {0, 1, 2, 3, 4, 5, 6}" by (auto simp: word_unat_eq_iff)
  then show "unat (fst (psi_backoff f)) = min 6 (unat f + 1)"
    "sint (snd (psi_backoff f)) = min 30000 (1000 * 2 ^ (min 6 (unat f + 1) - 1))"
    by (auto simp: psi_backoff_def)
qed

lemma gov_inv_fails: "gov_inv tbl c0 h0 q ctx h \<Longrightarrow> f \<le> 6 \<Longrightarrow> gov_inv tbl c0 h0 q (ctx\<lparr>psi_fails := f\<rparr>) h"
  by (erule gov_inv_ctx) (auto simp: ctx_defs)

lemma psi_recover_spec:
  assumes os: "os_ok os" and inv: "gov_inv tbl c0 h0 q ctx h"
  shows "runs (psi_recover os ctx h) (\<lambda>(ctx', h'). gov_inv tbl c0 h0 q ctx' h' \<and> disp_of ctx' = disp_of ctx \<and>
    psi_fails ctx' = fst (psi_backoff (psi_fails ctx)) \<and> next_wake ctx' = snd (psi_backoff (psi_fails ctx)))"
proof -
  have f: "psi_fails ctx \<le> 6" using inv by (simp add: gov_inv_def ctx_ok_def)
  obtain n w where b: "psi_backoff (psi_fails ctx) = (n, w)" by (cases "psi_backoff (psi_fails ctx)")
  have "unat n \<le> 6" using psi_backoff_values(1) [OF f] b by simp
  then have n: "n \<le> 6" by (simp add: word_le_nat_alt)
  define c1 where "c1 = ctx\<lparr>psi_fails := n, next_wake := w\<rparr>"
  define h1 where "h1 = pg_epoll_rm_trg os c1 h"
  define c2 where "c2 = (if 0 \<le> trg_fd c1 then c1\<lparr>trg_fd := - 1\<rparr> else c1)"
  define h2 where "h2 = (if 0 \<le> trg_fd c1 then Close (trg_fd c1) # h1 else h1)"
  have "gov_inv tbl c0 h0 q c1 h1"
    unfolding h1_def c1_def using gov_inv_fails [OF inv n] by (intro rm_trg_inv) simp
  then have i2: "gov_inv tbl c0 h0 q c2 h2" using close_trg_inv unfolding c2_def h2_def by auto
  obtain ret mon h3 where r: "pg_psi_recov os (psi c2) PG_PATH_PSI_CPU h2 = (ret, mon, h3)" by (cases "pg_psi_recov os (psi c2) PG_PATH_PSI_CPU h2")
  have i3: "gov_inv tbl c0 h0 q (c2\<lparr>psi := mon\<rparr>) h3" using psi_recov_inv [OF os i2, of PG_PATH_PSI_CPU] r by simp
  have e: "psi_recover os ctx h = arm_trigger os (c2\<lparr>psi := mon\<rparr>) h3"
    using r unfolding psi_recover_def b prod.case Let_def c1_def [symmetric] h1_def [symmetric] c2_def h2_def pg_psi_close_trg_def sys_close_def
    by (cases "0 \<le> trg_fd c1") simp_all
  have fr: "disp_of c2 = disp_of ctx" "psi_fails c2 = n" "next_wake c2 = w" "trg_fd c2 < 0"
    by (auto simp: c2_def c1_def disp_of_def)
  show ?thesis
    unfolding e b using fr by (intro runs_mono [OF arm_trigger_spec [OF os i3]]) (auto simp: disp_of_def)
qed

lemma read_psi_spec:
  assumes os: "os_ok os" and inv: "gov_inv tbl c0 h0 q ctx h"
  shows "runs (read_psi os ctx now h) (\<lambda>(r, ctx', h'). gov_inv tbl c0 h0 q ctx' h' \<and> disp_of ctx' = disp_of ctx \<and>
    (case r of None \<Rightarrow> psi_fails ctx' = fst (psi_backoff (psi_fails ctx)) \<and> next_wake ctx' = snd (psi_backoff (psi_fails ctx))
     | Some data \<Rightarrow> psi_fails ctx' = 0))"
proof -
  have p: "psi_ok (psi ctx)" using inv by (simp add: gov_inv_def ctx_ok_def)
  have i: "gov_inv tbl c0 h0 q (ctx\<lparr>psi := mon\<rparr>) (new @ h)"
    if "psi_ok mon" "mon_fd mon = mon_fd (psi ctx)" "set new \<subseteq> range (Pread (mon_fd (psi ctx)) 512)" for mon new
  proof -
    have "only_reads new" using that(3) unfolding only_reads_def by blast
    then show ?thesis by (rule gov_inv_reads [OF gov_inv_psi [OF inv that(1,2)]])
  qed
  define Q where "Q = (\<lambda>(r, ctx', h'). gov_inv tbl c0 h0 q ctx' h' \<and> disp_of ctx' = disp_of ctx \<and>
    (case r of None \<Rightarrow> psi_fails ctx' = fst (psi_backoff (psi_fails ctx)) \<and> next_wake ctx' = snd (psi_backoff (psi_fails ctx))
     | Some (data :: pg_psi_data) \<Rightarrow> psi_fails ctx' = 0))"
  have bad: "runs (psi_recover os ctx (new @ h)) (\<lambda>(ctx', h'). Q (None, ctx', h'))"
    if "set new \<subseteq> range (Pread (mon_fd (psi ctx)) 512)" for new
    using i [OF p refl that] by (intro runs_mono [OF psi_recover_spec [OF os]]) (auto simp: Q_def)
  have good: "Q (Some data, if psi_fails ctx \<noteq> 0 then ctx\<lparr>psi := mon, psi_fails := 0\<rparr> else ctx\<lparr>psi := mon\<rparr>, new @ h)"
    if "psi_ok mon" "mon_fd mon = mon_fd (psi ctx)" "set new \<subseteq> range (Pread (mon_fd (psi ctx)) 512)" for data mon new
    using gov_inv_fails [OF i [OF that], of 0] i [OF that] by (simp add: Q_def disp_of_def)
  have c: "case x of (r, mon, h') \<Rightarrow> runs (case r of Inl err \<Rightarrow> Option.bind (psi_recover os (ctx\<lparr>psi := mon\<rparr>) h') (\<lambda>(ctx, h). Some (None, ctx, h))
      | Inr data \<Rightarrow> Some (Some data, if psi_fails (ctx\<lparr>psi := mon\<rparr>) \<noteq> 0 then ctx\<lparr>psi := mon, psi_fails := 0\<rparr> else ctx\<lparr>psi := mon\<rparr>, h')) Q"
    if "case x of (r, mon', h') \<Rightarrow> psi_ok mon' \<and> mon_fd mon' = mon_fd (psi ctx) \<and>
    (\<exists>new. h' = new @ h \<and> set new \<subseteq> range (Pread (mon_fd (psi ctx)) 512)) \<and>
    (case r of Inl e \<Rightarrow> mon' = psi ctx \<and> (e = EBADF \<or> e = EIO \<or> e = ENODATA)
     | Inr d \<Rightarrow> 0 \<le> mon_fd (psi ctx) \<and> \<not> mon_first_run mon' \<and> last_read_ts mon' = now \<and>
         (\<not> mon_first_run (psi ctx) \<longrightarrow> 0 \<le> sint (tr_cur (some_trend d))))" for x
    using that good by (auto intro!: runs_mono [OF bad] split: sum.splits)
  show ?thesis
    unfolding read_psi_def Let_def Q_def [symmetric] runs_simps
    by (rule runs_mono [OF psi_read_spec [OF os p]], drule c) auto
qed

section \<open>Sensors and demand\<close>

lemma battery_spec:
  assumes os: "os_ok os" and inv: "gov_inv tbl c0 h0 q ctx h"
  shows "runs (poll_battery_metrics os ctx now h) (\<lambda>(ctx', h'). gov_inv tbl c0 h0 q ctx' h' \<and> disp_of ctx' = disp_of ctx \<and>
    psi_fails ctx' = psi_fails ctx \<and> load_state ctx' = load_state ctx)"
proof -
  define c1 where "c1 = (\<lambda>lvl temp. ctx\<lparr>bat_lvl := lvl, bat_temp := temp, last_bat := now\<rparr>)"
  have c1: "ctx\<lparr>bat_lvl := lvl, bat_temp := temp, last_bat := now\<rparr> = c1 lvl temp" for lvl temp by (simp add: c1_def)
  have f: "disp_of (c1 lvl temp) = disp_of ctx" "psi_fails (c1 lvl temp) = psi_fails ctx"
    "load_state (c1 lvl temp) = load_state ctx" "trg_fd (c1 lvl temp) = trg_fd ctx" for lvl temp
    by (simp_all add: c1_def disp_of_def)
  have i: "gov_inv tbl c0 h0 q (c1 lvl temp) (new' @ new @ h)" if "only_reads new" "only_reads new'" for lvl temp new new'
    using gov_inv_reads [OF gov_inv_reads [OF inv that(1)] that(2)] by (simp add: c1_def)
  have arm: "runs (if trg_fd ctx < 0 then arm_trigger os (c1 lvl temp) g else Some (c1 lvl temp, g)) (\<lambda>(ctx', h').
      gov_inv tbl c0 h0 q ctx' h' \<and> disp_of ctx' = disp_of ctx \<and> psi_fails ctx' = psi_fails ctx \<and> load_state ctx' = load_state ctx)"
    if "gov_inv tbl c0 h0 q (c1 lvl temp) g" for lvl temp g
    using that by (auto simp: f intro!: runs_mono [OF arm_trigger_spec [OF os that]]) (auto simp: disp_of_def c1_def)
  have t: "- 1966080 \<le> sint FALLBACK_TEMP_BAT" "sint FALLBACK_TEMP_BAT \<le> 9830400" by (simp_all add: q16_consts)
  show ?thesis
    unfolding poll_battery_metrics_def Let_def pg_sensor_read_bat_temp_def c1
    using inv i
    by (auto simp: f intro!: runs_mono [OF bat_cap_spec [OF os]] runs_mono [OF read_temp_spec [OF os t]] arm)
qed

lemma cpu_temp_spec:
  assumes os: "os_ok os"
  shows "runs (read_cpu_temp os ctx h) (\<lambda>((temp, hold, fails), h'). (\<exists>new. h' = new @ h \<and> only_reads new) \<and>
    (temp_fails ctx \<le> 10 \<longrightarrow> fails \<le> 10) \<and> (hold \<longrightarrow> temp_fails ctx < 10))"
proof -
  have t: "- 1966080 \<le> sint FALLBACK_TEMP_CPU" "sint FALLBACK_TEMP_CPU \<le> 9830400" by (simp_all add: q16_consts)
  have "f + 1 \<le> 10" if "f < 10" for f :: u8 using that by (auto simp: inc_le)
  then show ?thesis
    unfolding read_cpu_temp_def pg_sensor_read_cpu_temp_def
    by (auto intro!: runs_mono [OF read_temp_spec [OF os t]])
qed

lemma gov_inv_thermal: "gov_inv tbl c0 h0 q ctx h \<Longrightarrow> f \<le> 10 \<Longrightarrow> gov_inv tbl c0 h0 q (ctx\<lparr>temp_fails := f\<rparr>) h"
  "gov_inv tbl c0 h0 q ctx h \<Longrightarrow> pg_thermal_update (thermal_state ctx) t b cfg now = (scl, st) \<Longrightarrow>
    gov_inv tbl c0 h0 q (ctx\<lparr>thermal_state := st, cached_th_scl := scl\<rparr>) h"
  using thermal_update_ok [of "thermal_state ctx" t b cfg now] thermal_range [of "thermal_state ctx" t b cfg now]
  by (auto elim!: gov_inv_ctx simp: ctx_defs)

lemma thermal_spec:
  assumes os: "os_ok os" and inv: "gov_inv tbl c0 h0 q ctx h"
  shows "runs (poll_thermal_metrics os tbl ctx now h) (\<lambda>(ctx', h'). gov_inv tbl c0 h0 q ctx' h' \<and> disp_of ctx' = disp_of ctx \<and>
    psi_fails ctx' = psi_fails ctx \<and> load_state ctx' = load_state ctx)"
proof -
  have f: "temp_fails ctx \<le> 10" using inv by (simp add: gov_inv_def ctx_ok_def)
  have i: "gov_inv tbl c0 h0 q (ctx\<lparr>temp_fails := n\<rparr>) (new @ h)" if "n \<le> 10" "only_reads new" for n new
    using gov_inv_reads [OF gov_inv_thermal(1) [OF inv that(1)] that(2)] .
  have u: "gov_inv tbl c0 h0 q (ctx\<lparr>temp_fails := n, thermal_state := st, cached_th_scl := scl\<rparr>) (new @ h)"
    if "n \<le> 10" "only_reads new" "pg_thermal_update (thermal_state ctx) t (bat_temp ctx) (t_thermal tbl) now = (scl, st)" for n new t scl st
    using gov_inv_thermal(2) [OF i [OF that(1,2)], of t "bat_temp ctx" "t_thermal tbl" now scl st] that(3) by simp
  show ?thesis
    unfolding poll_thermal_metrics_def Let_def
    using inv i u f
    by (auto simp: disp_of_def intro!: runs_mono [OF cpu_temp_spec [OF os]] split: prod.splits)
qed

lemma demand_of_psi:
  assumes "demand_of tbl ctx now trend = (l_dem, p_eff, st)"
  shows "0 \<le> sint (psi_val st) \<and> sint (psi_val st) \<le> 32768000 \<and> l_dem = psi_val st"
  using assms load_demand_range by (auto simp: demand_of_def Let_def prod_eq_iff split: prod.splits)

lemma calc_demand_spec:
  assumes os: "os_ok os" and inv: "gov_inv tbl c0 h0 q ctx h"
  shows "runs (calc_demand os tbl ctx now data h) (\<lambda>(r, ctx', h'). gov_inv tbl c0 h0 q ctx' h' \<and> disp_of ctx' = disp_of ctx \<and>
    psi_fails ctx' = psi_fails ctx)"
proof -
  have th: "runs (poll_thermal_metrics os tbl c1 now g) (\<lambda>(ctx', h'). gov_inv tbl c0 h0 q ctx' h' \<and> disp_of ctx' = disp_of ctx \<and>
    psi_fails ctx' = psi_fails ctx)" if "gov_inv tbl c0 h0 q c1 g" "disp_of c1 = disp_of ctx" "psi_fails c1 = psi_fails ctx" for c1 g
    using that by (intro runs_mono [OF thermal_spec [OF os that(1)]]) auto
  have d: "gov_inv tbl c0 h0 q (c1\<lparr>load_state := st\<rparr>) g" if "gov_inv tbl c0 h0 q c1 g" "demand_of tbl c1 now tr = (l, p, st)" for c1 g tr l p st
    using demand_of_psi [OF that(2)] by (intro gov_inv_load [OF that(1)]) auto
  show ?thesis
    unfolding calc_demand_def Let_def
    using d by (auto simp: disp_of_def intro!: runs_mono [OF battery_spec [OF os inv]] runs_mono [OF th] split: prod.splits)
qed

section \<open>The gate\<close>

lemma gov_inv_poll: "gov_inv tbl c0 h0 q ctx h \<Longrightarrow> 100 \<le> unat (cur_ivl st) \<Longrightarrow> unat (cur_ivl st) \<le> 10000 \<Longrightarrow>
    gov_inv tbl c0 h0 q (ctx\<lparr>poll_state := st\<rparr>) h"
  by (erule gov_inv_ctx) (auto simp: ctx_defs)

lemma sint_ucast_10000:
  assumes "w \<le> 10000"
  shows "sint (ucast (w :: u64) :: i32) = uint w"
proof -
  have w: "0 \<le> uint w" "uint w \<le> 10000" using assms by (simp_all add: word_le_def)
  have "sint w = uint w" 
    using no_wrap64 [of "uint w"] w by (simp add: sint_uint del: uint_ge_0)
  then show ?thesis unfolding sint_ucast_64_32 using w by (simp only:) (intro no_wrap32; linarith)
qed

lemma gov_gate_spec:
  assumes t: "tables_ok tbl" and inv: "gov_inv tbl c0 h0 q ctx h"
  shows "case gov_gate os tbl ctx data p h of (go, ctx', h') \<Rightarrow> gov_inv tbl c0 h0 q ctx' h' \<and> disp_of ctx' = disp_of ctx \<and>
    psi_fails ctx' = psi_fails ctx \<and> 50 \<le> sint (next_wake ctx') \<and> sint (next_wake ctx') \<le> 10000"
proof -
  have c: "100 \<le> unat (cur_ivl (poll_state ctx))" "unat (cur_ivl (poll_state ctx)) \<le> 10000"
    and v: "0 \<le> sint (psi_val (load_state ctx))" "sint (psi_val (load_state ctx)) \<le> 32768000"
    using inv by (simp_all add: gov_inv_def ctx_ok_def)
  have tp: "Q16_TO_INT (trans_poll (t_cpu tbl)) = 50"
    using t by (simp add: tables_ok_def cpu_cfg_ok_def Q16_TO_INT_def q16_consts)
  obtain wait st g where n: "pg_poll_calc_next os (poll_state ctx) p (avg300 (some_trend data)) (tr_vel (some_trend data)) h = (wait, st, g)"
    by (cases "pg_poll_calc_next os (poll_state ctx) p (avg300 (some_trend data)) (tr_vel (some_trend data)) h")
  then have w: "100 \<le> wait" "wait \<le> 10000" "100 \<le> unat (cur_ivl st)" "unat (cur_ivl st) \<le> 10000"
    using lcg.poll_next_wait [OF c(2)] lcg.poll_next_state [OF c] unfolding pg_poll_calc_next_def by (metis fst_conv snd_conv)+
  have g: "g = Clock CLOCK_MONOTONIC (os_clock os h CLOCK_MONOTONIC) # h"
    using n by (auto simp: pg_poll_calc_next_def poll_next_def sys_clock_def Let_def split: if_splits prod.splits)
  have i: "gov_inv tbl c0 h0 q (ctx\<lparr>poll_state := st\<rparr>) g"
    unfolding g using gov_inv_poll [OF inv w(3,4)] by (rule gov_inv_idle) simp_all
  have i2: "gov_inv tbl c0 h0 q (ctx\<lparr>poll_state := st, load_state := (load_state ctx)\<lparr>psi_ref := psi_val (load_state ctx)\<rparr>\<rparr>) g"
    using v by (intro gov_inv_load [OF i]) simp_all
  have sw: "100 \<le> sint (ucast wait :: i32)" "sint (ucast wait :: i32) \<le> 10000"
    using w(1,2) by (simp_all add: sint_ucast_10000 word_le_def)
  have swap: "ctx\<lparr>poll_state := st, next_wake := x, load_state := l, remap_due := b\<rparr> =
    ctx\<lparr>poll_state := st, load_state := l, next_wake := x, remap_due := b\<rparr>" for x l b by simp
  have r: "gov_inv tbl c0 h0 q (ctx\<lparr>poll_state := st, next_wake := x\<rparr>) g"
    "gov_inv tbl c0 h0 q (ctx\<lparr>poll_state := st, next_wake := x, load_state := (load_state ctx)\<lparr>psi_ref := psi_val (load_state ctx)\<rparr>, remap_due := b\<rparr>) g" for x b
    using i i2 unfolding swap by simp_all
  show ?thesis
    unfolding gov_gate_def n Let_def prod.case using sw r tp by (auto simp: disp_of_def)
qed

section \<open>The mapping\<close>

lemma node_ns_quant:
  assumes "0 \<le> lo" "lo \<le> sint v" "sint v \<le> hi"
  shows "node_ns lo hi (pg_math_san_quant_u64 v fb PG_QUANT_NS)"
proof -
  have nn: "\<not> v <s 0" using assms by (simp add: sint_cmp)
  define x where "x = sint v * 1000000 div 65536"
  have u: "uint (pg_math_san_quant_u64 v fb PG_QUANT_NS) = (x + 32768) div 65536 * 65536"
    using uint_san_quant [of v fb PG_QUANT_NS] nn assms by (simp add: quant_ns_def x_def)
  have "lo * 1000000 \<le> sint v * 1000000" "sint v * 1000000 \<le> hi * 1000000" using assms by simp_all
  then have "lo * 1000000 div 65536 \<le> x" "x \<le> hi * 1000000 div 65536"
    unfolding x_def by (intro zdiv_mono1; simp)+
  moreover have "x - 32768 \<le> (x + 32768) div 65536 * 65536" "(x + 32768) div 65536 * 65536 \<le> x + 32768"
    using div_mult_mod_eq [of "x + 32768" 65536] pos_mod_bound [of 65536 "x + 32768"] pos_mod_sign [of 65536 "x + 32768"] by linarith+
  ultimately show ?thesis unfolding node_ns_def u by simp
qed

lemma node_num_san:
  assumes "0 \<le> sint lo" "sint lo \<le> sint v" "sint v \<le> sint hi" "sint hi \<le> 67108864"
  shows "node_num lo hi (pg_math_san_u64 v fb)"
  using assms by (simp add: node_num_def uint_san_u64 zdiv_mono1)

lemma mapped_values:
  assumes t: "tables_ok tbl" and l: "l = t_lim tbl"
  shows "sc_active (sched_lat ctx) \<Longrightarrow> node_value l ctx (sc_fd (sched_lat ctx)) (map_v_lat tbl ctx (map_lat tbl ctx th d p))"
    "sc_active (sched_gran ctx) \<Longrightarrow> node_value l ctx (sc_fd (sched_gran ctx)) (map_v_gran tbl ctx (map_lat tbl ctx th d p))"
    "sc_active (sched_wake ctx) \<Longrightarrow> node_value l ctx (sc_fd (sched_wake ctx)) (map_v_wake tbl ctx p)"
    "sc_active (sched_mig ctx) \<Longrightarrow> node_value l ctx (sc_fd (sched_mig ctx)) (map_v_mig tbl ctx v p)"
    "sc_active (sched_walt ctx) \<Longrightarrow> node_value l ctx (sc_fd (sched_walt ctx)) (map_v_walt tbl ctx p)"
    "sc_active (sched_ucl ctx) \<Longrightarrow> node_value l ctx (sc_fd (sched_ucl ctx)) (map_v_ucl tbl ctx th p)"
proof -
  have b: "0 \<le> sint (min_lat l)" "sint (min_lat l) \<le> sint (max_lat l)" "0 \<le> sint (min_gran l)" "sint (min_gran l) \<le> sint (max_gran l)"
    "0 \<le> sint (min_wake l)" "sint (min_wake l) \<le> sint (max_wake l)" "0 \<le> sint (min_mig l)" "sint (min_mig l) \<le> sint (max_mig l)"
    "0 \<le> sint (min_walt l)" "sint (min_walt l) \<le> sint (max_walt l)" "sint (max_walt l) \<le> 67108864"
    "0 \<le> sint (min_ucl l)" "sint (min_ucl l) \<le> sint (max_ucl l)" "sint (max_ucl l) \<le> 67108864"
    using t by (simp_all add: l tables_ok_def lim_ok_def lim_pair_def)
  note w = lat_within [OF b(2)] gran_within [OF b(4)] wakeup_within [OF b(6)] migration_within [OF b(8)] walt_within [OF b(10)] uclamp_within [OF b(13)]
  have g: "min (sint (min_gran l)) (sint (min_lat l)) \<le> sint (pg_cpu_calc_gran lat c l)" if "sint (min_lat l) \<le> sint lat" for lat c
    using w(3) [of lat c] that by (auto simp: min_def split: if_splits)
  show "sc_active (sched_lat ctx) \<Longrightarrow> node_value l ctx (sc_fd (sched_lat ctx)) (map_v_lat tbl ctx (map_lat tbl ctx th d p))"
    using b w by (auto simp: map_v_lat_def map_lat_def l intro!: node_value.lat node_ns_quant)
  show "sc_active (sched_gran ctx) \<Longrightarrow> node_value l ctx (sc_fd (sched_gran ctx)) (map_v_gran tbl ctx (map_lat tbl ctx th d p))"
    using b w g by (auto simp: map_v_gran_def map_lat_def l intro!: node_value.gran node_ns_quant)
  show "sc_active (sched_wake ctx) \<Longrightarrow> node_value l ctx (sc_fd (sched_wake ctx)) (map_v_wake tbl ctx p)"
    using b w by (auto simp: map_v_wake_def l intro!: node_value.wake node_ns_quant)
  show "sc_active (sched_mig ctx) \<Longrightarrow> node_value l ctx (sc_fd (sched_mig ctx)) (map_v_mig tbl ctx v p)"
    using b w by (auto simp: map_v_mig_def l intro!: node_value.mig node_ns_quant)
  show "sc_active (sched_walt ctx) \<Longrightarrow> node_value l ctx (sc_fd (sched_walt ctx)) (map_v_walt tbl ctx p)"
    using b w by (auto simp: map_v_walt_def l intro!: node_value.walt node_num_san)
  show "sc_active (sched_ucl ctx) \<Longrightarrow> node_value l ctx (sc_fd (sched_ucl ctx)) (map_v_ucl tbl ctx th p)"
    using b w by (auto simp: map_v_ucl_def l intro!: node_value.ucl node_num_san)
qed

lemma step_frame:
  assumes "sysfs_step c v c' new"
  shows "sc_fd c' = sc_fd c \<and> sc_active c' = sc_active c \<and> sc_has_base c' = sc_has_base c \<and> sc_base c' = sc_base c \<and>
    (cache_ok c \<longrightarrow> cache_ok c')"
  using assms by cases (auto simp: cache_ok_def word_le_nat_alt)

lemma wires_value: "wires ctx = wires c0 \<Longrightarrow> node_value l ctx fd v = node_value l c0 fd v"
  by (simp add: node_value_iff wires_def fittings_def node_id_def nodes_def)

text \<open>One update of a node, for whichever field of the context holds its cache.\<close>

lemma node_value_bounded: "node_value l ctx fd v \<Longrightarrow> v \<noteq> UINT64_MAX"
proof
  assume n: "node_value l ctx fd v" and v: "v = UINT64_MAX"
  have u: "uint v = 18446744073709551615" by (simp add: v unsigned_minus_1_eq_mask mask_eq_exp_minus_1)
  have b: "hi * 1000000 div 65536 \<le> 2147483647 * 1000000 div 65536" if "hi \<le> 2147483647" for hi :: int
    using that by (intro zdiv_mono1) simp_all
  have c: "(sint hi + 32768) div 65536 \<le> (2147483647 + 32768) div 65536" for hi :: q16
    using sint32_range(2) [of hi] by (intro zdiv_mono1) simp_all
  have ns: "\<not> node_ns lo (sint hi) v" for lo and hi :: q16
    using b [OF sint32_range(2) [of hi]] unfolding node_ns_def u by simp
  have num: "\<not> node_num lo hi v" for lo hi
    using c [of hi] unfolding node_num_def u by simp
  show False using n ns num by (auto simp: node_value_iff)
qed

lemma tracks_step:
  assumes t: "tracks ctx h" and s: "sysfs_step c v c' new" and c: "nodes ctx ! i = c" "nodes ctx' = (nodes ctx)[i := c']" "i < 6"
    and v: "sc_active c \<Longrightarrow> v \<noteq> UINT64_MAX"
  shows "tracks ctx' (new @ h)"
proof -
  have l: "length (nodes ctx) = 6" by (simp add: nodes_def)
  have fr: "sc_fd c' = sc_fd c" "sc_active c' = sc_active c" using step_frame [OF s] by simp_all
  have n: "nodes ctx' ! j = (if j = i then c' else nodes ctx ! j)" if "j < 6" for j
    using that c l by simp
  have other: "last_done fd (new @ h) = last_done fd h" if "sc_active c \<longrightarrow> fd \<noteq> sc_fd c" for fd
  proof -
    have "\<forall>e \<in> set new. \<forall>b r. e \<noteq> Pwrite fd b r" using step_writes [OF s] that by blast
    then show ?thesis
    proof (induction new)
      case (Cons e new)
      then have "last_done fd (e # new @ h) = last_done fd (new @ h)"
        by (cases "(fd, e # new @ h)" rule: last_done.cases) auto
      then show ?case using Cons by simp
    qed simp
  qed
  have own: "cache_tracks c' (new @ h)" if "sc_active c"
    using t c that last_done_step(1) [OF s v] unfolding tracks_def by blast
  have old: "cache_tracks (nodes ctx ! j) (new @ h)" if "j < 6" "j \<noteq> i" "sc_active (nodes ctx ! j)" for j
    using that t c other [of "sc_fd (nodes ctx ! j)"] unfolding tracks_def cache_tracks_def by auto
  show ?thesis
    using t own old fr c(1,3) unfolding tracks_def by (auto simp: n)
qed

lemma node_update:
  assumes os: "os_ok os" and inv: "gov_inv tbl c0 h0 q ctx h" and ok: "cache_ok c"
    and v: "sc_active c \<Longrightarrow> node_value (t_lim tbl) c0 (sc_fd c) v"
    and put: "\<And>c'. cache_ok c' \<Longrightarrow> node_id c' = node_id c \<Longrightarrow>
      (ctx_ok ctx \<longrightarrow> ctx_ok (put c')) \<and> wires (put c') = wires ctx \<and> own (put c') = own ctx \<and> (owns ctx h \<longrightarrow> owns (put c') h)"
    and i: "nodes ctx ! i = c" "\<And>c'. nodes (put c') = (nodes ctx)[i := c']" "i < 6"
  shows "runs (pg_sysfs_update os c v False st h) (\<lambda>(c', h'). gov_inv tbl c0 h0 q (put c') h')"
proof -
  have "gov_inv tbl c0 h0 q (put c') (new @ h)" if s: "sysfs_step c v c' new" for c' new
  proof -
    have "cache_ok c'" "node_id c' = node_id c" using step_frame [OF s] ok by (simp_all add: node_id_def)
    note p = put [OF this]
    have tr: "tracks ctx h \<Longrightarrow> tracks (put c') (new @ h)"
      using v node_value_bounded by (intro tracks_step [OF _ s i(1) i(2) i(3)]) auto
    have ev: "(\<exists>t. e = Clock CLOCK_MONOTONIC t) \<or> (\<exists>r. e = Pwrite (sc_fd c) (pg_fmt_u64 v) r)" if "e \<in> set new" for e
      using step_calls [OF s] that by auto
    have gw: "gov_write tbl c0 e" if "e \<in> set new" for e
      using ev [OF that]
    proof (elim disjE exE)
      fix r assume e: "e = Pwrite (sc_fd c) (pg_fmt_u64 v) r"
      then have "sc_active c" using step_writes(3) [OF s] that by blast
      then have "node_value (t_lim tbl) c0 (sc_fd c) v" by (rule v)
      then show ?thesis unfolding e by auto
    qed simp
    have del: "deletes_ok n D (xs @ h) = deletes_ok n D h \<and> open_fds (xs @ h) = open_fds h" if "set xs \<subseteq> set new" for n D xs
      using that
    proof (induction xs)
      case (Cons e xs)
      then have "deletes_ok n D (e # xs @ h) = deletes_ok n D (xs @ h) \<and> open_fds (e # xs @ h) = open_fds (xs @ h)"
        using ev [of e] by auto
      then show ?case using Cons by simp
    qed simp
    have "\<not> removes e" if "e \<in> set new" for e using ev [OF that] by auto
    then have "grows (\<lambda>e. \<not> removes e) h (new @ h)" by simp
    moreover have "grows (gov_write tbl c0) h (new @ h)" using gw by (simp add: grows_append)
    moreover have "\<not> rebinds fd e" if "e \<in> set new" for fd e using ev [OF that] by auto
    then have "keeps_open (open_fds h0 - own c0) h (new @ h)" by (simp add: keeps_open_def)
    ultimately show ?thesis
      using inv p tr del [OF subset_refl] unfolding gov_inv_def owns_def by (auto intro: grows_trans keeps_open_trans)
  qed
  then show ?thesis by (auto intro!: runs_mono [OF update_refines [OF os ok]])
qed

lemma node_updates:
  assumes os: "os_ok os" and inv: "gov_inv tbl c0 h0 q ctx h"
  shows "(sc_active (sched_lat ctx) \<Longrightarrow> node_value (t_lim tbl) c0 (sc_fd (sched_lat ctx)) v) \<Longrightarrow>
      runs (pg_sysfs_update os (sched_lat ctx) v False st h) (\<lambda>(c', h'). gov_inv tbl c0 h0 q (ctx\<lparr>sched_lat := c'\<rparr>) h')"
    "(sc_active (sched_gran ctx) \<Longrightarrow> node_value (t_lim tbl) c0 (sc_fd (sched_gran ctx)) v) \<Longrightarrow>
      runs (pg_sysfs_update os (sched_gran ctx) v False st h) (\<lambda>(c', h'). gov_inv tbl c0 h0 q (ctx\<lparr>sched_gran := c'\<rparr>) h')"
    "(sc_active (sched_wake ctx) \<Longrightarrow> node_value (t_lim tbl) c0 (sc_fd (sched_wake ctx)) v) \<Longrightarrow>
      runs (pg_sysfs_update os (sched_wake ctx) v False st h) (\<lambda>(c', h'). gov_inv tbl c0 h0 q (ctx\<lparr>sched_wake := c'\<rparr>) h')"
    "(sc_active (sched_mig ctx) \<Longrightarrow> node_value (t_lim tbl) c0 (sc_fd (sched_mig ctx)) v) \<Longrightarrow>
      runs (pg_sysfs_update os (sched_mig ctx) v False st h) (\<lambda>(c', h'). gov_inv tbl c0 h0 q (ctx\<lparr>sched_mig := c'\<rparr>) h')"
    "(sc_active (sched_walt ctx) \<Longrightarrow> node_value (t_lim tbl) c0 (sc_fd (sched_walt ctx)) v) \<Longrightarrow>
      runs (pg_sysfs_update os (sched_walt ctx) v False st h) (\<lambda>(c', h'). gov_inv tbl c0 h0 q (ctx\<lparr>sched_walt := c'\<rparr>) h')"
    "(sc_active (sched_ucl ctx) \<Longrightarrow> node_value (t_lim tbl) c0 (sc_fd (sched_ucl ctx)) v) \<Longrightarrow>
      runs (pg_sysfs_update os (sched_ucl ctx) v False st h) (\<lambda>(c', h'). gov_inv tbl c0 h0 q (ctx\<lparr>sched_ucl := c'\<rparr>) h')"
proof -
  have c: "list_all cache_ok (nodes ctx)" using inv by (simp add: gov_inv_def ctx_ok_def)
  note n = c [unfolded nodes_def, simplified]
  show "runs (pg_sysfs_update os (sched_lat ctx) v False st h) (\<lambda>(c', h'). gov_inv tbl c0 h0 q (ctx\<lparr>sched_lat := c'\<rparr>) h')"
    if "sc_active (sched_lat ctx) \<Longrightarrow> node_value (t_lim tbl) c0 (sc_fd (sched_lat ctx)) v"
    using n by (intro node_update [OF os inv _ that, where i = 0]) (simp_all add: ctx_defs node_id_def)
  show "runs (pg_sysfs_update os (sched_gran ctx) v False st h) (\<lambda>(c', h'). gov_inv tbl c0 h0 q (ctx\<lparr>sched_gran := c'\<rparr>) h')"
    if "sc_active (sched_gran ctx) \<Longrightarrow> node_value (t_lim tbl) c0 (sc_fd (sched_gran ctx)) v"
    using n by (intro node_update [OF os inv _ that, where i = 1]) (simp_all add: ctx_defs node_id_def)
  show "runs (pg_sysfs_update os (sched_wake ctx) v False st h) (\<lambda>(c', h'). gov_inv tbl c0 h0 q (ctx\<lparr>sched_wake := c'\<rparr>) h')"
    if "sc_active (sched_wake ctx) \<Longrightarrow> node_value (t_lim tbl) c0 (sc_fd (sched_wake ctx)) v"
    using n by (intro node_update [OF os inv _ that, where i = 2]) (simp_all add: ctx_defs node_id_def)
  show "runs (pg_sysfs_update os (sched_mig ctx) v False st h) (\<lambda>(c', h'). gov_inv tbl c0 h0 q (ctx\<lparr>sched_mig := c'\<rparr>) h')"
    if "sc_active (sched_mig ctx) \<Longrightarrow> node_value (t_lim tbl) c0 (sc_fd (sched_mig ctx)) v"
    using n by (intro node_update [OF os inv _ that, where i = 3]) (simp_all add: ctx_defs node_id_def)
  show "runs (pg_sysfs_update os (sched_walt ctx) v False st h) (\<lambda>(c', h'). gov_inv tbl c0 h0 q (ctx\<lparr>sched_walt := c'\<rparr>) h')"
    if "sc_active (sched_walt ctx) \<Longrightarrow> node_value (t_lim tbl) c0 (sc_fd (sched_walt ctx)) v"
    using n by (intro node_update [OF os inv _ that, where i = 4]) (simp_all add: ctx_defs node_id_def)
  show "runs (pg_sysfs_update os (sched_ucl ctx) v False st h) (\<lambda>(c', h'). gov_inv tbl c0 h0 q (ctx\<lparr>sched_ucl := c'\<rparr>) h')"
    if "sc_active (sched_ucl ctx) \<Longrightarrow> node_value (t_lim tbl) c0 (sc_fd (sched_ucl ctx)) v"
    using n by (intro node_update [OF os inv _ that, where i = 5]) (simp_all add: ctx_defs node_id_def)
qed

lemma apply_mapping_spec:
  assumes os: "os_ok os" and t: "tables_ok tbl" and inv: "gov_inv tbl c0 h0 q ctx h"
  shows "runs (apply_mapping os tbl ctx data th d p h) (\<lambda>(ctx', h'). gov_inv tbl c0 h0 q ctx' h' \<and> disp_of ctx' = disp_of ctx \<and>
    psi_fails ctx' = psi_fails ctx \<and> next_wake ctx' = next_wake ctx)"
proof -
  define Q where "Q = (\<lambda>(ctx', h'). gov_inv tbl c0 h0 q ctx' h' \<and> disp_of ctx' = disp_of ctx \<and>
    psi_fails ctx' = psi_fails ctx \<and> next_wake ctx' = next_wake ctx)"
  have w: "wires ctx = wires c0" using inv by (simp add: gov_inv_def)
  note m = mapped_values [OF t refl, of ctx, unfolded wires_value [OF w]]
  have "Q (ctx\<lparr>sched_lat := a, sched_gran := b, sched_wake := c, sched_mig := d, sched_walt := e, sched_ucl := f\<rparr>, g)"
    if "gov_inv tbl c0 h0 q (ctx\<lparr>sched_lat := a, sched_gran := b, sched_wake := c, sched_mig := d, sched_walt := e, sched_ucl := f\<rparr>) g"
    for a b c d e f g
    using that by (simp add: Q_def disp_of_def)
  then show ?thesis
    unfolding apply_mapping_def Let_def Q_def [symmetric] runs_simps
    using inv m
    by (auto intro!: runs_mono [OF node_updates(1) [OF os inv]]
      runs_mono [OF node_updates(2) [OF os, of tbl c0 h0 q "ctx\<lparr>sched_lat := a\<rparr>" for a, simplified]]
      runs_mono [OF node_updates(3) [OF os, of tbl c0 h0 q "ctx\<lparr>sched_lat := a, sched_gran := b\<rparr>" for a b, simplified]]
      runs_mono [OF node_updates(4) [OF os, of tbl c0 h0 q "ctx\<lparr>sched_lat := a, sched_gran := b, sched_wake := c\<rparr>" for a b c, simplified]]
      runs_mono [OF node_updates(5) [OF os, of tbl c0 h0 q "ctx\<lparr>sched_lat := a, sched_gran := b, sched_wake := c, sched_mig := d\<rparr>" for a b c d, simplified]]
      runs_mono [OF node_updates(6) [OF os, of tbl c0 h0 q "ctx\<lparr>sched_lat := a, sched_gran := b, sched_wake := c, sched_mig := d, sched_walt := e\<rparr>" for a b c d e, simplified]])
qed

section \<open>The tick\<close>

text \<open>What a tick has done: the invariant, removals only while suspended, one step of the display.\<close>

definition ticked :: "pg_tables \<Rightarrow> pg_context \<Rightarrow> hist \<Rightarrow> timespec \<Rightarrow> pg_context \<Rightarrow> hist \<Rightarrow> bool" where
  "ticked tbl c0 h0 now ctx h \<longleftrightarrow> gov_inv tbl c0 h0 (disp_state ctx \<noteq> PG_DISP_SUSPEND) ctx h \<and>
     (\<exists>on. disp_step on now (disp_of c0) (disp_of ctx))"

lemma tickedI: "gov_inv tbl c0 h0 True ctx h \<Longrightarrow> disp_step on now (disp_of c0) (disp_of ctx) \<Longrightarrow> ticked tbl c0 h0 now ctx h"
  by (auto simp: ticked_def intro: gov_inv_weaken)

lemma psi_backoff_range:
  assumes "f \<le> 6"
  shows "1000 \<le> sint (snd (psi_backoff f))" "sint (snd (psi_backoff f)) \<le> 30000"
  unfolding psi_backoff_values(2) [OF assms] by simp_all

lemma exec_spec:
  assumes os: "os_ok os" and t: "tables_ok tbl" and inv: "gov_inv tbl ctx h0 True ctx h"
  shows "runs (exec_gov_logic os tbl ctx now h) (\<lambda>(ctx', h'). ticked tbl ctx h0 now ctx' h' \<and>
    50 \<le> sint (next_wake ctx') \<and> sint (next_wake ctx') \<le> 30000)"
proof -
  define Q where "Q = (\<lambda>(ctx', h'). ticked tbl ctx h0 now ctx' h' \<and> 50 \<le> sint (next_wake ctx') \<and> sint (next_wake ctx') \<le> 30000)"
  have asleep: "Q (c1, g)" if "gov_inv tbl ctx h0 False c1 g" "disp_state c1 = PG_DISP_SUSPEND" "next_wake c1 = 5000"
    "disp_step on now (disp_of ctx) (disp_of c1)" for c1 g on
    using that by (auto simp: Q_def ticked_def)
  have failed: "Q (c1, g)" if "gov_inv tbl ctx h0 True c1 g" "next_wake c1 = snd (psi_backoff f)" "f \<le> 6"
    "disp_of c1 = dd" "disp_step on now (disp_of ctx) dd" for c1 g f dd on
    using that psi_backoff_range [OF that(3)] by (auto simp: Q_def intro: tickedI)
  have mapped: "runs (apply_mapping os tbl c1 data th d p g) Q" if "gov_inv tbl ctx h0 True c1 g"
    "50 \<le> sint (next_wake c1)" "sint (next_wake c1) \<le> 10000" "disp_of c1 = dd" "disp_step on now (disp_of ctx) dd" for c1 g data th d p dd on
    using that by (intro runs_mono [OF apply_mapping_spec [OF os t that(1)]]) (auto simp: Q_def intro: tickedI)
  have stay: "Q (c1, g)" if "gov_inv tbl ctx h0 True c1 g"
    "50 \<le> sint (next_wake c1)" "sint (next_wake c1) \<le> 10000" "disp_of c1 = dd" "disp_step on now (disp_of ctx) dd" for c1 g dd on
    using that by (auto simp: Q_def intro: tickedI)
  define rest where "rest = (\<lambda>data ((th_scl, l_dem, p_eff), ctx, h).
    case gov_gate os tbl ctx data p_eff h of (go, ctx, h) \<Rightarrow>
      if go then apply_mapping os tbl ctx data th_scl l_dem p_eff h else Some (ctx, h))"
  have gate: "runs (rest data ((th, d, p), c1, g)) Q"
    if "gov_inv tbl ctx h0 True c1 g" "disp_of c1 = dd" "disp_step on now (disp_of ctx) dd" for c1 g data th d p dd on
    using gov_gate_spec [OF t that(1), of os data p] that(2,3) unfolding rest_def
    by (auto intro: stay mapped)
  have demand: "runs (calc_demand os tbl c1 now data g) (\<lambda>x. runs (rest data x) Q)"
    if "gov_inv tbl ctx h0 True c1 g" "disp_of c1 = dd" "disp_step on now (disp_of ctx) dd" for c1 g data dd on
    using that(2,3) by (intro runs_mono [OF calc_demand_spec [OF os that(1)]]) (auto intro: gate)
  have read: "runs (read_psi os c1 now g) (\<lambda>x. runs (case x of (r, ctx, h) \<Rightarrow> (case r of None \<Rightarrow> Some (ctx, h)
       | Some data \<Rightarrow> Option.bind (calc_demand os tbl ctx now data h) (rest data))) Q)"
    if i: "gov_inv tbl ctx h0 True c1 g" and st: "disp_step on now (disp_of ctx) (disp_of c1)" for c1 g on
  proof -
    have f: "psi_fails c1 \<le> 6" using i by (simp add: gov_inv_def ctx_ok_def)
    show ?thesis
      using st by (intro runs_mono [OF read_psi_spec [OF os i]])
        (auto intro: failed [OF _ _ f] demand split: option.splits)
  qed
  have e: "exec_gov_logic os tbl ctx now h = do {
     (asleep, ctx, h) \<leftarrow> update_disp os ctx now h;
     if asleep then Some (ctx, h)
     else do {
       (r, ctx, h) \<leftarrow> read_psi os ctx now h;
       case r of None \<Rightarrow> Some (ctx, h)
       | Some data \<Rightarrow> Option.bind (calc_demand os tbl ctx now data h) (rest data)
     }
   }"
    unfolding exec_gov_logic_def rest_def Let_def by (rule refl)
  show ?thesis
    unfolding e Q_def [symmetric] runs_simps
    by (rule runs_mono [OF update_disp_spec [OF os inv]], auto) (rule read asleep; assumption)+
qed

lemma sint_tick_wake:
  assumes "0 \<le> sint w" "sint w \<le> 30000" "0 \<le> sint s"
  shows "sint (tick_wake w s) = max 1 (sint w - sint s * 1000 div 65536)"
proof -
  let ?m = "sint s * 1000 div 65536"
  have "sint s * 1000 div 65536 \<le> 2147483647 * 1000 div 65536"
    using sint32_range(2) [of s] by (intro zdiv_mono1) simp_all
  then have m: "0 \<le> ?m" "?m \<le> 32767999" using assms(3) by (simp_all add: pos_imp_zdiv_nonneg_iff)
  have "sint ((scast s :: q32) * 1000) = sint s * 1000"
    using assms(3) sint32_range(2) [of s] by (simp add: sint_push no_wrap)
  then have "sint (signed_drop_bit 16 ((scast s :: q32) * 1000)) = ?m" by (simp add: sint_shr)
  then have c: "sint (ucast (signed_drop_bit 16 ((scast s :: q32) * 1000)) :: i32) = ?m"
    using m by (simp add: sint_ucast_64_32 no_wrap)
  have "sint (w - ucast (signed_drop_bit 16 ((scast s :: q32) * 1000))) = sint w - ?m"
    unfolding sint_diff c using assms m by (simp add: no_wrap)
  then show ?thesis by (simp add: tick_wake_def Let_def sint_cmp max_def)
qed

lemma tick_dt:
  assumes os: "os_ok os" and "Clock CLOCK_MONOTONIC now \<in> set h" "timespec_ok now"
  shows "0 \<le> sint (pg_dt_sec now (os_clock os h CLOCK_MONOTONIC))"
  using assms(2,3) os_okD(4) [OF os] by (intro dt_sec_nonneg) (auto simp: clock_ok_def)

lemma ticked_wake [simp]: "ticked tbl c0 h0 now (ctx\<lparr>next_wake := w\<rparr>) h = ticked tbl c0 h0 now ctx h"
  by (simp add: ticked_def disp_of_def)

lemma ticked_clock: "ticked tbl c0 h0 now ctx h \<Longrightarrow> ticked tbl c0 h0 now ctx (Clock c t # h)"
  by (auto simp: ticked_def intro: gov_inv_idle)

lemma disp_of_next: "disp_of (ctx\<lparr>next_wake := w\<rparr>) = disp_of ctx"
  by (simp add: disp_of_def)

lemma dormant_spec:
  assumes os: "os_ok os" and inv: "gov_inv tbl ctx h True ctx h"
  shows "runs (dormant_tick os ctx h) (\<lambda>(ctx', h'). ticked tbl ctx h (os_clock os h CLOCK_MONOTONIC) ctx' h' \<and>
    (sint (next_wake ctx') = 5000 \<or> sint (next_wake ctx') = 10000))"
proof -
  have i: "gov_inv tbl ctx h True ctx (Clock CLOCK_MONOTONIC t # h)" for t using inv by (rule gov_inv_idle) simp_all
  show ?thesis
    unfolding dormant_tick_def sys_clock_def Let_def
    by (auto simp: ticked_def disp_of_next intro!: runs_mono [OF update_disp_spec [OF os i]])
qed

lemma gov_process_spec:
  assumes os: "os_ok os" and t: "tables_ok tbl" and c: "ctx_ok ctx" "owns ctx h"
  shows "runs (pg_gov_process os tbl ctx h) (\<lambda>(ctx', h'). ticked tbl ctx h (os_clock os h CLOCK_MONOTONIC) ctx' h' \<and>
    1 \<le> sint (next_wake ctx') \<and> sint (next_wake ctx') \<le> 30000)"
proof (cases "dormant ctx")
  case True
  then show ?thesis
    unfolding pg_gov_process_def by (auto intro!: runs_mono [OF dormant_spec [OF os gov_inv_start [OF c]]])
next
  case False
  define now where "now = os_clock os h CLOCK_MONOTONIC"
  have tok: "timespec_ok now" using os_okD(4) [OF os] by (simp add: clock_ok_def now_def)
  have i: "gov_inv tbl ctx h True ctx (Clock CLOCK_MONOTONIC now # h)"
    using gov_inv_start [OF c] by (rule gov_inv_idle) simp_all
  have wake: "1 \<le> sint (tick_wake (next_wake c1) (pg_dt_sec now (os_clock os g CLOCK_MONOTONIC))) \<and>
      sint (tick_wake (next_wake c1) (pg_dt_sec now (os_clock os g CLOCK_MONOTONIC))) \<le> 30000"
    if "grows P (Clock CLOCK_MONOTONIC now # h) g" "50 \<le> sint (next_wake c1)" "sint (next_wake c1) \<le> 30000" for c1 g P
  proof -
    let ?s = "pg_dt_sec now (os_clock os g CLOCK_MONOTONIC)"
    have "Clock CLOCK_MONOTONIC now \<in> set g" using that(1) by (auto simp: grows_def)
    then have d: "0 \<le> sint ?s" by (rule tick_dt [OF os _ tok])
    then have "0 \<le> sint ?s * 1000 div 65536" by (simp add: pos_imp_zdiv_nonneg_iff)
    moreover have "0 \<le> sint (next_wake c1)" using that(2) by linarith
    ultimately show ?thesis
      unfolding sint_tick_wake [OF \<open>0 \<le> sint (next_wake c1)\<close> that(3) d] using that(3) by linarith
  qed
  have g: "runs (exec_gov_logic os tbl ctx now (Clock CLOCK_MONOTONIC now # h)) (\<lambda>(ctx', h'). ticked tbl ctx h now ctx' h' \<and>
    50 \<le> sint (next_wake ctx') \<and> sint (next_wake ctx') \<le> 30000 \<and> grows (\<lambda>e. True) (Clock CLOCK_MONOTONIC now # h) h')"
  proof -
    have i': "gov_inv tbl ctx (Clock CLOCK_MONOTONIC now # h) True ctx (Clock CLOCK_MONOTONIC now # h)"
      using c by (intro gov_inv_start) (auto simp: owns_def)
    show ?thesis
      by (rule runs_mono [OF runs_conj [OF exec_spec [OF os t i] exec_spec [OF os t i']]])
        (auto simp: ticked_def gov_inv_def elim: grows_mono)
  qed
  show ?thesis
    using False g unfolding pg_gov_process_def sys_clock_def Let_def now_def [symmetric]
    by (auto simp: wake [of "\<lambda>e. True"] intro!: runs_mono [OF g] ticked_clock)
qed

section \<open>How long the display has been off\<close>

text \<open>The states of the display with the time of the last look, from any state that is neither grace nor suspension.\<close>

inductive disp_reach :: "timespec \<Rightarrow> pg_disp_state \<times> timespec \<Rightarrow> bool" where
  start: "timespec_ok t \<Longrightarrow> s = PG_DISP_UNKNOWN \<or> s = PG_DISP_ON \<Longrightarrow> disp_reach t (s, off)"
| look: "disp_reach t c \<Longrightarrow> t \<le> t' \<Longrightarrow> timespec_ok t' \<Longrightarrow> disp_step on t' c c' \<Longrightarrow> disp_reach t' c'"

lemma dt_sec_over:
  assumes "timespec_ok a" "timespec_ok b" "sint (pg_dt_sec a b) > k * 65536" "0 \<le> k" "k \<le> 30000"
  shows "k * 1000000000 < ns_of b - ns_of a"
proof -
  let ?s = "sint (tv_sec b) - sint (tv_sec a)" and ?n = "sint (tv_nsec b) - sint (tv_nsec a)"
  have n: "- 1000000000 < ?n" "?n < 1000000000" using timespec_okD [OF assms(1)] timespec_okD [OF assms(2)] by linarith+
  have e: "ns_of b - ns_of a = 1000000000 * ?s + ?n" by (simp add: ns_of_def algebra_simps)
  show ?thesis
  proof (cases "\<bar>?s\<bar> \<le> 32000")
    case True
    from dt_sec_accurate [OF assms(1,2) True]
    have "1000000000 * sint (pg_dt_sec a b) < 65536 * (ns_of b - ns_of a) + 1000000000" by linarith
    moreover have "1000000000 * (k * 65536 + 1) \<le> 1000000000 * sint (pg_dt_sec a b)"
      using assms(3) by (intro mult_left_mono) simp_all
    ultimately have "65536 * (k * 1000000000) < 65536 * (ns_of b - ns_of a)" unfolding distrib_left by linarith
    then show ?thesis by (simp only: mult_less_cancel_left_pos zero_less_numeral)
  next
    case False
    have "sint (pg_dt_sec a b) \<le> 0" if "?s < - 32000"
    proof -
      have m: "max (- 32000) (min 32000 ?s) = - 32000" using that by simp
      have "?n * 65536 sdiv 1000000000 \<le> 1000000000 * 65536 sdiv (1000000000 :: int)"
        using n by (intro sdiv_mono) simp_all
      then show ?thesis unfolding sint_dt_sec [OF assms(1,2)] m by (simp add: sdiv_nonneg)
    qed
    then have "32000 < ?s" using False assms(3,4) by (cases "?s < - 32000") auto
    then have "1000000000 * 32001 \<le> 1000000000 * ?s" by (intro mult_left_mono) simp_all
    moreover have "k * 1000000000 \<le> 30000 * 1000000000" using assms(5) by (intro mult_right_mono) simp_all
    ultimately show ?thesis unfolding e using n by linarith
  qed
qed

lemma disp_reach_inv:
  "disp_reach t c \<Longrightarrow> timespec_ok t \<and> (fst c = PG_DISP_GRACE \<longrightarrow> timespec_ok (snd c) \<and> ns_of (snd c) \<le> ns_of t) \<and>
    (fst c = PG_DISP_SUSPEND \<longrightarrow> 10 * 1000000000 < ns_of t - ns_of (snd c))"
proof (induction rule: disp_reach.induct)
  case (look t c t' on c')
  then have ok: "timespec_ok t" "timespec_ok t'" by simp_all
  have le: "ns_of t \<le> ns_of t'" using timespec_le_ns [OF ok] look(2) by simp
  have over: "10 * 1000000000 < ns_of t' - ns_of off" if "timespec_ok off" "INT_TO_Q16 10 <s pg_dt_sec off t'" for off
    using that dt_sec_over [OF that(1) ok(2), of 10] by (simp add: sint_cmp q16_consts)
  show ?case
    using look(4) ok(2) look.IH le over by (cases rule: disp_step.cases) auto
qed auto



section \<open>Properties\<close>

definition sample_tables :: pg_tables where
  "sample_tables = \<lparr>t_lim = LIM_CPU, t_cpu = CFG_CPU, t_thermal = CFG_THERMAL\<rparr>"

definition sample_ctx :: pg_context where
  "sample_ctx = \<lparr>psi = sample_mon, cpu_temp_sensor = \<lparr>ts_fd = 5, ts_scale = 1000\<rparr>, bat_temp_sensor = \<lparr>ts_fd = 6, ts_scale = 10\<rparr>,
     bat_cap_sensor = \<lparr>bs_fd = 7\<rparr>, bl_sensor = \<lparr>bl_fd = [8, -1, -1, -1], bl_n = 1\<rparr>,
     sched_lat = sample_cache 100, sched_gran = sample_cache 100, sched_wake = sample_cache 100, sched_mig = sample_cache 100,
     sched_walt = sample_cache 100, sched_ucl = sample_cache 100,
     thermal_state = \<lparr>th_last_tick = Timespec 100 0, integ = 0, prev_sat = 0, sat_count = 0, th_filter = mon_filter sample_mon\<rparr>,
     load_state = sample_load, poll_state = \<lparr>cur_ivl = 100, last_wait = 100, poll_last_tick = Timespec 100 0, rng_state = 1\<rparr>,
     disp_state = PG_DISP_UNKNOWN, bat_lvl = 0, bat_temp = 0, cached_th_scl = Q16_ONE, last_bat = Timespec 0 0,
     last_therm = Timespec 0 0, last_tick = Timespec 100 0, last_dispoff = Timespec 0 0, last_disp = Timespec 0 0,
     last_sweep = Timespec 0 0, epoll_fd = 9, sig_fd = 10, trg_fd = 4, lock_fd = 11, next_wake = 100, psi_fails = 0, temp_fails = 0,
     remap_due = False, dormant = False, shutdown_req = False, on_trigger = Some Gov_process, on_timeout = Some Gov_process\<rparr>"

definition sample_hist :: hist where
  "sample_hist = [Open PG_PATH_PSI_CPU [O_RDWR] (Inr 4), Open PG_PATH_PSI_CPU [O_RDONLY] (Inr 3)]"

lemma sample_tables_ok: "tables_ok sample_tables"
  by (simp add: tables_ok_def sample_tables_def lim_cpu_ok cfg_defaults_ok)

lemma sample_ctx_ok: "ctx_ok sample_ctx" "owns sample_ctx sample_hist"
  using sample_mon_ok
  by (simp_all add: ctx_ok_def owns_def own_def nodes_def sample_ctx_def sample_hist_def sample_cache_def cache_ok_def
      thermal_ok_def psi_ok_def sample_load_def) (auto simp: sample_mon_def)

lemmas sample_tick = sample_os_ok sample_tables_ok sample_ctx_ok

text \<open>
  C8: A tick of the governor returns, keeps the state of every component valid, and asks to be called
  again after one millisecond at the least and thirty seconds at the most.
\<close>

theorem gov_tick_bounds:
  assumes "os_ok os" "tables_ok tbl" "ctx_ok ctx" "owns ctx h"
  shows "runs (pg_gov_process os tbl ctx h) (\<lambda>(ctx', h'). ctx_ok ctx' \<and> 1 \<le> sint (next_wake ctx') \<and> sint (next_wake ctx') \<le> 30000)"
  by (rule runs_mono [OF gov_process_spec [OF assms]]) (auto simp: ticked_def gov_inv_def)

lemma gov_tick_bounds_witness:
  "runs (pg_gov_process sample_os sample_tables sample_ctx sample_hist) (\<lambda>(ctx', h'). ctx_ok ctx' \<and> 1 \<le> sint (next_wake ctx') \<and> sint (next_wake ctx') \<le> 30000)"
  by (rule gov_tick_bounds [OF sample_tick])

text \<open>
  C10: A tick leaks no descriptor and closes none that is not its own: besides the pressure monitor and
  its trigger, which it may reopen and then owns again, the open descriptors are the same as before, and
  every other descriptor, sensor and callback of the state is untouched.
\<close>

theorem gov_tick_descriptors:
  assumes "os_ok os" "tables_ok tbl" "ctx_ok ctx" "owns ctx h"
  shows "runs (pg_gov_process os tbl ctx h) (\<lambda>(ctx', h'). owns ctx' h' \<and>
    open_fds h' - own ctx' = open_fds h - own ctx \<and> wires ctx' = wires ctx)"
  by (rule runs_mono [OF gov_process_spec [OF assms]]) (auto simp: ticked_def gov_inv_def)

lemma gov_tick_descriptors_witness:
  "runs (pg_gov_process sample_os sample_tables sample_ctx sample_hist) (\<lambda>(ctx', h'). owns ctx' h' \<and> open_fds h' - own ctx' = {})"
  by (rule runs_mono [OF gov_tick_descriptors [OF sample_tick]])
    (auto simp: own_def sample_ctx_def sample_mon_def sample_hist_def)

text \<open>
  C6: Whatever the sensors say, every value a tick writes to a scheduler node lies within the tuned limits:
  the four times are multiples of 65536 ns at most half such a step outside the limits (the granularity
  may follow a smaller latency), the load percentage and the clamp lie between the rounded limits.
  Besides, a tick writes nothing but the trigger text.
\<close>

theorem gov_writes_in_limits:
  assumes "os_ok os" "tables_ok tbl" "ctx_ok ctx" "owns ctx h"
  shows "runs (pg_gov_process os tbl ctx h) (\<lambda>(ctx', h'). \<exists>new. h' = new @ h \<and> (\<forall>e \<in> set new. gov_write tbl ctx e))"
  by (rule runs_mono [OF gov_process_spec [OF assms]]) (auto simp: ticked_def gov_inv_def grows_def)

lemma gov_writes_in_limits_witness:
  "runs (pg_gov_process sample_os sample_tables sample_ctx sample_hist)
     (\<lambda>(ctx', h'). \<exists>new. h' = new @ sample_hist \<and> (\<forall>e \<in> set new. gov_write sample_tables sample_ctx e))"
  by (rule gov_writes_in_limits [OF sample_tick])





text \<open>
  C38: A failed read of the pressure is counted up to six and followed by a wait of one second that doubles
  with every further failure, up to thirty seconds; a successful read clears the count.
\<close>

theorem psi_failure_backoff:
  assumes "os_ok os" "ctx_ok ctx" "owns ctx h"
  shows "runs (read_psi os ctx now h) (\<lambda>(r, ctx', h'). case r of
      Some data \<Rightarrow> psi_fails ctx' = 0
    | None \<Rightarrow> unat (psi_fails ctx') = min 6 (unat (psi_fails ctx) + 1) \<and>
        sint (next_wake ctx') = min 30000 (1000 * 2 ^ (unat (psi_fails ctx') - 1)))"
proof -
  have f: "psi_fails ctx \<le> 6" using assms(2) by (simp add: ctx_ok_def)
  show ?thesis
    by (rule runs_mono [OF read_psi_spec [OF assms(1) gov_inv_start [OF assms(2,3)]]])
      (auto simp: psi_backoff_values [OF f] split: option.splits)
qed

lemma psi_failure_backoff_witness:
  "runs (read_psi sample_os sample_ctx (Timespec 101 0) sample_hist) (\<lambda>(r, ctx', h').
     r = None \<longrightarrow> unat (psi_fails ctx') = 1)"
  by (rule runs_mono [OF psi_failure_backoff [OF sample_os_ok sample_ctx_ok]]) (auto simp: sample_ctx_def)

end
