(* ===== verification/Pg_Loop.thy ===== *)
theory Pg_Loop
  imports Pg_Tick
begin

text \<open>
  The governor under the reactor: the tick is what the reactor calls back, and keeps the contract.
\<close>

text \<open>The state of the governor while the reactor runs, against the state \<open>c0\<close> and history \<open>h0\<close> it began with.\<close>

definition gov_state :: "pg_tables \<Rightarrow> pg_context \<Rightarrow> hist \<Rightarrow> pg_context \<Rightarrow> hist \<Rightarrow> bool" where
  "gov_state tbl c0 h0 ctx h \<longleftrightarrow> tables_ok tbl \<and> ctx_ok ctx \<and> owns ctx h \<and> open_fds h - own ctx = open_fds h0 - own c0 \<and>
     sig_fd c0 \<in> open_fds h0 - own c0 \<and>
     fittings ctx = fittings c0 \<and> (tracks c0 h0 \<longrightarrow> tracks ctx h) \<and> grows (\<lambda>e. \<not> sets_prop e) h0 h"

definition gov_callback :: "os \<Rightarrow> pg_tables \<Rightarrow> callback" where
  "gov_callback os tbl f = (case f of Gov_process \<Rightarrow> pg_gov_process os tbl)"

lemma gov_write_props: "gov_write tbl ctx e \<Longrightarrow> \<not> sets_prop e"
  by (cases e) auto

lemma tick_state:
  assumes "os_ok os" "gov_state tbl c0 h0 ctx h"
  shows "runs (gov_callback os tbl f ctx h) (\<lambda>(ctx', h'). gov_state tbl c0 h0 ctx' h' \<and> keeps_open {sig_fd ctx} h h' \<and>
      epoll_fd ctx' = epoll_fd ctx \<and> sig_fd ctx' = sig_fd ctx \<and> shutdown_req ctx' = shutdown_req ctx \<and>
      on_trigger ctx' = on_trigger ctx \<and> on_timeout ctx' = on_timeout ctx)"
proof -
  have "runs (pg_gov_process os tbl ctx h) (\<lambda>(ctx', h'). \<exists>q. gov_inv tbl ctx h q ctx' h')"
    using assms by (intro runs_mono [OF gov_process_spec]) (auto simp: gov_state_def ticked_def)
  moreover have "gov_state tbl c0 h0 ctx' h' \<and> keeps_open {sig_fd ctx} h h' \<and> epoll_fd ctx' = epoll_fd ctx \<and> sig_fd ctx' = sig_fd ctx \<and>
      shutdown_req ctx' = shutdown_req ctx \<and> on_trigger ctx' = on_trigger ctx \<and> on_timeout ctx' = on_timeout ctx"
    if i: "gov_inv tbl ctx h q ctx' h'" for q ctx' h'
  proof -
    have g: "grows (gov_write tbl ctx) h h'" using i by (simp add: gov_inv_def)
    from grows_mono [OF g gov_write_props] have "grows (\<lambda>e. \<not> sets_prop e) h h'" .
    then have "grows (\<lambda>e. \<not> sets_prop e) h0 h'" using assms(2) by (auto simp: gov_state_def intro: grows_trans)
    moreover have "keeps_open {sig_fd ctx} h h'"
      using i assms(2) by (auto simp: gov_inv_def gov_state_def fittings_def elim: keeps_open_mono)
    ultimately show ?thesis using assms(2) i by (auto simp: gov_state_def gov_inv_def wires_def fittings_def)
  qed
  ultimately show ?thesis
    unfolding gov_callback_def by (auto split: pg_event_cb.split elim!: runs_mono)
qed

interpretation gov: reactor os "gov_callback os tbl" "gov_state tbl c0 h0" for os tbl c0 h0
proof
  show "gov_state tbl c0 h0 ctx (e # h)" if "gov_state tbl c0 h0 ctx h" "idle e" "quiet e" for ctx h e
  proof -
    have "tracks ctx (e # h) = tracks ctx h"
      using that(3) by (intro tracks_done last_done_Cons) auto
    moreover have "\<not> sets_prop e" using that(3) by (simp add: quiet_def)
    ultimately show ?thesis
      using that idle_fds [OF that(2), of h] by (auto simp: gov_state_def owns_def)
  qed
  show "gov_state tbl c0 h0 (ctx\<lparr>next_wake := w\<rparr>) h" "gov_state tbl c0 h0 (ctx\<lparr>shutdown_req := b\<rparr>) h"
    if "gov_state tbl c0 h0 ctx h" for ctx h w b
    using that by (auto simp: gov_state_def ctx_defs)
qed (rule tick_state)

definition gov_left :: "pg_tables \<Rightarrow> pg_context \<Rightarrow> hist \<Rightarrow> int \<Rightarrow> pg_context \<Rightarrow> hist \<Rightarrow> bool" where
  "gov_left tbl ctx h ret ctx' h' \<longleftrightarrow> ret \<le> 0 \<and> epoll_fd ctx' = - 1 \<and> (ret = 0 \<longrightarrow> shutdown_req ctx') \<and> gov_state tbl ctx h ctx' h'"

lemma gov_run_spec:
  assumes os: "os_ok os" and t: "tables_ok tbl" and c: "ctx_ok ctx" "owns ctx h" and sgo: "sig_fd ctx \<in> open_fds h - own ctx"
    and s: "\<And>ep. signals os ep (sig_fd ctx) N h"
  shows "runs (pg_epoll_run os (gov_callback os tbl) ctx h) (\<lambda>(ret, ctx', h'). gov_left tbl ctx h ret ctx' h')"
proof -
  obtain ret c1 g where r: "epoll_setup os ctx h = (ret, c1, g)" by (cases "epoll_setup os ctx h")
  note st = setup_spec [OF os, where ctx = ctx and h = h, unfolded r prod.case]
  define Q where "Q = (\<lambda>(ret, ctx', h'). gov_left tbl ctx h ret ctx' h')"
  have q: "grows quiet h g" using st by simp
  then have tr: "tracks ctx g = tracks ctx h" using tracks_done [OF last_done_quiet] by blast
  have p: "grows (\<lambda>e. \<not> sets_prop e) h g" by (rule grows_mono [OF q]) (simp add: quiet_def)
  show ?thesis
  proof (cases "ret < 0")
    case True
    then have "c1 = ctx\<lparr>epoll_fd := - 1\<rparr>" "open_fds g = open_fds h" using st balanced_fds by auto
    then show ?thesis
      using True c t sgo tr p by (auto simp: pg_epoll_run_def r gov_left_def gov_state_def ctx_defs)
  next
    case False
    then obtain ep where ep: "ret = 0" "c1 = ctx\<lparr>epoll_fd := ep\<rparr>" "ep \<notin> open_fds h" "open_fds g = insert ep (open_fds h)"
      and new: "keeps_open (open_fds h) h g"
      using st by auto
    have "keeps_open {sig_fd ctx} h g" using new sgo by (auto elim: keeps_open_mono)
    then have sg: "signals os (epoll_fd c1) (sig_fd ctx) N g" using s signals_ext by blast
    have ow: "own ctx \<subseteq> open_fds h" using c(2) by (simp add: owns_def)
    have i: "gov_state tbl c1 g c1 g" "sig_fd c1 = sig_fd ctx"
      using c t sgo ep(2,4) ow by (auto simp: gov_state_def ctx_defs)
    have own: "own c1 = own ctx" "fittings c1 = fittings ctx" "tracks c1 g = tracks ctx h"
      using ep(2) tr by (auto simp: own_def fittings_def nodes_def)
    have fin: "Q (0, c2\<lparr>epoll_fd := - 1\<rparr>, Close (epoll_fd c2) # g2)"
      if i: "gov_state tbl c1 g c2 g2" and w: "wired c1 c2" and sh: "shutdown_req c2" for c2 g2
    proof -
      have e: "epoll_fd c2 = ep" using wiredD(1) [OF w] ep(2) by simp
      have o: "open_fds g2 - own c2 = insert ep (open_fds h - own ctx)" "own c2 \<subseteq> open_fds g2"
        using i ep(3,4) ow own by (auto simp: gov_state_def owns_def)
      then have n: "ep \<notin> own c2" by blast
      have "open_fds (Close ep # g2) - own (c2\<lparr>epoll_fd := - 1\<rparr>) = open_fds h - own ctx"
        using o ep(3) by (auto simp: own_def)
      moreover have "owns (c2\<lparr>epoll_fd := - 1\<rparr>) (Close ep # g2)"
        using i n o by (auto simp: gov_state_def owns_def own_def)
      moreover have "tracks c2 (Close ep # g2) = tracks c2 g2" by (intro tracks_done) simp
      moreover have "grows (\<lambda>e. \<not> sets_prop e) h (Close ep # g2)"
        using i p by (auto simp: gov_state_def intro: grows_trans)
      ultimately show ?thesis
        using i sh own sgo unfolding e Q_def prod.case gov_left_def by (auto simp: gov_state_def ctx_ok_def fittings_def nodes_def)
    qed
    show ?thesis
      unfolding Q_def [symmetric] using False i(2) sg fin
      by (intro runs_mono [OF gov.run_stops [OF os r i(1)]]) auto
  qed
qed

section \<open>Properties\<close>

text \<open>A machine on which the signal descriptor 10 is always ready.\<close>

definition signal_os :: os where
  "signal_os = sample_os\<lparr>os_epoll_wait := \<lambda>h ep n t. Inr [10], os_read := \<lambda>h fd n. Inr (replicate n CHR ''x'')\<rparr>"

lemma signal_os_ok: "os_ok signal_os"
proof -
  have "settles (sys_read signal_os fd n)" for fd n
    by (rule settles_ok) (simp add: sys_read_def signal_os_def Let_def)
  moreover have "clock_ok signal_os = clock_ok sample_os" "fds_valid signal_os = fds_valid sample_os"
    "dirs_finite signal_os = dirs_finite sample_os"
    by (simp_all add: clock_ok_def fds_valid_def dirs_finite_def signal_os_def)
  moreover have "sys_pread signal_os = sys_pread sample_os" "sys_write signal_os = sys_write sample_os"
    "sys_pwrite signal_os = sys_pwrite sample_os" "sys_getdents signal_os = sys_getdents sample_os"
    by (simp_all add: fun_eq_iff sys_pread_def sys_write_def sys_pwrite_def sys_getdents_def signal_os_def)
  ultimately show ?thesis
    using sample_os_ok by (simp add: os_ok_def eintr_fair_def reads_bounded_def errno_ok_def signal_os_def)
qed



end
