(* ===== verification/Pg_Conf.thy ===== *)
theory Pg_Conf
  imports Pg_Scan
begin

text \<open>
  The configuration file, \<^verbatim>\<open>src/sys/conf.c\<close>.  The callback that is given each key and value is a
  parameter of the model; it may keep a state of its own and do input and output.  A line is a
  character list without its NUL.  The lemmas show that the parser, which reads the file in pieces,
  calls back exactly the entries of the reference function \<open>conf_entries\<close>, which splits the content
  of the file into lines; the locale \<open>conf_client\<close> is the contract with the callback.
\<close>

section \<open>One line\<close>

abbreviation (input) CONF_BUF_SZ :: nat where "CONF_BUF_SZ \<equiv> 4096"
abbreviation (input) CONF_LINE_SZ :: nat where "CONF_LINE_SZ \<equiv> 256"

type_synonym 's conf_cb = "string \<Rightarrow> string \<Rightarrow> 's \<times> hist \<Rightarrow> (int \<times> 's \<times> hist) option"

definition is_blank :: "char \<Rightarrow> bool" where "is_blank c \<longleftrightarrow> c = CHR '' '' \<or> c = CHR 0x09"

text \<open>The loop of \<open>trim_trailing\<close>: the string, and how many characters precede the one looked at.\<close>

fun trim_from :: "string \<Rightarrow> nat \<Rightarrow> string" where
  "trim_from str 0 = str"
| "trim_from str (Suc n) = (if is_blank (str ! n) then trim_from (take n str) n else str)"

definition trim_trailing :: "string \<Rightarrow> string" where
  "trim_trailing str = trim_from str (length str)"

fun skip_blanks :: "string \<Rightarrow> string" where
  "skip_blanks [] = []"
| "skip_blanks (c # cs) = (if is_blank c then skip_blanks cs else c # cs)"

text \<open>\<^verbatim>\<open>strchr\<close>, as an index, and the line cut off at what it finds.\<close>

fun strchr :: "string \<Rightarrow> char \<Rightarrow> nat option" where
  "strchr [] c = None"
| "strchr (x # xs) c = (if x = c then Some 0 else map_option Suc (strchr xs c))"

definition cut_at :: "char \<Rightarrow> string \<Rightarrow> string" where
  "cut_at c s = (case strchr s c of None \<Rightarrow> s | Some i \<Rightarrow> take i s)"

definition parse_line :: "string \<Rightarrow> 's conf_cb \<Rightarrow> 's \<times> hist \<Rightarrow> (int \<times> 's \<times> hist) option" where
  "parse_line line cb s =
     (let key = cut_at (CHR 0x0D) (cut_at (CHR ''#'') (c_string line))
      in case strchr key (CHR ''='') of
           None \<Rightarrow> Some (0, s)
         | Some i \<Rightarrow>
             let val = drop (Suc i) key;
                 key = trim_trailing (skip_blanks (take i key));
                 val = trim_trailing (skip_blanks val)
             in if key = [] then Some (0, s) else cb key val s)"

definition dispatch_line :: "string \<Rightarrow> 's conf_cb \<Rightarrow> 's \<times> hist \<Rightarrow> (int \<times> 's \<times> hist) option" where
  "dispatch_line line cb s = (if line = [] then Some (0, s) else parse_line line cb s)"

section \<open>The file\<close>

text \<open>The characters of one buffer; a negative result ends the parse.\<close>

fun conf_chars :: "'s conf_cb \<Rightarrow> string \<Rightarrow> string \<Rightarrow> bool \<Rightarrow> int \<Rightarrow> 's \<times> hist \<Rightarrow> (int \<times> string \<times> bool \<times> 's \<times> hist) option" where
  "conf_chars cb [] line skip ret s = Some (ret, line, skip, s)"
| "conf_chars cb (c # buf) line skip ret s =
     (if c = newline
      then if skip then conf_chars cb buf [] False ret s
        else do {
          (ret, s) \<leftarrow> dispatch_line line cb s;
          if ret < 0 then Some (ret, [], False, s) else conf_chars cb buf [] False ret s
        }
      else if skip then conf_chars cb buf line True ret s
      else if CONF_LINE_SZ - 1 \<le> length line then conf_chars cb buf line True ret s
      else conf_chars cb buf (line @ [c]) False ret s)"

definition refill_buffer :: "os \<Rightarrow> int \<Rightarrow> nat \<Rightarrow> hist \<Rightarrow> ((int + string) \<times> hist) option" where
  "refill_buffer os fd sz h = retry_eintr (sys_read os fd sz) h"

partial_function (option) conf_loop ::
    "os \<Rightarrow> 's conf_cb \<Rightarrow> int \<Rightarrow> string \<Rightarrow> bool \<Rightarrow> int \<Rightarrow> 's \<times> hist \<Rightarrow> (int \<times> 's \<times> hist) option" where
  "conf_loop os cb fd line skip ret s = do {
     (r, h) \<leftarrow> refill_buffer os fd CONF_BUF_SZ (snd s);
     case r of
       Inl err \<Rightarrow> Some (- err, fst s, h)
     | Inr buf \<Rightarrow>
         if buf = [] then (if \<not> skip then dispatch_line line cb (fst s, h) else Some (ret, fst s, h))
         else do {
           (ret, line, skip, s) \<leftarrow> conf_chars cb buf line skip ret (fst s, h);
           if ret < 0 then Some (ret, s) else conf_loop os cb fd line skip ret s
         }
   }"

definition pg_conf_parse :: "os \<Rightarrow> string \<Rightarrow> 's conf_cb \<Rightarrow> 's \<times> hist \<Rightarrow> (int \<times> 's \<times> hist) option" where
  "pg_conf_parse os path cb s =
     (case sys_open os path [O_RDONLY, O_CLOEXEC] (snd s) of
        (Inl err, h) \<Rightarrow> Some (- err, fst s, h)
      | (Inr fd, h) \<Rightarrow> do {
          (ret, s, h) \<leftarrow> conf_loop os cb fd [] False 0 (fst s, h);
          Some (ret, s, sys_close fd h)
        })"

section \<open>What a line means\<close>

lemma trim_trailing_eq: "trim_trailing str = rev (dropWhile is_blank (rev str))"
  unfolding trim_trailing_def by (induction str rule: rev_induct) (simp_all add: nth_append)

lemma skip_blanks_eq: "skip_blanks str = dropWhile is_blank str"
  by (induction str) auto

lemma strchr_eq: "strchr s c = (if c \<in> set s then Some (length (takeWhile (\<lambda>x. x \<noteq> c) s)) else None)"
  by (induction s) auto

lemma take_takeWhile: "take (length (takeWhile P xs)) xs = takeWhile P xs"
  by (rule takeWhile_eq_take [symmetric])

lemma cut_at_eq: "cut_at c s = takeWhile (\<lambda>x. x \<noteq> c) s"
proof (cases "c \<in> set s")
  case False
  then have "takeWhile (\<lambda>x. x \<noteq> c) s = s" by (auto simp: takeWhile_eq_all_conv)
  moreover have "cut_at c s = s" using False by (simp add: cut_at_def strchr_eq)
  ultimately show ?thesis by (simp only:)
qed (simp add: cut_at_def strchr_eq take_takeWhile)

text \<open>
  The reference: comments, carriage returns and what follows them are cut off, the first equals sign
  separates key and value, and both lose the blanks around them.
\<close>

definition strip :: "string \<Rightarrow> string" where
  "strip s = rev (dropWhile is_blank (rev (dropWhile is_blank s)))"

definition conf_entry :: "string \<Rightarrow> (string \<times> string) option" where
  "conf_entry line =
     (let l = takeWhile (\<lambda>c. c \<notin> {CHR 0x00, CHR ''#'', CHR 0x0D}) line;
          key = strip (takeWhile (\<lambda>c. c \<noteq> CHR ''='') l)
      in if CHR ''='' \<in> set l \<and> key \<noteq> [] then Some (key, strip (tl (dropWhile (\<lambda>c. c \<noteq> CHR ''='') l))) else None)"

lemma takeWhile_takeWhile: "takeWhile P (takeWhile Q xs) = takeWhile (\<lambda>x. Q x \<and> P x) xs"
  by (induction xs) auto

lemma parse_line_eq:
  "parse_line line cb s = (case conf_entry line of None \<Rightarrow> Some (0, s) | Some (k, v) \<Rightarrow> cb k v s)"
proof -
  define l where "l = takeWhile (\<lambda>c. c \<notin> {CHR 0x00, CHR ''#'', CHR 0x0D}) line"
  have l: "cut_at (CHR 0x0D) (cut_at (CHR ''#'') (c_string line)) = l"
    by (simp add: l_def cut_at_eq c_string_def takeWhile_takeWhile conj_ac)
  have d: "drop (Suc (length (takeWhile (\<lambda>c. c \<noteq> CHR ''='') l))) l = tl (dropWhile (\<lambda>c. c \<noteq> CHR ''='') l)"
    by (simp add: drop_Suc dropWhile_eq_drop tl_drop)
  show ?thesis
    unfolding parse_line_def l conf_entry_def l_def [symmetric] Let_def strchr_eq
    by (simp add: trim_trailing_eq skip_blanks_eq strip_def d take_takeWhile)
qed

lemma conf_entry_Nil [simp]: "conf_entry [] = None"
  by (simp add: conf_entry_def)

lemma dispatch_line_eq:
  "dispatch_line line cb s = (case conf_entry line of None \<Rightarrow> Some (0, s) | Some (k, v) \<Rightarrow> cb k v s)"
  by (simp add: dispatch_line_def parse_line_eq)

section \<open>The content of a file\<close>

text \<open>
  The path a descriptor was opened with and the bytes read from it since; and the file itself, which
  is what the reads deliver piece by piece, up to the end.
\<close>

fun file_of :: "int \<Rightarrow> hist \<Rightarrow> (string \<times> string) option" where
  "file_of fd [] = None"
| "file_of fd (Open p f (Inr fd') # h) = (if fd' = fd then Some (p, []) else file_of fd h)"
| "file_of fd (Openat d p (Inr fd') # h) = (if fd' = fd then None else file_of fd h)"
| "file_of fd (Epoll_create (Inr fd') # h) = (if fd' = fd then None else file_of fd h)"
| "file_of fd (Ctl Signalfd (Inr fd') # h) = (if fd' = fd then None else file_of fd h)"
| "file_of fd (Close fd' # h) = (if fd' = fd then None else file_of fd h)"
| "file_of fd (Read fd' n (Inr s) # h) =
     (if fd' = fd then map_option (\<lambda>(p, b). (p, b @ s)) (file_of fd h) else file_of fd h)"
| "file_of fd (ev # h) = file_of fd h"

definition file_is :: "os \<Rightarrow> string \<Rightarrow> string \<Rightarrow> bool" where
  "file_is os path content \<longleftrightarrow> (\<forall>h fd n b s. file_of fd h = Some (path, b) \<longrightarrow> prefix b content \<longrightarrow> 0 < n \<longrightarrow> os_read os h fd n = Inr s \<longrightarrow>
     prefix (b @ s) content \<and> (s = [] \<longrightarrow> b = content))"

fun lines_of :: "string \<Rightarrow> string list" where
  "lines_of [] = [[]]"
| "lines_of (c # cs) = (if c = newline then [] # lines_of cs else (case lines_of cs of [] \<Rightarrow> [[c]] | l # ls \<Rightarrow> (c # l) # ls))"

text \<open>Lines that do not fit the buffer are dropped.\<close>

definition entries_of :: "string list \<Rightarrow> (string \<times> string) list" where
  "entries_of ls = List.map_filter conf_entry (filter (\<lambda>l. length l < CONF_LINE_SZ) ls)"

definition conf_entries :: "string \<Rightarrow> (string \<times> string) list" where
  "conf_entries content = entries_of (lines_of content)"

lemma lines_of_ne [simp]: "lines_of cs \<noteq> []"
  by (cases cs) (auto split: list.split)

lemma lines_of_Cons: "lines_of (c # cs) = (if c = newline then [] # lines_of cs else (c # hd (lines_of cs)) # tl (lines_of cs))"
  by (auto split: list.split)

declare lines_of.simps(2) [simp del] lines_of_Cons [simp]

lemma lines_of_line: "newline \<notin> set l \<Longrightarrow> lines_of (l @ cs) = (l @ hd (lines_of cs)) # tl (lines_of cs)"
  by (induction l) auto

lemma lines_of_plain: "newline \<notin> set l \<Longrightarrow> lines_of l = [l]"
  using lines_of_line [of l "[]"] by simp

lemma lines_of_newline: "newline \<notin> set l \<Longrightarrow> lines_of (l @ newline # cs) = l # lines_of cs"
  by (simp add: lines_of_line)

lemma last_line: "newline \<notin> set (last (lines_of b))"
proof (induction b rule: lines_of.induct)
  case (2 c cs)
  obtain l ls where "lines_of cs = l # ls" by (cases "lines_of cs") auto
  then show ?case using 2 by (cases ls) auto
qed simp

lemma lines_of_append: "lines_of (b @ s) = butlast (lines_of b) @ lines_of (last (lines_of b) @ s)"
proof (induction b rule: lines_of.induct)
  case (2 c cs)
  obtain l ls where l: "lines_of cs = l # ls" by (cases "lines_of cs") auto
  show ?case
  proof (cases ls)
    case Nil
    then show ?thesis using 2 l by auto
  next
    case (Cons m ms)
    then show ?thesis using 2 l by auto
  qed
qed simp

lemma entries_of_append: "entries_of (ls @ ms) = entries_of ls @ entries_of ms"
  by (simp add: entries_of_def map_filter_def)

lemma entries_of_Cons: "entries_of (l # ls) =
    (if length l < 256 then (case conf_entry l of None \<Rightarrow> [] | Some e \<Rightarrow> [e]) else []) @ entries_of ls"
  by (auto simp: entries_of_def map_filter_def split: option.splits)

lemma entries_of_Nil [simp]: "entries_of [] = []"
  by (simp add: entries_of_def map_filter_def)

section \<open>The parser and its client\<close>

text \<open>
  What the parser relies on: the callback keeps the descriptors, the files that are being read and
  what was written through the open descriptors, and \<open>inv es s h\<close> relates the entries it was given so far to its state and to what it did.
\<close>

definition keeps_files :: "hist \<Rightarrow> hist \<Rightarrow> bool" where
  "keeps_files h h' \<longleftrightarrow> keeps_open (open_fds h) h h' \<and> open_fds h' = open_fds h \<and>
     (\<forall>fd \<in> open_fds h. file_of fd h' = file_of fd h \<and> last_done fd h' = last_done fd h)"

lemma keeps_files_refl [simp]: "keeps_files h h"
  by (simp add: keeps_files_def)

lemma keeps_files_new: "keeps_files h h' \<Longrightarrow> \<exists>new. h' = new @ h"
  by (auto simp: keeps_files_def dest: keeps_open_new)

lemma keeps_files_trans: "keeps_files h h' \<Longrightarrow> keeps_files h' h'' \<Longrightarrow> keeps_files h h''"
  by (auto simp: keeps_files_def intro: keeps_open_trans)

definition keeps_others :: "int \<Rightarrow> hist \<Rightarrow> hist \<Rightarrow> bool" where
  "keeps_others fd h h' \<longleftrightarrow> keeps_open (open_fds h) h h' \<and> open_fds h' = open_fds h \<and>
     (\<forall>d \<in> open_fds h - {fd}. file_of d h' = file_of d h \<and> last_done d h' = last_done d h)"

lemma keeps_others_trans: "keeps_others fd h h' \<Longrightarrow> keeps_others fd h' h'' \<Longrightarrow> keeps_others fd h h''"
  by (auto simp: keeps_others_def intro: keeps_open_trans)

lemma keeps_files_others: "keeps_files h h' \<Longrightarrow> keeps_others fd h h'"
  by (simp add: keeps_files_def keeps_others_def)

lemma keeps_others_refl [simp]: "keeps_others fd h h"
  by (simp add: keeps_others_def)

lemma keeps_others_Cons:
  assumes "keeps_others fd h h'" "idle e" "\<And>d n r. e = Read d n r \<Longrightarrow> d = fd" "\<And>d b r. e = Pwrite d b r \<Longrightarrow> d = fd"
  shows "keeps_others fd h (e # h')"
proof -
  have "file_of d (e # h') = file_of d h'" if "d \<noteq> fd" for d
    using assms(2,3) that by (cases "(d, e # h')" rule: file_of.cases) auto
  moreover have "last_done d (e # h') = last_done d h'" if "d \<noteq> fd" for d
    using assms(4) that by (cases "(d, e # h')" rule: last_done.cases) auto
  ultimately show ?thesis
    using assms(1) idle_fds [OF assms(2), of h'] idle_rebinds [OF assms(2)] by (auto simp: keeps_others_def intro: keeps_open_Cons)
qed

lemma keeps_others_append:
  "(\<And>e. e \<in> set new \<Longrightarrow> idle e \<and> (\<forall>d n r. e = Read d n r \<longrightarrow> d = fd) \<and> (\<forall>d b r. e = Pwrite d b r \<longrightarrow> d = fd)) \<Longrightarrow>
    keeps_others fd h (new @ h)"
proof (induction new)
  case (Cons e new)
  have "keeps_others fd h (new @ h)" by (rule Cons.IH, rule Cons.prems) simp
  then show ?case using Cons.prems [of e] unfolding append_Cons by (intro keeps_others_Cons) simp_all
qed simp

text \<open>A file that is opened, used through its own descriptor and closed.\<close>

lemma keeps_files_bracket:
  assumes "fd \<notin> open_fds h" "keeps_others fd (Open p f (Inr fd) # h) h'"
  shows "keeps_files h (Close fd # h')"
proof -
  have "keeps_open (open_fds h) (Open p f (Inr fd) # h) h'"
    using assms(2) by (auto simp: keeps_others_def elim: keeps_open_mono)
  from keeps_open_bracket [OF assms(1) _ this] have "keeps_open (open_fds h) h (Close fd # h')" by auto
  then show ?thesis using assms by (auto simp: keeps_files_def keeps_others_def)
qed

lemma prefix_entries:
  assumes "prefix b content"
  shows "prefix (entries_of (butlast (lines_of b))) (conf_entries content)"
proof -
  obtain r where "content = b @ r" using assms by (auto simp: prefix_def)
  then show ?thesis using lines_of_append [of b r] by (simp add: conf_entries_def entries_of_append)
qed

lemma entries_last: "entries_of (lines_of b) = entries_of (butlast (lines_of b)) @
    (if 255 < length (last (lines_of b)) then [] else case conf_entry (last (lines_of b)) of None \<Rightarrow> [] | Some e \<Rightarrow> [e])"
  using entries_of_append [of "butlast (lines_of b)" "[last (lines_of b)]"] by (simp add: entries_of_Cons)

lemma after_lines:
  "butlast (lines_of (b @ buf)) = butlast (lines_of b) @ butlast (lines_of (last (lines_of b) @ buf))"
  "last (lines_of (b @ buf)) = last (lines_of (last (lines_of b) @ buf))"
  by (simp_all only: lines_of_append [of b buf] butlast_append last_append lines_of_ne if_False)

text \<open>An error of the file itself.\<close>

definition file_fails :: "os \<Rightarrow> string \<Rightarrow> int \<Rightarrow> bool" where
  "file_fails os path err \<longleftrightarrow> (\<exists>h fl. os_open os h path fl = Inl err) \<or> (\<exists>h fd n. os_read os h fd n = Inl err)"

locale conf_client =
  fixes os :: os and cb :: "'s conf_cb" and inv :: "(string \<times> string) list \<Rightarrow> 's \<Rightarrow> hist \<Rightarrow> bool" and refuses :: "int \<Rightarrow> bool"
  assumes call: "inv es s h \<Longrightarrow> runs (cb k v (s, h)) (\<lambda>(ret, s', h'). inv (es @ [(k, v)]) s' h' \<and> keeps_files h h' \<and>
      (ret < 0 \<longrightarrow> refuses (- ret)))"
    and event: "inv es s h \<Longrightarrow> \<not> changes e \<Longrightarrow> inv es s (e # h)"
begin

lemma dispatch_spec:
  assumes "inv es s h"
  shows "runs (dispatch_line line cb (s, h)) (\<lambda>(ret, s', h'). keeps_files h h' \<and>
    (ret < 0 \<longrightarrow> refuses (- ret)) \<and> inv (es @ (case conf_entry line of None \<Rightarrow> [] | Some e \<Rightarrow> [e])) s' h')"
  using assms by (auto simp: dispatch_line_eq split: option.split intro!: runs_mono [OF call])

text \<open>What holds after a part of the file: the entries of the complete lines, or an error before.\<close>

definition after_part where
  "after_part es cur buf h = (\<lambda>(ret :: int, line, skip, s', h'). keeps_files h h' \<and> (ret < 0 \<longrightarrow> refuses (- ret)) \<and>
     (ret < 0 \<longrightarrow> (\<exists>es'. prefix es' (entries_of (butlast (lines_of (cur @ buf)))) \<and> inv (es @ es') s' h')) \<and>
     (0 \<le> ret \<longrightarrow> inv (es @ entries_of (butlast (lines_of (cur @ buf)))) s' h' \<and>
       line = take 255 (last (lines_of (cur @ buf))) \<and> skip = (255 < length (last (lines_of (cur @ buf))))))"

lemma chars_spec:
  assumes "inv es s h" "newline \<notin> set cur" "0 \<le> ret"
  shows "runs (conf_chars cb buf (take 255 cur) (255 < length cur) ret (s, h)) (after_part es cur buf h)"
  using assms
proof (induction buf arbitrary: cur es s h ret)
  case Nil
  then show ?case by (simp add: after_part_def lines_of_plain)
next
  case (Cons c buf)
  show ?case
  proof (cases "c = newline")
    case True
    have ls: "lines_of (cur @ c # buf) = cur # lines_of buf"
      using Cons.prems(2) True by (simp add: lines_of_newline)
    define new where "new = (if length cur < 256 then (case conf_entry cur of None \<Rightarrow> [] | Some e \<Rightarrow> [e]) else [])"
    have es: "entries_of (butlast (lines_of (cur @ c # buf))) = new @ entries_of (butlast (lines_of buf))"
      by (simp add: ls entries_of_Cons new_def)
    have step: "runs (conf_chars cb buf [] False ret' (s', h')) (after_part es cur (c # buf) h)"
      if "inv (es @ new) s' h'" "keeps_files h h'" "0 \<le> ret'" for s' h' ret'
    proof (rule runs_mono [OF Cons.IH [OF that(1) _ that(3), of "[]", simplified]], clarify)
      fix r line skip s'' h''
      assume a: "after_part (es @ new) [] buf h' (r, line, skip, s'', h'')"
      then have "\<exists>es'. prefix es' (new @ entries_of (butlast (lines_of buf))) \<and> inv (es @ es') s'' h''" if "r < 0"
        using that unfolding after_part_def by (force intro: exI [of _ "new @ es'" for es'])
      then show "after_part es cur (c # buf) h (r, line, skip, s'', h'')"
        using a keeps_files_trans [OF \<open>keeps_files h h'\<close>, of h''] unfolding after_part_def es by (auto simp: ls)
    qed
    have stop: "after_part es cur (c # buf) h (ret', [], False, s', h')"
      if "inv (es @ new) s' h'" "keeps_files h h'" "ret' < 0" "refuses (- ret')" for s' h' ret'
      using that unfolding after_part_def es by (auto simp: not_le [symmetric] intro: exI [of _ new])
    show ?thesis
    proof (cases "255 < length cur")
      case False
      then have "new = (case conf_entry cur of None \<Rightarrow> [] | Some e \<Rightarrow> [e])" by (simp add: new_def)
      then show ?thesis
        using False True dispatch_spec [OF Cons.prems(1), of cur] step stop
        by (auto elim!: runs_mono)
    next
      case True2: True
      then have "new = []" by (simp add: new_def)
      then show ?thesis using True True2 step [of s h ret] Cons.prems by simp
    qed
  next
    case False
    have ls: "lines_of ((cur @ [c]) @ buf) = lines_of (cur @ c # buf)" by simp
    have "runs (conf_chars cb buf (take 255 (cur @ [c])) (255 < length (cur @ [c])) ret (s, h)) (after_part es (cur @ [c]) buf h)"
      using Cons.prems False by (intro Cons.IH) auto
    moreover have "after_part es (cur @ [c]) buf h = after_part es cur (c # buf) h" by (simp add: after_part_def)
    moreover have "conf_chars cb (c # buf) (take 255 cur) (255 < length cur) ret (s, h) =
        conf_chars cb buf (take 255 (cur @ [c])) (255 < length (cur @ [c])) ret (s, h)"
      using False by (auto simp: min_def)
    ultimately show ?thesis by (simp only:)
  qed
qed

definition parsed where
  "parsed path content fd h = (\<lambda>(ret :: int, s', h'). keeps_others fd h h' \<and>
     (ret < 0 \<longrightarrow> file_fails os path (- ret) \<or> refuses (- ret)) \<and>
     (\<exists>es. prefix es (conf_entries content) \<and> inv es s' h' \<and> (0 \<le> ret \<longrightarrow> es = conf_entries content)))"

lemma inv_append: "inv es s h \<Longrightarrow> (\<And>e. e \<in> set new \<Longrightarrow> \<not> changes e) \<Longrightarrow> inv es s (new @ h)"
  by (induction new) (auto intro: event)

lemma read_spec:
  assumes os: "os_ok os" and i: "inv es s h" and f: "file_of fd h = Some (path, b)"
  shows "runs (refill_buffer os fd 4096 h) (\<lambda>(r, h'). keeps_others fd h h' \<and> inv es s h' \<and> (\<forall>err. r = Inl err \<longrightarrow> 0 < err \<and> file_fails os path err) \<and>
    (\<forall>buf. r = Inr buf \<longrightarrow> file_of fd h' = Some (path, b @ buf) \<and> (file_is os path content \<and> prefix b content \<longrightarrow>
      prefix (b @ buf) content \<and> (buf = [] \<longrightarrow> b = content))))"
proof -
  define nop where "nop k = replicate k (Read fd 4096 (Inl EINTR))" for k
  have nop: "open_fds (nop k @ h) = open_fds h" "file_of d (nop k @ h) = file_of d h" "inv es s (nop k @ h)" for k d
    unfolding nop_def by (induction k) (auto intro: event i)
  have r: "runs (refill_buffer os fd 4096 h) (\<lambda>(r, h'). r \<noteq> Inl EINTR \<and>
      (\<exists>k. h' = Read fd 4096 r # nop k @ h \<and> r = os_read os (nop k @ h) fd 4096))"
    unfolding refill_buffer_def nop_def by (rule retry_read [OF os_okD(1) [OF os]])
  show ?thesis
  proof (rule runs_mono [OF r], clarify, intro conjI allI impI)
    fix k
    define rd where "rd = os_read os (nop k @ h) fd 4096"
    show "keeps_others fd h (Read fd 4096 (os_read os (nop k @ h) fd 4096) # nop k @ h)"
      by (intro keeps_others_Cons keeps_others_append) (auto simp: nop_def)
    show "inv es s (Read fd 4096 (os_read os (nop k @ h) fd 4096) # nop k @ h)"
      by (intro event nop(3)) simp
  next
    fix k err assume "os_read os (nop k @ h) fd 4096 = Inl err"
    then show "0 < err" "file_fails os path err" using os_okD(5) [OF os] by (auto simp: errno_ok_def file_fails_def)
  next
    fix k buf assume rd: "os_read os (nop k @ h) fd 4096 = Inr buf"
    then show "file_of fd (Read fd 4096 (os_read os (nop k @ h) fd 4096) # nop k @ h) = Some (path, b @ buf)"
      using nop(2) f by simp
    assume "file_is os path content \<and> prefix b content"
    then have "prefix (b @ buf) content \<and> (buf = [] \<longrightarrow> b = content)"
      using rd nop(2) [of fd k] f unfolding file_is_def by (metis zero_less_numeral)
    then show "prefix (b @ buf) content" "buf = [] \<Longrightarrow> b = content" by auto
  qed
qed

lemma loop_spec:
  assumes os: "os_ok os" and fi: "file_is os path content"
  shows "inv (entries_of (butlast (lines_of b))) s h \<Longrightarrow> file_of fd h = Some (path, b) \<Longrightarrow> fd \<in> open_fds h \<Longrightarrow>
    prefix b content \<Longrightarrow> 0 \<le> ret \<Longrightarrow>
    runs (conf_loop os cb fd (take 255 (last (lines_of b))) (255 < length (last (lines_of b))) ret (s, h)) (parsed path content fd h)"
proof (induction "length content - length b" arbitrary: b s h ret rule: less_induct)
  case less
  define es where "es = entries_of (butlast (lines_of b))"
  define cur where "cur = last (lines_of b)"
  have cur: "newline \<notin> set cur" unfolding cur_def by (rule last_line)
  note pre = prefix_entries [OF less.prems(4), folded es_def]
  have rd: "runs (refill_buffer os fd 4096 h) (\<lambda>(r, h'). keeps_others fd h h' \<and> inv es s h' \<and> (\<forall>err. r = Inl err \<longrightarrow> 0 < err \<and> file_fails os path err) \<and>
    (\<forall>buf. r = Inr buf \<longrightarrow> file_of fd h' = Some (path, b @ buf) \<and> prefix (b @ buf) content \<and> (buf = [] \<longrightarrow> b = content)))"
    using read_spec [OF os less.prems(1,2), of content] fi less.prems(4) unfolding es_def by simp
  have fail: "parsed path content fd h (- err, s, h')" if "keeps_others fd h h'" "inv es s h'" "0 < err \<and> file_fails os path err" for err h'
    using that pre by (auto simp: parsed_def)
  have eof: "runs (if \<not> 255 < length cur then dispatch_line (take 255 cur) cb (s, h') else Some (ret, s, h')) (parsed path content fd h)"
    if k: "keeps_others fd h h'" and i: "inv es s h'" and b: "b = content" for h'
  proof (cases "255 < length cur")
    case True
    then show ?thesis using that less.prems(5) by (auto simp: parsed_def conf_entries_def entries_last es_def cur_def)
  next
    case False
    then have e: "conf_entries content = es @ (case conf_entry cur of None \<Rightarrow> [] | Some e \<Rightarrow> [e])"
      by (simp add: b [symmetric] conf_entries_def entries_last es_def cur_def)
    show ?thesis
      using False k by (auto simp: parsed_def e intro!: runs_mono [OF dispatch_spec [OF i, of cur]]
          intro: keeps_others_trans keeps_files_others)
  qed
  have part: "runs (conf_chars cb buf (take 255 cur) (255 < length cur) ret (s, h'))
      (\<lambda>(ret, line, skip, s). runs (if ret < 0 then Some (ret, s) else conf_loop os cb fd line skip ret s) (parsed path content fd h))"
    if k: "keeps_others fd h h'" and i: "inv es s h'" and f: "file_of fd h' = Some (path, b @ buf)"
      and p: "prefix (b @ buf) content" and ne: "buf \<noteq> []" for h' buf
  proof (rule runs_mono [OF chars_spec [OF i cur less.prems(5)]], clarify)
    fix r line skip s'' h''
    assume a: "after_part es cur buf h' (r, line, skip, s'', h'')"
    then have kf: "keeps_files h' h''" by (simp add: after_part_def)
    have fd: "fd \<in> open_fds h'" using k less.prems(3) by (simp add: keeps_others_def)
    note k2 = keeps_others_trans [OF k keeps_files_others [OF kf]]
    note al = after_lines [of b buf, folded cur_def]
    have es: "es @ entries_of (butlast (lines_of (cur @ buf))) = entries_of (butlast (lines_of (b @ buf)))"
      by (simp add: al(1) entries_of_append es_def)
    show "runs (if r < 0 then Some (r, s'', h'') else conf_loop os cb fd line skip r (s'', h'')) (parsed path content fd h)"
    proof (cases "r < 0")
      case True
      then obtain es' where "prefix es' (entries_of (butlast (lines_of (cur @ buf))))" "inv (es @ es') s'' h''" "refuses (- r)"
        using a by (auto simp: after_part_def)
      moreover from this(1) have "prefix (es @ es') (conf_entries content)"
        using prefix_entries [OF p] unfolding es [symmetric] by (meson prefix_order.trans same_prefix_prefix)
      ultimately show ?thesis using True k2 by (auto simp: parsed_def)
    next
      case False
      have len: "length content - length (b @ buf) < length content - length b"
        using p ne prefix_length_le [OF p] by (cases buf) auto
      have "runs (conf_loop os cb fd line skip r (s'', h'')) (parsed path content fd h'')"
        using False a less.hyps [OF len, of s'' h'' r] fd kf f p
        by (auto simp: after_part_def es al(2) keeps_files_def)
      then show ?thesis using False k2
        by (auto elim!: runs_mono simp: parsed_def intro: keeps_others_trans)
    qed
  qed
  show ?case
    unfolding cur_def [symmetric]
  proof (subst conf_loop.simps, simp only: runs_simps fst_conv snd_conv, rule runs_mono [OF rd], clarify)
    fix r :: "int + string" and h'
    assume k: "keeps_others fd h h'" "inv es s h'" and e: "\<forall>err. r = Inl err \<longrightarrow> 0 < err \<and> file_fails os path err"
      and b: "\<forall>buf. r = Inr buf \<longrightarrow> file_of fd h' = Some (path, b @ buf) \<and> prefix (b @ buf) content \<and> (buf = [] \<longrightarrow> b = content)"
    show "runs (case r of Inl err \<Rightarrow> Some (- err, s, h')
        | Inr buf \<Rightarrow> if buf = [] then (if \<not> 255 < length cur then dispatch_line (take 255 cur) cb (s, h') else Some (ret, s, h'))
          else do {
            (ret, line, skip, s) \<leftarrow> conf_chars cb buf (take 255 cur) (255 < length cur) ret (s, h');
            if ret < 0 then Some (ret, s) else conf_loop os cb fd line skip ret s
          }) (parsed path content fd h)"
    proof (cases r)
      case (Inl err)
      then show ?thesis using fail [OF k] e by simp
    next
      case (Inr buf)
      show ?thesis
      proof (cases "buf = []")
        case True
        then have "b = content" using b Inr by simp
        from eof [OF k this] show ?thesis unfolding Inr sum.case if_P [OF True] .
      next
        case False
        then have "runs (conf_chars cb buf (take 255 cur) (255 < length cur) ret (s, h'))
          (\<lambda>(ret, line, skip, s). runs (if ret < 0 then Some (ret, s) else conf_loop os cb fd line skip ret s) (parsed path content fd h))"
          using part [OF k] b Inr by simp
        then show ?thesis
          using False Inr by (simp only: sum.case if_False runs_simps) (erule runs_mono, auto)
      qed
    qed
  qed
qed

lemma parse_spec:
  assumes os: "os_ok os" and fi: "file_is os path content" and i: "inv [] s h"
  shows "runs (pg_conf_parse os path cb (s, h)) (\<lambda>(ret, s', h'). keeps_files h h' \<and>
    (ret < 0 \<longrightarrow> file_fails os path (- ret) \<or> refuses (- ret)) \<and>
    (\<exists>es. prefix es (conf_entries content) \<and> inv es s' h' \<and> (0 \<le> ret \<longrightarrow> es = conf_entries content)))"
proof (cases "os_open os h path [O_RDONLY, O_CLOEXEC]")
  case (Inl err)
  then have "0 < err" "file_fails os path err" using os_okD(5) [OF os] by (auto simp: errno_ok_def file_fails_def)
  moreover have "keeps_files h (Open path [O_RDONLY, O_CLOEXEC] (Inl err) # h)" by (auto simp: keeps_files_def)
  ultimately show ?thesis
    using event [OF i, of "Open path [O_RDONLY, O_CLOEXEC] (Inl err)"]
    by (auto simp: pg_conf_parse_def sys_open_def Let_def Inl intro!: exI [of _ "[]"])
next
  case (Inr fd)
  define h1 where "h1 = Open path [O_RDONLY, O_CLOEXEC] (Inr fd) # h"
  note fresh = fresh_fd(1) [OF os Inr]
  have i1: "inv [] s h1" unfolding h1_def by (intro event i) simp
  have fin: "keeps_files h (Close fd # h2)" if "keeps_others fd h1 h2" for h2
    using that unfolding h1_def by (rule keeps_files_bracket [OF fresh])
  have cl: "inv es s' (Close fd # h')" if "inv es s' h'" for es s' h'
    using that by (rule event) simp
  have o: "fd \<in> open_fds h1" "file_of fd h1 = Some (path, [])" by (simp_all add: h1_def)
  note sp = loop_spec [OF os fi, of "[]" s h1 fd 0, simplified, OF i1 o(2,1)]
  show ?thesis
    unfolding pg_conf_parse_def sys_open_def Let_def snd_conv fst_conv Inr prod.case sum.case h1_def [symmetric] runs_simps
    by (rule runs_mono [OF sp], clarsimp simp: sys_close_def parsed_def fin) (blast intro: cl)
qed

end

section \<open>Properties\<close>

text \<open>A client that notes what it is given and answers as it likes.\<close>

definition record_cb :: "(string \<times> string \<Rightarrow> int) \<Rightarrow> (string \<times> string) list conf_cb" where
  "record_cb answer k v s = Some (answer (k, v), fst s @ [(k, v)], snd s)"

interpretation recorder: conf_client os "record_cb answer" "\<lambda>es s h. s = es" "\<lambda>e. \<exists>kv. answer kv = - e" for os answer
  by unfold_locales (auto simp: record_cb_def)

text \<open>A machine with a file.\<close>

definition file_os :: "string \<Rightarrow> string \<Rightarrow> os" where
  "file_os path content = sample_os\<lparr>os_read := \<lambda>h fd n. case file_of fd h of
     Some (p, b) \<Rightarrow> Inr (take n (if p = path then drop (length b) content else ''42'')) | None \<Rightarrow> Inr (take n ''42'')\<rparr>"

lemma os_ok_read:
  assumes "\<And>h fd n. \<exists>s. rd h fd n = Inr s \<and> length s \<le> n"
  shows "os_ok (sample_os\<lparr>os_read := rd\<rparr>)"
proof -
  define os' where "os' = sample_os\<lparr>os_read := rd\<rparr>"
  have rd: "rd h fd n \<noteq> Inl e" "rd h fd n = Inr s \<Longrightarrow> length s \<le> n" for h fd n e s
    using assms [of h fd n] by auto
  have "settles (sys_read os' fd n)" for fd n
    by (rule settles_ok) (simp add: sys_read_def os'_def Let_def rd)
  moreover have "clock_ok os' = clock_ok sample_os" "fds_valid os' = fds_valid sample_os" "dirs_finite os' = dirs_finite sample_os"
    by (simp_all add: clock_ok_def fds_valid_def dirs_finite_def os'_def)
  moreover have "sys_pread os' = sys_pread sample_os" "sys_write os' = sys_write sample_os"
    "sys_pwrite os' = sys_pwrite sample_os" "sys_getdents os' = sys_getdents sample_os"
    by (simp_all add: fun_eq_iff sys_pread_def sys_write_def sys_pwrite_def sys_getdents_def os'_def)
  ultimately have "os_ok os'"
    using sample_os_ok by (simp add: os_ok_def eintr_fair_def reads_bounded_def errno_ok_def os'_def rd)
  then show ?thesis by (simp add: os'_def)
qed

lemma file_os_ok: "os_ok (file_os path content)"
  unfolding file_os_def by (rule os_ok_read) (auto split: option.split)

lemma file_os_file: "file_is (file_os path content) path content"
proof -
  have "prefix (b @ take n (drop (length b) content)) content" if "prefix b content" for b n
    using that by (auto simp: prefix_def) (metis append_take_drop_id)
  moreover have "b = content" if "prefix b content" "length content \<le> length b" for b
    using that by (auto simp: prefix_def)
  ultimately show ?thesis by (auto simp: file_is_def file_os_def)
qed

text \<open>
  C12: However the reads cut the configuration file into pieces, the parser gives its client the entries
  of the file in order: those of the reference function, which splits the whole content into lines,
  drops lines longer than 255 characters, comments and lines without a key, and strips blanks.  It has given only the first of
  them when it returns a negative error, which is one of opening or reading the file or the answer of
  the client to an entry.  The parse always ends and leaves the open files as they were.
\<close>

theorem conf_parse_entries:
  assumes "os_ok os" "file_is os path content"
  shows "runs (pg_conf_parse os path (record_cb answer) ([], h)) (\<lambda>(ret, es, h'). keeps_files h h' \<and>
    (ret < 0 \<longrightarrow> file_fails os path (- ret) \<or> (\<exists>kv. answer kv = ret)) \<and>
    prefix es (conf_entries content) \<and> (0 \<le> ret \<longrightarrow> es = conf_entries content))"
  by (rule runs_mono [OF recorder.parse_spec [OF assms]]) auto

abbreviation (input) sample_conf :: string where
  "sample_conf \<equiv> ''# limits'' @ [newline] @ '' prop.a = 1 # one'' @ [newline] @ ''=x'' @ [newline] @ ''sysfs./sys/b=2''"

lemma sample_conf_entries: "conf_entries sample_conf = [(''prop.a'', ''1''), (''sysfs./sys/b'', ''2'')]"
  by code_simp

lemma conf_parse_entries_witness:
  "runs (pg_conf_parse (file_os ''conf'' sample_conf) ''conf'' (record_cb (\<lambda>e. 0)) ([], [])) (\<lambda>(ret, es, h').
    0 \<le> ret \<longrightarrow> es = [(''prop.a'', ''1''), (''sysfs./sys/b'', ''2'')])"
  by (rule runs_mono [OF conf_parse_entries [OF file_os_ok file_os_file]]) (auto simp only: sample_conf_entries prod.case)

end
