(* ===== verification/Pg_Opt.thy ===== *)
theory Pg_Opt
  imports Pg_Conf
begin

text \<open>
  System properties and the options of the configuration file, \<^verbatim>\<open>src/sys/prop.c\<close> and
  \<^verbatim>\<open>src/sys/opt.c\<close>.  The static table of properties is the list of its used entries and is passed as
  a state.  Property names and values are C strings, lists without a NUL; the two sizes are those of
  \<^verbatim>\<open>sys/system_properties.h\<close>.  The lemmas show that the options are what the file says and that the
  exit puts every property back.
\<close>

abbreviation (input) ENOSPC :: int where "ENOSPC \<equiv> 28"
abbreviation (input) PROP_NAME_MAX :: nat where "PROP_NAME_MAX \<equiv> 32"
abbreviation (input) PROP_VALUE_MAX :: nat where "PROP_VALUE_MAX \<equiv> 92"
abbreviation (input) PG_BOOT_RETRY_MAX :: nat where "PG_BOOT_RETRY_MAX \<equiv> 300"
abbreviation (input) PG_STAB_DELAY_SEC :: nat where "PG_STAB_DELAY_SEC \<equiv> 10"
abbreviation (input) PG_BOOT_POLL_SEC :: nat where "PG_BOOT_POLL_SEC \<equiv> 1"
abbreviation (input) CONF_PATH :: string where "CONF_PATH \<equiv> ''/data/adb/modules/pgovd/system/etc/pgovd.conf''"
abbreviation (input) MAX_PROPS :: nat where "MAX_PROPS \<equiv> 64"

section \<open>Waiting for the boot\<close>

function boot_loop :: "os \<Rightarrow> nat \<Rightarrow> hist \<Rightarrow> bool \<times> hist" where
  "boot_loop os retries h =
     (if retries \<le> PG_BOOT_RETRY_MAX
      then let (val, h) = sys_prop_get os ''sys.boot_completed'' h
           in if 0 < length val \<and> val = ''1'' then (True, snd (sys_ctl os (Sleep PG_STAB_DELAY_SEC) h))
              else boot_loop os (retries + 1) (snd (sys_ctl os (Sleep PG_BOOT_POLL_SEC) h))
      else (False, h))"
  by auto
termination by (relation "measure (\<lambda>(os, retries, h). 301 - retries)") auto

declare boot_loop.simps [simp del]

definition pg_prop_wait_boot :: "os \<Rightarrow> hist \<Rightarrow> bool \<times> hist" where
  "pg_prop_wait_boot os h = boot_loop os 0 h"

section \<open>One property\<close>

record pg_prop_state =
  ps_name :: string
  ps_val :: string
  ps_modified :: bool

definition pg_prop_state_init :: "string \<Rightarrow> pg_prop_state" where
  "pg_prop_state_init name = \<lparr>ps_name = take (PROP_NAME_MAX - 1) name, ps_val = [], ps_modified = False\<rparr>"

text \<open>An unset property reads as the empty string; the comparison is \<^verbatim>\<open>strncmp\<close> on strings without a NUL.\<close>

definition pg_prop_set :: "os \<Rightarrow> pg_prop_state \<Rightarrow> string \<Rightarrow> hist \<Rightarrow> int \<times> pg_prop_state \<times> hist" where
  "pg_prop_set os state val h =
     (let (os_val, h) = sys_prop_get os (ps_name state) h
      in if take PROP_VALUE_MAX os_val = take PROP_VALUE_MAX val then (0, state, h)
         else let was_mod = ps_modified state;
                  state = (if \<not> ps_modified state
                           then state\<lparr>ps_val := take (PROP_VALUE_MAX - 1) os_val, ps_modified := True\<rparr> else state);
                  (r, h) = sys_ctl os (Prop_set (ps_name state) val) h
              in if r \<noteq> Inr 0 then (- EIO, state\<lparr>ps_modified := was_mod\<rparr>, h) else (0, state, h))"

definition pg_prop_reset :: "os \<Rightarrow> pg_prop_state \<Rightarrow> hist \<Rightarrow> int \<times> pg_prop_state \<times> hist" where
  "pg_prop_reset os state h =
     (if \<not> ps_modified state then (0, state, h)
      else let (r, h) = sys_ctl os (Prop_set (ps_name state) (ps_val state)) h
           in if r \<noteq> Inr 0 then (- EIO, state, h) else (0, state\<lparr>ps_modified := False\<rparr>, h))"

definition pg_prop_cleanup :: "os \<Rightarrow> pg_prop_state \<Rightarrow> hist \<Rightarrow> pg_prop_state \<times> hist" where
  "pg_prop_cleanup os state h =
     (let (state, h) = (if ps_modified state then snd (pg_prop_reset os state h) else (state, h))
      in (state\<lparr>ps_name := [], ps_val := [], ps_modified := False\<rparr>, h))"

section \<open>The options\<close>

definition add_prop :: "os \<Rightarrow> string \<Rightarrow> string \<Rightarrow> pg_prop_state list \<times> hist \<Rightarrow> int \<times> pg_prop_state list \<times> hist" where
  "add_prop os name val = (\<lambda>(props, h).
     if MAX_PROPS \<le> length props then (- ENOSPC, props, h)
     else let (ret, p, h) = pg_prop_set os (pg_prop_state_init name) val h
          in if ret \<noteq> 0 then (ret, props, h) else (0, props @ [p], h))"

definition parse_cb :: "os \<Rightarrow> pg_prop_state list conf_cb" where
  "parse_cb os key val = (\<lambda>(props, h).
     if pg_str_has_prefix key ''sysfs.''
     then do { (ret, h) \<leftarrow> pg_sysfs_write os (drop 6 key) val h; Some (0, props, h) }
     else if pg_str_has_prefix key ''prop.''
     then let (ret, props, h) = add_prop os (drop 5 key) val (props, h) in Some (0, props, h)
     else Some (0, props, h))"

definition pg_opt_init :: "os \<Rightarrow> pg_prop_state list \<Rightarrow> hist \<Rightarrow> (int \<times> pg_prop_state list \<times> hist) option" where
  "pg_opt_init os props h = do {
     (ret, props, h) \<leftarrow> pg_conf_parse os CONF_PATH (parse_cb os) (props, h);
     Some (if ret < 0 \<and> ret \<noteq> - ENOENT then ret else if ret = - ENOENT then 0 else ret, props, h)
   }"

text \<open>From the last property to the first.\<close>

fun opt_exit_loop :: "os \<Rightarrow> pg_prop_state list \<Rightarrow> hist \<Rightarrow> hist" where
  "opt_exit_loop os [] h = h"
| "opt_exit_loop os (p # ps) h = opt_exit_loop os ps (snd (pg_prop_cleanup os p h))"

definition pg_opt_exit :: "os \<Rightarrow> pg_prop_state list \<Rightarrow> hist \<Rightarrow> pg_prop_state list \<times> hist" where
  "pg_opt_exit os props h = ([], opt_exit_loop os (rev props) h)"

section \<open>The property store\<close>

text \<open>
  What a property holds after a history, from the values at its start: the value of the last set that
  succeeded, if it fits.  An environment in which nobody else sets properties answers that value, and
  refuses values that do not fit.
\<close>

fun prop_now :: "(string \<Rightarrow> string) \<Rightarrow> hist \<Rightarrow> string \<Rightarrow> string" where
  "prop_now base [] n = base n"
| "prop_now base (Ctl (Prop_set m v) r # h) n = (if m = n \<and> r = Inr 0 \<and> length v < PROP_VALUE_MAX then v else prop_now base h n)"
| "prop_now base (e # h) n = prop_now base h n"

definition props_ok :: "os \<Rightarrow> (string \<Rightarrow> string) \<Rightarrow> bool" where
  "props_ok os base \<longleftrightarrow> (\<forall>h n. os_prop_get os h n = prop_now base h n) \<and> (\<forall>n. length (base n) < PROP_VALUE_MAX) \<and>
     (\<forall>h n v. PROP_VALUE_MAX \<le> length v \<longrightarrow> os_ctl os h (Prop_set n v) \<noteq> Inr 0)"

lemma prop_now_other: "\<not> sets_prop e \<Longrightarrow> prop_now base (e # h) = prop_now base h"
  by (cases e rule: sets_prop.cases) (auto simp: fun_eq_iff)

lemma prop_now_append: "(\<And>e. e \<in> set new \<Longrightarrow> \<not> sets_prop e) \<Longrightarrow> prop_now base (new @ h) = prop_now base h"
  by (induction new) (auto simp: prop_now_other)

lemma prop_now_grows: "grows (\<lambda>e. \<not> sets_prop e) h h' \<Longrightarrow> prop_now base h' = prop_now base h"
  by (auto simp: grows_def prop_now_append)

text \<open>The values after the table was undone, which leaves the oldest saved value of a property.\<close>

fun undone :: "pg_prop_state list \<Rightarrow> (string \<Rightarrow> string) \<Rightarrow> string \<Rightarrow> string" where
  "undone [] f n = f n"
| "undone (p # ps) f n = (if ps_modified p \<and> ps_name p = n then ps_val p else undone ps f n)"

lemma undone_append: "undone (ps @ qs) f = undone ps (undone qs f)"
  by (induction ps) (auto simp: fun_eq_iff)

section \<open>What the options do\<close>

text \<open>The part of a history that leaves files, descriptors and properties alone.\<close>

lemma keeps_files_Cons:
  assumes "keeps_files h h'" "idle e" "\<And>fd n r. e \<noteq> Read fd n r" "\<And>fd b r. e \<noteq> Pwrite fd b r"
  shows "keeps_files h (e # h')"
proof -
  have "file_of fd (e # h') = file_of fd h'" for fd
    using assms(2,3) by (cases "(fd, e # h')" rule: file_of.cases) auto
  moreover have "last_done fd (e # h') = last_done fd h'" for fd
    using assms(4) by (cases "(fd, e # h')" rule: last_done.cases) auto
  ultimately show ?thesis
    using assms(1) idle_fds [OF assms(2), of h'] idle_rebinds [OF assms(2)] by (auto simp: keeps_files_def intro: keeps_open_Cons)
qed

lemma sysfs_write_spec:
  assumes os: "os_ok os"
  shows "runs (pg_sysfs_write os path val h) (\<lambda>(ret, h'). keeps_files h h' \<and> grows (\<lambda>e. \<not> sets_prop e) h h')"
proof (cases "os_open os h path [O_WRONLY, O_CLOEXEC]")
  case (Inl err)
  then show ?thesis
    by (auto simp: pg_sysfs_write_def sys_open_def Let_def intro!: keeps_files_Cons)
next
  case (Inr fd)
  note fresh = fresh_fd(1) [OF os Inr]
  have "keeps_files h (Close fd # Pwrite fd b r # replicate k (Pwrite fd b r') @ Open path fl (Inr fd) # h)" for b r k r' fl
    by (intro keeps_files_bracket [OF fresh, of path fl] keeps_others_Cons keeps_others_append) auto
  moreover have "grows (\<lambda>e. \<not> sets_prop e) h (Close fd # Pwrite fd b r # replicate k (Pwrite fd b r') @ Open path fl (Inr fd) # h)" for b r k r' fl
    by (intro grows_Cons growsI [of _ "replicate k (Pwrite fd b r') @ [Open path fl (Inr fd)]"]) auto
  ultimately show ?thesis
    unfolding pg_sysfs_write_def sys_open_def Let_def Inr
    by (auto simp: sys_close_def intro!: runs_mono [OF retry_pwrite [OF os_okD(1) [OF os], of fd]])
qed

text \<open>
  The values as they were and as they shall be: the table stands for the first, and as long as
  no set was refused the second is the entries of the file applied in order.
\<close>

definition conf_props :: "(string \<times> string) list \<Rightarrow> (string \<times> string) list" where
  "conf_props es = map (\<lambda>(k, v). (take (PROP_NAME_MAX - 1) (drop 5 k), v)) (filter (\<lambda>(k, v). prefix ''prop.'' k) es)"

definition assigned :: "(string \<Rightarrow> string) \<Rightarrow> (string \<times> string) list \<Rightarrow> string \<Rightarrow> string" where
  "assigned f ps = foldl (\<lambda>f (n, v). f(n := v)) f ps"

fun refused :: "hist \<Rightarrow> bool" where
  "refused [] = False"
| "refused (Ctl (Prop_set n v) r # h) = (r \<noteq> Inr 0 \<or> refused h)"
| "refused (e # h) = refused h"

definition opt_inv :: "(string \<Rightarrow> string) \<Rightarrow> hist \<Rightarrow> (string \<times> string) list \<Rightarrow> pg_prop_state list \<Rightarrow> hist \<Rightarrow> bool" where
  "opt_inv base h0 es ps h \<longleftrightarrow> undone ps (prop_now base h) = prop_now base h0 \<and> length ps \<le> MAX_PROPS \<and>
     (\<not> refused h \<longrightarrow> length (conf_props es) \<le> MAX_PROPS \<longrightarrow>
       length ps = length (conf_props es) \<and> prop_now base h = assigned (prop_now base h0) (conf_props es))"

lemma refused_other: "\<not> sets_prop e \<Longrightarrow> refused (e # h) = refused h"
  by (cases e rule: sets_prop.cases) auto

lemma refused_grows: "grows (\<lambda>e. \<not> sets_prop e) h h' \<Longrightarrow> refused h' = refused h"
proof (elim growsE, clarify)
  fix new assume "\<forall>e \<in> set new. \<not> sets_prop e"
  then show "refused (new @ h) = refused h" by (induction new) (auto simp: refused_other)
qed

lemma opt_inv_grows: "opt_inv base h0 es ps h \<Longrightarrow> grows (\<lambda>e. \<not> sets_prop e) h h' \<Longrightarrow> opt_inv base h0 es ps h'"
  by (simp add: opt_inv_def prop_now_grows refused_grows)

lemma prop_now_short: "props_ok os base \<Longrightarrow> length (prop_now base h n) < 92"
  by (induction base h n rule: prop_now.induct) (auto simp: props_ok_def)

text \<open>Setting a property of the table.\<close>

lemma prop_set_spec:
  assumes "props_ok os base"
  shows "case pg_prop_set os (pg_prop_state_init name) val h of (ret, p, h') \<Rightarrow> keeps_files h h' \<and> (refused h \<longrightarrow> refused h') \<and>
    (ret = 0 \<longrightarrow> undone [p] (prop_now base h') = prop_now base h \<and> prop_now base h' = (prop_now base h)(take 31 name := val)) \<and>
    (ret \<noteq> 0 \<longrightarrow> prop_now base h' = prop_now base h \<and> refused h')"
proof -
  define m where "m = take 31 name"
  define old where "old = prop_now base h m"
  have len: "length old < 92" unfolding old_def by (rule prop_now_short [OF assms])
  have get: "os_prop_get os h m = old" using assms by (simp add: props_ok_def old_def)
  define h1 where "h1 = Prop_get m old # h"
  have h1: "prop_now base h1 = prop_now base h" "refused h1 = refused h" "keeps_files h h1"
    by (auto simp: h1_def fun_eq_iff intro: keeps_files_Cons)
  define r where "r = os_ctl os h1 (Prop_set m val)"
  have k2: "keeps_files h (Ctl (Prop_set m val) r # h1)" by (intro keeps_files_Cons h1(3)) simp_all
  have short: "r = Inr 0 \<Longrightarrow> length val < 92" using assms by (auto simp: props_ok_def r_def not_le [symmetric])
  have same: "old = val" if "take 92 old = take 92 val"
  proof -
    have "length (take 92 val) = length old" using that len by (metis less_imp_le take_all)
    then have "length val < 92" using len by simp
    then show ?thesis using that len by simp
  qed
  have eq: "pg_prop_set os (pg_prop_state_init name) val h =
    (if take 92 old = take 92 val then (0, \<lparr>ps_name = m, ps_val = [], ps_modified = False\<rparr>, h1)
     else if r \<noteq> Inr 0 then (- EIO, \<lparr>ps_name = m, ps_val = take 91 old, ps_modified = False\<rparr>, Ctl (Prop_set m val) r # h1)
     else (0, \<lparr>ps_name = m, ps_val = take 91 old, ps_modified = True\<rparr>, Ctl (Prop_set m val) r # h1))"
    by (simp add: pg_prop_set_def pg_prop_state_init_def sys_prop_get_def sys_ctl_def Let_def m_def [symmetric] get h1_def r_def)
  consider "take 92 old = take 92 val" | "take 92 old \<noteq> take 92 val" "r \<noteq> Inr 0" | "take 92 old \<noteq> take 92 val" "r = Inr 0" by blast
  then show ?thesis
  proof cases
    case 1
    then have "(prop_now base h)(m := val) = prop_now base h" using same by (auto simp: fun_eq_iff old_def)
    then show ?thesis unfolding eq using 1 h1 by (simp add: fun_eq_iff m_def)
  next
    case 2
    then have "prop_now base (Ctl (Prop_set m val) r # h1) = prop_now base h" by (simp add: fun_eq_iff h1(1))
    then show ?thesis unfolding eq using 2 k2 by simp
  next
    case 3
    have "prop_now base (Ctl (Prop_set m val) r # h1) = (prop_now base h)(m := val)"
      using 3 short by (auto simp: fun_eq_iff h1(1))
    moreover have "undone [\<lparr>ps_name = m, ps_val = take 91 old, ps_modified = True\<rparr>] ((prop_now base h)(m := val)) = prop_now base h"
      using len by (auto simp: fun_eq_iff old_def)
    moreover have "refused (Ctl (Prop_set m val) r # h1) = refused h" using 3 h1(2) by simp
    ultimately show ?thesis unfolding eq using 3 k2 unfolding m_def [symmetric] by simp
  qed
qed

lemma conf_props_snoc: "conf_props (es @ [(k, v)]) =
    conf_props es @ (if prefix ''prop.'' k then [(take 31 (drop 5 k), v)] else [])"
  by (simp add: conf_props_def)

lemma assigned_snoc: "assigned f (ps @ [(n, v)]) = (assigned f ps)(n := v)"
  by (simp add: assigned_def)

lemma opt_inv_other: "opt_inv base h0 es ps h \<Longrightarrow> \<not> prefix ''prop.'' k \<Longrightarrow> opt_inv base h0 (es @ [(k, v)]) ps h"
  by (simp add: opt_inv_def conf_props_snoc)

lemma add_prop_spec:
  assumes p: "props_ok os base" and i: "opt_inv base h0 es ps h" and k: "prefix ''prop.'' k"
  shows "case add_prop os (drop 5 k) v (ps, h) of (ret, ps', h') \<Rightarrow> keeps_files h h' \<and> opt_inv base h0 (es @ [(k, v)]) ps' h'"
proof (cases "64 \<le> length ps")
  case True
  then have "\<not> refused h \<Longrightarrow> length (conf_props es) \<le> 64 \<Longrightarrow> length (conf_props es) = 64"
    using i by (auto simp: opt_inv_def)
  then show ?thesis using True i k by (auto simp: add_prop_def opt_inv_def conf_props_snoc)
next
  case False
  obtain ret p h' where r: "pg_prop_set os (pg_prop_state_init (drop 5 k)) v h = (ret, p, h')" by (cases "pg_prop_set os (pg_prop_state_init (drop 5 k)) v h")
  note sp = prop_set_spec [OF p, where name = "drop 5 k" and val = v and h = h, unfolded r prod.case]
  have e: "add_prop os (drop 5 k) v (ps, h) = (if ret \<noteq> 0 then (ret, ps, h') else (0, ps @ [p], h'))"
    using False by (simp add: add_prop_def r)
  show ?thesis
  proof (cases "ret = 0")
    case True
    then have "undone [p] (prop_now base h') = prop_now base h" using sp by blast
    then have u: "undone (ps @ [p]) (prop_now base h') = prop_now base h0"
      using i by (simp only: undone_append opt_inv_def)
    show ?thesis
      using True False sp i u k unfolding e opt_inv_def by (auto simp: conf_props_snoc assigned_snoc)
  next
    case F: False
    then show ?thesis using sp i unfolding e opt_inv_def by auto
  qed
qed

lemma parse_cb_spec:
  assumes os: "os_ok os" and p: "props_ok os base" and i: "opt_inv base h0 es ps h"
  shows "runs (parse_cb os k v (ps, h)) (\<lambda>(ret, ps', h'). ret = 0 \<and> opt_inv base h0 (es @ [(k, v)]) ps' h' \<and> keeps_files h h')"
proof (cases "prefix ''prop.'' k")
  case True
  then have "\<not> prefix ''sysfs.'' k" by (cases k) auto
  then show ?thesis
    using True add_prop_spec [OF p i True, of v] by (auto simp: parse_cb_def split: prod.splits)
next
  case False
  show ?thesis
    using opt_inv_other [OF i False, of v] False unfolding parse_cb_def
    by (auto intro!: runs_mono [OF sysfs_write_spec [OF os]] intro: opt_inv_grows)
qed

interpretation options: conf_client os "parse_cb os" "\<lambda>es ps h. os_ok os \<and> props_ok os base \<and> opt_inv base h0 es ps h" "\<lambda>e. False"
  for os base h0
proof
  show "runs (parse_cb os k v (ps, h)) (\<lambda>(ret, ps', h'). (os_ok os \<and> props_ok os base \<and> opt_inv base h0 (es @ [(k, v)]) ps' h') \<and>
      keeps_files h h' \<and> (ret < 0 \<longrightarrow> False))"
    if "os_ok os \<and> props_ok os base \<and> opt_inv base h0 es ps h" for es ps h k v
    using that by (auto intro!: runs_mono [OF parse_cb_spec, of os base h0 es ps h k v])
  show "os_ok os \<and> props_ok os base \<and> opt_inv base h0 es ps (e # h)"
    if "os_ok os \<and> props_ok os base \<and> opt_inv base h0 es ps h" "\<not> changes e" for es ps h e
    using that by (cases e rule: sets_prop.cases) (auto intro: opt_inv_grows)
qed

lemma opt_init_spec:
  assumes "os_ok os" "props_ok os base" "file_is os CONF_PATH content"
  shows "runs (pg_opt_init os [] h) (\<lambda>(ret, ps, h'). keeps_files h h' \<and>
    (\<exists>es. prefix es (conf_entries content) \<and> opt_inv base h es ps h' \<and>
      (0 \<le> ret \<longrightarrow> file_fails os CONF_PATH ENOENT \<or> es = conf_entries content)))"
proof -
  have "opt_inv base h [] [] h" by (simp add: opt_inv_def conf_props_def assigned_def fun_eq_iff)
  then have "os_ok os \<and> props_ok os base \<and> opt_inv base h [] [] h" using assms by simp
  from options.parse_spec [OF assms(1,3) this] show ?thesis
    unfolding pg_opt_init_def runs_simps
  proof (elim runs_mono, clarify, unfold runs_simps prod.case, intro conjI)
    fix ret ps h' es
    assume a: "prefix es (conf_entries content)" "opt_inv base h es ps h'"
      "ret < 0 \<longrightarrow> file_fails os CONF_PATH (- ret) \<or> False" "0 \<le> ret \<longrightarrow> es = conf_entries content"
    show "\<exists>es. prefix es (conf_entries content) \<and> opt_inv base h es ps h' \<and>
        (0 \<le> (if ret < 0 \<and> ret \<noteq> - ENOENT then ret else if ret = - ENOENT then 0 else ret) \<longrightarrow>
          file_fails os CONF_PATH ENOENT \<or> es = conf_entries content)"
      using a by (intro exI [of _ es]) auto
  qed
qed

lemma opt_exit_spec:
  "\<exists>new. opt_exit_loop os (rev ps) h = new @ h \<and> (\<forall>e \<in> set new. sets_prop e) \<and>
    (\<forall>n. (\<forall>v r. Ctl (Prop_set n v) r \<in> set new \<longrightarrow> r = Inr 0 \<and> length v < 92) \<longrightarrow>
      prop_now base (new @ h) n = undone ps (prop_now base h) n)"
proof (induction ps arbitrary: h rule: rev_induct)
  case (snoc p ps)
  define c where "c = (if ps_modified p then [Ctl (Prop_set (ps_name p) (ps_val p)) (os_ctl os h (Prop_set (ps_name p) (ps_val p)))] else [])"
  have c: "snd (pg_prop_cleanup os p h) = c @ h"
    by (simp add: pg_prop_cleanup_def pg_prop_reset_def sys_ctl_def Let_def c_def)
  obtain new where new: "opt_exit_loop os (rev ps) (c @ h) = new @ c @ h" "\<forall>e \<in> set new. sets_prop e"
    "\<forall>n. (\<forall>v r. Ctl (Prop_set n v) r \<in> set new \<longrightarrow> r = Inr 0 \<and> length v < 92) \<longrightarrow>
      prop_now base (new @ c @ h) n = undone ps (prop_now base (c @ h)) n"
    using snoc [of "c @ h"] by auto
  have u: "undone ps (prop_now base (c @ h)) n = undone (ps @ [p]) (prop_now base h) n"
    if "\<forall>v r. Ctl (Prop_set n v) r \<in> set c \<longrightarrow> r = Inr 0 \<and> length v < 92" for n
  proof -
    have "prop_now base (c @ h) n = undone [p] (prop_now base h) n" using that by (auto simp: c_def)
    then show ?thesis unfolding undone_append by (induction ps) auto
  qed
  show ?case
    using new u by (intro exI [of _ "new @ c"]) (auto simp: c c_def)
qed simp

section \<open>Properties\<close>

text \<open>A machine with a configuration file whose properties are empty at first.\<close>

definition opt_os :: "string \<Rightarrow> os" where
  "opt_os content = (file_os CONF_PATH content)\<lparr>os_prop_get := prop_now (\<lambda>n. []),
     os_ctl := \<lambda>h c. case c of Prop_set n v \<Rightarrow> if length v < 92 then Inr 0 else Inl EINVAL
       | Signalfd \<Rightarrow> Inr (sample_fd h) | _ \<Rightarrow> Inr 0\<rparr>"

lemma opt_os_ok: "os_ok (opt_os content)"
proof -
  let ?f = "file_os CONF_PATH content" and ?o = "opt_os content"
  have "clock_ok ?o = clock_ok ?f" "dirs_finite ?o = dirs_finite ?f" "reads_bounded ?o = reads_bounded ?f"
    by (simp_all add: clock_ok_def dirs_finite_def reads_bounded_def opt_os_def)
  moreover have "fds_valid ?o = fds_valid ?f"
    by (simp add: fds_valid_def opt_os_def file_os_def sample_os_def)
  moreover have "errno_ok ?f \<Longrightarrow> errno_ok ?o"
    by (auto simp: errno_ok_def opt_os_def split: ctl.splits if_splits)
  moreover have "sys_read ?o = sys_read ?f" "sys_pread ?o = sys_pread ?f" "sys_write ?o = sys_write ?f"
    "sys_pwrite ?o = sys_pwrite ?f" "sys_getdents ?o = sys_getdents ?f"
    by (simp_all add: fun_eq_iff sys_read_def sys_pread_def sys_write_def sys_pwrite_def sys_getdents_def opt_os_def)
  ultimately show ?thesis
    using file_os_ok [of CONF_PATH content] by (simp add: os_ok_def eintr_fair_def)
qed

lemma opt_os_file: "file_is (opt_os content) CONF_PATH content"
  using file_os_file [of CONF_PATH content] by (simp add: file_is_def opt_os_def)

lemma opt_os_props: "props_ok (opt_os content) (\<lambda>n. [])"
  by (simp add: props_ok_def opt_os_def)



text \<open>
  C11: On exit every property gets back the value it had before the options were read, however often
  the file sets it and whatever else the daemon did in between, unless one of the sets of the exit for
  that property was refused; and the table is empty afterwards.
\<close>

theorem opt_exit_restores:
  assumes "os_ok os" "props_ok os base" "file_is os CONF_PATH content"
    "\<And>e. e \<in> set mid \<Longrightarrow> \<not> sets_prop e"
  shows "runs (pg_opt_init os [] h) (\<lambda>(ret, ps, h'). \<exists>new. pg_opt_exit os ps (mid @ h') = ([], new @ mid @ h') \<and>
    (\<forall>n. (\<forall>v r. Ctl (Prop_set n v) r \<in> set new \<longrightarrow> r = Inr 0 \<and> length v < 92) \<longrightarrow>
      prop_now base (new @ mid @ h') n = prop_now base h n))"
proof (rule runs_mono [OF opt_init_spec [OF assms(1-3)]], clarify)
  fix ps h' es
  assume "opt_inv base h es ps h'"
  then have "undone ps (prop_now base (mid @ h')) = prop_now base h"
    by (simp add: opt_inv_def prop_now_append assms(4))
  then show "\<exists>new. pg_opt_exit os ps (mid @ h') = ([], new @ mid @ h') \<and>
    (\<forall>n. (\<forall>v r. Ctl (Prop_set n v) r \<in> set new \<longrightarrow> r = Inr 0 \<and> length v < 92) \<longrightarrow>
      prop_now base (new @ mid @ h') n = prop_now base h n)"
    using opt_exit_spec [of os ps "mid @ h'" base] unfolding pg_opt_exit_def by auto
qed

lemma opt_exit_restores_witness:
  "runs (pg_opt_init (opt_os sample_conf) [] []) (\<lambda>(ret, ps, h'). \<exists>new.
    pg_opt_exit (opt_os sample_conf) ps h' = ([], new @ h') \<and>
    ((\<forall>v r. Ctl (Prop_set ''a'' v) r \<in> set new \<longrightarrow> r = Inr 0 \<and> length v < 92) \<longrightarrow> prop_now (\<lambda>n. []) (new @ h') ''a'' = []))"
  by (rule runs_mono [OF opt_exit_restores [OF opt_os_ok opt_os_props opt_os_file, of "[]"]]) auto

section \<open>The boot and long names\<close>

text \<open>Names are cut off at 31 characters.\<close>

lemma prop_name_cut: "length (ps_name (pg_prop_state_init name)) \<le> 31"
  "31 < length name \<Longrightarrow> ps_name (pg_prop_state_init name) \<noteq> name"
  by (auto simp: pg_prop_state_init_def min_def)

lemma prop_name_cut_witness:
  "ps_name (pg_prop_state_init ''debug.sf.enable_advanced_sf_phase_offset'') = ''debug.sf.enable_advanced_sf_pha''"
  by (simp add: pg_prop_state_init_def)

text \<open>The boot is waited for at most 301 times.\<close>

fun sleeps :: "hist \<Rightarrow> nat" where
  "sleeps [] = 0"
| "sleeps (Ctl (Sleep n) r # h) = n + sleeps h"
| "sleeps (e # h) = sleeps h"

definition waits_boot :: "event \<Rightarrow> bool" where
  "waits_boot e \<longleftrightarrow> (\<exists>n v. e = Prop_get n v) \<or> (\<exists>n r. e = Ctl (Sleep n) r)"

lemma boot_loop_spec:
  "retries \<le> 301 \<Longrightarrow> boot_loop os retries h = (booted, h') \<Longrightarrow> grows waits_boot h h' \<and>
    sleeps h' \<le> sleeps h + (301 - retries) + 10 \<and> (\<not> booted \<longrightarrow> sleeps h' = sleeps h + (301 - retries))"
proof (induction "301 - retries" arbitrary: retries h rule: less_induct)
  case less
  define v where "v = os_prop_get os h ''sys.boot_completed''"
  define h1 where "h1 = Prop_get ''sys.boot_completed'' v # h"
  define h2 where "h2 = Ctl (Sleep 1) (os_ctl os h1 (Sleep 1)) # h1"
  have unroll: "boot_loop os retries h = (if retries \<le> 300 then if v = ''1'' then (True, Ctl (Sleep 10) (os_ctl os h1 (Sleep 10)) # h1)
      else boot_loop os (retries + 1) h2 else (False, h))"
    by (subst boot_loop.simps) (auto simp: sys_prop_get_def sys_ctl_def Let_def v_def h1_def h2_def)
  have g: "grows waits_boot h h2" by (auto simp: h2_def h1_def waits_boot_def)
  have s: "sleeps h1 = sleeps h" "sleeps h2 = sleeps h + 1" by (simp_all add: h1_def h2_def)
  show ?case
  proof (cases "retries \<le> 300 \<and> v \<noteq> ''1''")
    case True
    then have "boot_loop os (retries + 1) h2 = (booted, h')" using less.prems unroll by simp
    then have "grows waits_boot h2 h' \<and> sleeps h' \<le> sleeps h2 + (301 - (retries + 1)) + 10 \<and>
        (\<not> booted \<longrightarrow> sleeps h' = sleeps h2 + (301 - (retries + 1)))"
      using True by (intro less.hyps) auto
    then show ?thesis using True s grows_trans [OF g, of h'] by auto
  next
    case False
    then show ?thesis
      using less.prems unroll s by (auto simp: h1_def waits_boot_def split: if_splits)
  qed
qed

end
