(* ===== verification/Pg_Block.thy ===== *)
theory Pg_Block
  imports Pg_Opt
begin

text \<open>
  Tuning of the block devices, \<^verbatim>\<open>src/sys/block.c\<close>.  The results of the single writes are
  ignored by the code and so by the model.  The lemmas show which scheduler is chosen and
  that the daemon writes to nothing but the queues of devices that are not virtual.
\<close>

section \<open>Devices and their queues\<close>

abbreviation (input) SYS_BLOCK :: string where "SYS_BLOCK \<equiv> ''/sys/block''"
abbreviation (input) Q_ROTATIONAL :: string where "Q_ROTATIONAL \<equiv> ''queue/rotational''"
abbreviation (input) Q_ADD_RANDOM :: string where "Q_ADD_RANDOM \<equiv> ''queue/add_random''"
abbreviation (input) Q_RQ_AFFINITY :: string where "Q_RQ_AFFINITY \<equiv> ''queue/rq_affinity''"
abbreviation (input) Q_SCHEDULER :: string where "Q_SCHEDULER \<equiv> ''queue/scheduler''"
abbreviation (input) Q_FB :: string where "Q_FB \<equiv> ''queue/iosched/fifo_batch''"
abbreviation (input) Q_WS :: string where "Q_WS \<equiv> ''queue/iosched/writes_starved''"
abbreviation (input) Q_FM :: string where "Q_FM \<equiv> ''queue/iosched/front_merges''"
abbreviation (input) Q_SI :: string where "Q_SI \<equiv> ''queue/iosched/slice_idle''"

definition IGNORED :: "string list" where "IGNORED = [''loop'', ''ram'', ''zram'', ''dm-'', ''md'']"
definition NVME :: "string list" where "NVME = [''kyber'', ''mq-deadline'', ''none'']"
definition UFS :: "string list" where "UFS = [''mq-deadline'', ''kyber'', ''deadline'', ''none'']"
definition EMMC :: "string list" where "EMMC = [''mq-deadline'', ''deadline'', ''noop'', ''none'']"
definition ROT :: "string list" where "ROT = [''bfq'', ''mq-deadline'', ''deadline'']"

definition check_ignored :: "string \<Rightarrow> bool" where
  "check_ignored name = list_ex (\<lambda>p. pg_str_has_prefix name p) IGNORED"

definition queue_path :: "string \<Rightarrow> string \<Rightarrow> string" where
  "queue_path name q = path_of 128 SYS_BLOCK name q"

definition check_rotational :: "os \<Rightarrow> string \<Rightarrow> hist \<Rightarrow> (bool \<times> hist) option" where
  "check_rotational os name h = do {
     (val, h) \<leftarrow> pg_sysfs_read_i32 os (queue_path name Q_ROTATIONAL) h;
     Some (val = Inr 1, h)
   }"

text \<open>One write whose result is ignored.\<close>

definition queue_write :: "os \<Rightarrow> string \<Rightarrow> string \<Rightarrow> string \<Rightarrow> hist \<Rightarrow> hist option" where
  "queue_write os name q val h = do {
     (ret, h) \<leftarrow> pg_sysfs_write os (queue_path name q) val h;
     Some h
   }"

definition set_queue :: "os \<Rightarrow> string \<Rightarrow> hist \<Rightarrow> hist option" where
  "set_queue os name h = do {
     h \<leftarrow> queue_write os name Q_ADD_RANDOM ''0'' h;
     queue_write os name Q_RQ_AFFINITY ''1'' h
   }"

section \<open>The scheduler\<close>

text \<open>\<open>Inl\<close> is the negated errno of the result, \<open>Inr\<close> the text in the buffer, which has 128 bytes.\<close>

definition read_sched :: "os \<Rightarrow> string \<Rightarrow> hist \<Rightarrow> ((int + string) \<times> hist) option" where
  "read_sched os name h =
     (case sys_open os (queue_path name Q_SCHEDULER) [O_RDONLY, O_CLOEXEC] h of
        (Inl err, h) \<Rightarrow> Some (Inl err, h)
      | (Inr fd, h) \<Rightarrow> do {
          (bytes, h) \<leftarrow> retry_eintr (sys_read os fd 127) h;
          let h = sys_close fd h;
          Some (case bytes of Inl err \<Rightarrow> Inl err | Inr buf \<Rightarrow> if buf = [] then Inl ENODATA else Inr (c_string buf), h)
        })"

definition sched_prio :: "bool \<Rightarrow> string \<Rightarrow> string list" where
  "sched_prio rotational name =
     (if rotational then ROT
      else if pg_str_has_prefix name ''nvme'' then NVME
      else if pg_str_has_prefix name ''mmcblk'' then EMMC
      else UFS)"

fun select_loop :: "string \<Rightarrow> string list \<Rightarrow> string option" where
  "select_loop avail [] = None"
| "select_loop avail (p # prio) = (if pg_str_contains avail p then Some p else select_loop avail prio)"

definition select_sched :: "os \<Rightarrow> string \<Rightarrow> string \<Rightarrow> hist \<Rightarrow> (string option \<times> hist) option" where
  "select_sched os name avail h = do {
     (rotational, h) \<leftarrow> check_rotational os name h;
     Some (select_loop avail (sched_prio rotational name), h)
   }"

definition set_sched :: "os \<Rightarrow> string \<Rightarrow> string \<Rightarrow> hist \<Rightarrow> hist option" where
  "set_sched os name sched h =
     (if sched = ''mq-deadline'' \<or> sched = ''deadline''
      then do {
        h \<leftarrow> queue_write os name Q_FB ''16'' h;
        h \<leftarrow> queue_write os name Q_WS ''2'' h;
        queue_write os name Q_FM ''1'' h
      }
      else if sched = ''bfq'' then queue_write os name Q_SI ''0'' h
      else Some h)"

definition apply_block_tweaks :: "os \<Rightarrow> string \<Rightarrow> hist \<Rightarrow> (int \<times> hist) option" where
  "apply_block_tweaks os name h = do {
     h \<leftarrow> set_queue os name h;
     (avail, h) \<leftarrow> read_sched os name h;
     case avail of
       Inl err \<Rightarrow> Some (- err, h)
     | Inr buf \<Rightarrow> do {
         (sched, h) \<leftarrow> select_sched os name buf h;
         case sched of
           None \<Rightarrow> Some (- ENOENT, h)
         | Some sched \<Rightarrow> do {
             (ret, h) \<leftarrow> pg_sysfs_write os (queue_path name Q_SCHEDULER) sched h;
             if ret < 0 then Some (ret, h)
             else do { h \<leftarrow> set_sched os name sched h; Some (0, h) }
           }
       }
   }"

definition block_body :: "os \<Rightarrow> string \<Rightarrow> unit \<Rightarrow> hist \<Rightarrow> (bool \<times> unit \<times> hist) option" where
  "block_body os name u h =
     (if name \<noteq> [] \<and> hd name = CHR ''.'' then Some (True, u, h)
      else if check_ignored name then Some (True, u, h)
      else do { (ret, h) \<leftarrow> apply_block_tweaks os name h; Some (True, u, h) })"

definition pg_block_tune :: "os \<Rightarrow> hist \<Rightarrow> (int \<times> hist) option" where
  "pg_block_tune os h =
     (case sys_opendir os SYS_BLOCK h of
        (Inl err, h) \<Rightarrow> Some (- err, h)
      | (Inr dir, h) \<Rightarrow> do {
          (u, h) \<leftarrow> readdir_loop os dir (block_body os) () h;
          Some (0, sys_closedir dir h)
        })"

section \<open>Which scheduler\<close>

text \<open>The line of the kernel: the names with blanks between them, the active one in brackets.\<close>

definition sched_sep :: "char \<Rightarrow> bool" where
  "sched_sep c \<longleftrightarrow> c \<in> {CHR '' '', CHR ''['', CHR '']'', newline}"

definition sched_word :: "string \<Rightarrow> string \<Rightarrow> string" where
  "sched_word active name = (if name = active then ''['' @ name @ ''] '' else name @ '' '')"

definition sched_line :: "string list \<Rightarrow> string \<Rightarrow> string" where
  "sched_line names active = concat (map (sched_word active) names) @ [newline]"

definition SCHEDS :: "string list" where
  "SCHEDS = [''none'', ''noop'', ''deadline'', ''mq-deadline'', ''kyber'', ''bfq'', ''cfq'']"

lemma sublist_sep:
  assumes "\<forall>c \<in> set p. \<not> sched_sep c" "p \<noteq> []" "sched_sep s"
  shows "sublist p (xs @ s # ys) \<longleftrightarrow> sublist p xs \<or> sublist p ys"
proof
  assume "sublist p (xs @ s # ys)"
  then consider "sublist p xs" | "sublist p (s # ys)" | p1 p2 where "p = p1 @ p2" "suffix p1 xs" "prefix p2 (s # ys)"
    by (auto simp: sublist_append)
  then show "sublist p xs \<or> sublist p ys"
  proof cases
    case 2
    moreover have "\<not> prefix p (s # ys)" using assms by (auto simp: prefix_Cons)
    ultimately show ?thesis by (simp add: sublist_Cons_right)
  next
    case 3
    then have "p2 = []" using assms(1,3) by (auto simp: prefix_Cons)
    then show ?thesis using 3 suffix_imp_sublist by auto
  qed simp
qed (auto simp: sublist_append sublist_Cons_right)

lemma sublist_word: "\<forall>c \<in> set p. \<not> sched_sep c \<Longrightarrow> p \<noteq> [] \<Longrightarrow>
    sublist p (sched_word active name @ ys) \<longleftrightarrow> sublist p name \<or> sublist p ys"
  using sublist_sep [of p "CHR '' ''" name ys] sublist_sep [of p "CHR ''[''" "[]" "name @ '']'' @ '' '' @ ys"]
    sublist_sep [of p "CHR '']''" name "'' '' @ ys"] sublist_sep [of p "CHR '' ''" "[]" ys]
  by (auto simp: sched_word_def sched_sep_def)

lemma sublist_line: "\<forall>c \<in> set p. \<not> sched_sep c \<Longrightarrow> p \<noteq> [] \<Longrightarrow>
    sublist p (sched_line names active) \<longleftrightarrow> (\<exists>n \<in> set names. sublist p n)"
proof (induction names)
  case Nil
  then show ?case using sublist_sep [of p newline "[]" "[]"] by (simp add: sched_line_def sched_sep_def)
next
  case (Cons n names)
  then show ?case using sublist_word [of p active n "sched_line names active"] by (simp add: sched_line_def)
qed

lemma scheds_sublist: "\<forall>p \<in> set SCHEDS. \<forall>n \<in> set SCHEDS.
    sublist p n = (p = n \<or> p = ''deadline'' \<and> n = ''mq-deadline'')"
  unfolding contains_iff [symmetric] by code_simp

lemma prio_scheds: "set (sched_prio r name) \<subseteq> set SCHEDS"
  by (auto simp: sched_prio_def SCHEDS_def NVME_def UFS_def EMMC_def ROT_def)

lemma scheds_plain: "\<forall>p \<in> set SCHEDS. p \<noteq> [] \<and> (\<forall>c \<in> set p. \<not> sched_sep c)"
  by (simp add: SCHEDS_def sched_sep_def)

lemma select_sched_spec:
  assumes os: "os_ok os" and n: "set names \<subseteq> set SCHEDS"
  shows "runs (select_sched os name (sched_line names active) h) (\<lambda>(r, h'). looks h h' \<and>
    (\<exists>rot. check_rotational os name h = Some (rot, h') \<and> r = find (\<lambda>p. p \<in> set names) (sched_prio rot name)))"
proof -
  have c: "pg_str_contains (sched_line names active) p \<longleftrightarrow> p \<in> set names \<or> p = ''deadline'' \<and> ''mq-deadline'' \<in> set names"
    if "p \<in> set SCHEDS" for p
    using that n scheds_plain scheds_sublist by (auto simp: sublist_line subset_iff)
  have sel: "select_loop (sched_line names active) (sched_prio rot name) = find (\<lambda>p. p \<in> set names) (sched_prio rot name)" for rot
    using c unfolding sched_prio_def SCHEDS_def NVME_def UFS_def EMMC_def ROT_def by (auto simp del: contains_iff)
  have "runs (check_rotational os name h) (\<lambda>(rot, h'). looks h h')"
    unfolding check_rotational_def by (auto intro!: runs_mono [OF read_i32_looks [OF os]])
  then show ?thesis
    by (auto simp: select_sched_def runs_iff sel)
qed

section \<open>What is written\<close>

text \<open>
  \<open>writes_at n P h\<close>: every write in the history, but for its oldest \<open>n\<close> events, went to a descriptor
  that was opened at a path allowed by \<open>P\<close>, which sees what had happened by then.
\<close>

fun writes_at :: "nat \<Rightarrow> (hist \<Rightarrow> string \<Rightarrow> bool) \<Rightarrow> hist \<Rightarrow> bool" where
  "writes_at n P [] = True"
| "writes_at n P (Pwrite fd b r # h) = ((n \<le> length h \<longrightarrow> (\<exists>p c. file_of fd h = Some (p, c) \<and> P h p)) \<and> writes_at n P h)"
| "writes_at n P (Write fd b r # h) = ((n \<le> length h \<longrightarrow> (\<exists>p c. file_of fd h = Some (p, c) \<and> P h p)) \<and> writes_at n P h)"
| "writes_at n P (e # h) = writes_at n P h"

lemma writes_at_old: "length h \<le> n \<Longrightarrow> writes_at n P h"
  by (induction n P h rule: writes_at.induct) auto

lemma writes_at_append: "writes_at n P h \<Longrightarrow> writes_at (length h) P (new @ h) \<Longrightarrow> writes_at n P (new @ h)"
proof (induction new)
  case (Cons e new)
  then show ?case by (cases "(n, P, e # new @ h)" rule: writes_at.cases) auto
qed simp

definition wrote :: "(hist \<Rightarrow> string \<Rightarrow> bool) \<Rightarrow> hist \<Rightarrow> hist \<Rightarrow> bool" where
  "wrote P h h' \<longleftrightarrow> keeps_files h h' \<and> writes_at (length h) P h' \<and> grows (\<lambda>e. changes e \<longrightarrow> writes e) h h' \<and> grows no_opendir h h'"

lemma wrote_refl [simp]: "wrote P h h"
  by (simp add: wrote_def writes_at_old)

lemma wrote_trans: "wrote P h h' \<Longrightarrow> wrote P h' h'' \<Longrightarrow> wrote P h h''"
proof -
  assume w: "wrote P h h'" "wrote P h' h''"
  then obtain new where "h'' = new @ h'" by (auto simp: wrote_def dest: keeps_files_new)
  then have "writes_at (length h) P h''" using w writes_at_append by (auto simp: wrote_def)
  then show ?thesis using w by (auto simp: wrote_def intro: keeps_files_trans grows_trans)
qed

lemma writes_at_other: "\<not> writes e \<Longrightarrow> writes_at n P (e # h) = writes_at n P h"
  by (cases "(n, P, e # h)" rule: writes_at.cases) auto

lemma wrote_Cons:
  "wrote P h h' \<Longrightarrow> idle e \<Longrightarrow> \<not> changes e \<Longrightarrow> no_opendir e \<Longrightarrow> (\<And>fd n r. e \<noteq> Read fd n r) \<Longrightarrow> wrote P h (e # h')"
  using changes_quiet [of e] writes_at_other [of e] by (auto simp: wrote_def quiet_def intro!: keeps_files_Cons)

text \<open>One write to a path, and one look at a file.\<close>

lemma sysfs_write_wrote:
  assumes os: "os_ok os" and P: "\<And>g. set h \<subseteq> set g \<Longrightarrow> P g path"
  shows "runs (pg_sysfs_write os path val h) (\<lambda>(ret, h'). wrote P h h')"
proof (cases "os_open os h path [O_WRONLY, O_CLOEXEC]")
  case (Inl err)
  then show ?thesis
    by (auto simp: pg_sysfs_write_def sys_open_def Let_def no_opendir_def intro!: wrote_Cons)
next
  case (Inr fd)
  note fresh = fresh_fd(1) [OF os Inr]
  define h1 where "h1 = Open path [O_WRONLY, O_CLOEXEC] (Inr fd) # h"
  have "wrote P h (Close fd # Pwrite fd b r # replicate k (Pwrite fd b r') @ h1)" for b r k r'
  proof -
    define evs where "evs = Pwrite fd b r # replicate k (Pwrite fd b r')"
    have ev: "\<forall>e \<in> set evs. \<exists>r. e = Pwrite fd b r" by (auto simp: evs_def)
    have ev2: "\<forall>e \<in> set evs. writes e \<and> no_opendir e" by (auto simp: evs_def no_opendir_def)
    from ev have f: "file_of fd (evs @ h1) = Some (path, [])" by (induction evs) (auto simp: h1_def)
    from ev have "writes_at (length h) P (evs @ h1)"
    proof (induction evs)
      case (Cons e evs)
      then have "file_of fd (evs @ h1) = Some (path, [])" by (induction evs) (auto simp: h1_def)
      moreover have "P (evs @ h1) path" by (rule P) (auto simp: h1_def)
      ultimately show ?case using Cons by auto
    qed (simp add: h1_def writes_at_old)
    moreover have "keeps_files h (Close fd # evs @ h1)"
      using ev unfolding h1_def
      by (intro keeps_files_bracket [OF fresh, of path "[O_WRONLY, O_CLOEXEC]"] keeps_others_append) auto
    moreover have "grows (\<lambda>e. changes e \<longrightarrow> writes e) h (Close fd # evs @ h1)" "grows no_opendir h (Close fd # evs @ h1)"
      using ev2 unfolding h1_def by (auto intro!: growsI [of _ "Close fd # evs @ [Open path [O_WRONLY, O_CLOEXEC] (Inr fd)]"] simp: no_opendir_def)
    ultimately show ?thesis by (simp add: wrote_def evs_def)
  qed
  then show ?thesis
    unfolding pg_sysfs_write_def sys_open_def Let_def Inr h1_def
    by (auto simp: sys_close_def intro!: runs_mono [OF retry_pwrite [OF os_okD(1) [OF os], of fd]])
qed

lemma wrote_read:
  assumes "fd \<notin> open_fds h"
  shows "wrote P h (Close fd # Read fd n r # replicate k (Read fd n r') @ Open p f (Inr fd) # h)"
proof -
  define evs where "evs = Read fd n r # replicate k (Read fd n r')"
  have ev: "\<forall>e \<in> set evs. \<exists>r. e = Read fd n r" by (auto simp: evs_def)
  have ev2: "\<forall>e \<in> set evs. \<not> changes e \<and> no_opendir e" by (auto simp: evs_def no_opendir_def)
  have w: "writes_at (length h) P (evs @ Open p f (Inr fd) # h)"
    using ev by (induction evs) (auto simp: writes_at_old)
  have "keeps_files h (Close fd # evs @ Open p f (Inr fd) # h)"
    using ev by (intro keeps_files_bracket [OF assms, of p f] keeps_others_append) auto
  moreover have "grows (\<lambda>e. changes e \<longrightarrow> writes e) h (Close fd # evs @ Open p f (Inr fd) # h)"
      "grows no_opendir h (Close fd # evs @ Open p f (Inr fd) # h)"
    using ev2 by (auto intro!: growsI [of _ "Close fd # evs @ [Open p f (Inr fd)]"] simp: no_opendir_def)
  ultimately show ?thesis using w by (simp add: wrote_def evs_def)
qed

section \<open>The tuning of one device and of all\<close>

definition QUEUES :: "string list" where
  "QUEUES = [Q_ADD_RANDOM, Q_RQ_AFFINITY, Q_SCHEDULER, Q_FB, Q_WS, Q_FM, Q_SI]"

text \<open>The paths that may be written: queue files of devices the directory listed that are not ignored.\<close>

definition device_queue :: "hist \<Rightarrow> string \<Rightarrow> bool" where
  "device_queue h p \<longleftrightarrow> (\<exists>d name q. Readdir d (Some name) \<in> set h \<and> \<not> check_ignored name \<and> q \<in> set QUEUES \<and> p = queue_path name q)"

definition device :: "string \<Rightarrow> hist \<Rightarrow> bool" where
  "device name h \<longleftrightarrow> (\<exists>d. Readdir d (Some name) \<in> set h) \<and> \<not> check_ignored name"

lemma wrote_set: "wrote P h h' \<Longrightarrow> set h \<subseteq> set h'"
  by (auto simp: wrote_def dest: keeps_files_new)

lemma device_mono: "device name h \<Longrightarrow> wrote P h h' \<Longrightarrow> device name h'"
  using wrote_set by (fastforce simp: device_def)

lemma sysfs_write_queue:
  assumes os: "os_ok os" and d: "device name h" and q: "q \<in> set QUEUES"
  shows "runs (pg_sysfs_write os (queue_path name q) val h) (\<lambda>(ret, h'). wrote device_queue h h' \<and> device name h')"
proof -
  have "runs (pg_sysfs_write os (queue_path name q) val h) (\<lambda>(ret, h'). wrote device_queue h h')"
    using d q by (intro sysfs_write_wrote [OF os]) (auto simp: device_queue_def device_def)
  then show ?thesis by (rule runs_mono) (auto intro: device_mono [OF d])
qed

lemma queue_write_spec:
  assumes "os_ok os" "device name h" "q \<in> set QUEUES"
  shows "runs (queue_write os name q val h) (\<lambda>h'. wrote device_queue h h' \<and> device name h')"
  unfolding queue_write_def by (auto intro!: runs_mono [OF sysfs_write_queue [OF assms]])

lemma queues [simp]: "Q_ADD_RANDOM \<in> set QUEUES" "Q_RQ_AFFINITY \<in> set QUEUES" "Q_SCHEDULER \<in> set QUEUES"
  "Q_FB \<in> set QUEUES" "Q_WS \<in> set QUEUES" "Q_FM \<in> set QUEUES" "Q_SI \<in> set QUEUES"
  by (simp_all add: QUEUES_def)

lemma set_queue_spec:
  assumes os: "os_ok os" and d: "device name h"
  shows "runs (set_queue os name h) (\<lambda>h'. wrote device_queue h h' \<and> device name h')"
  unfolding set_queue_def
  by (auto intro!: runs_mono [OF queue_write_spec [OF os]] d intro: wrote_trans)

lemma set_sched_spec:
  assumes os: "os_ok os" and d: "device name h"
  shows "runs (set_sched os name sched h) (\<lambda>h'. wrote device_queue h h' \<and> device name h')"
  unfolding set_sched_def
  by (auto intro!: runs_mono [OF queue_write_spec [OF os]] d intro: wrote_trans)

lemma read_sched_spec:
  assumes os: "os_ok os" and d: "device name h"
  shows "runs (read_sched os name h) (\<lambda>(r, h'). wrote device_queue h h' \<and> device name h' \<and> (\<forall>err. r = Inl err \<longrightarrow> 0 < err))"
proof (cases "os_open os h (queue_path name Q_SCHEDULER) [O_RDONLY, O_CLOEXEC]")
  case (Inl err)
  have "0 < err" using os_okD(5) [OF os] Inl by (auto simp: errno_ok_def)
  moreover have "wrote device_queue h (Open (queue_path name Q_SCHEDULER) [O_RDONLY, O_CLOEXEC] (Inl err) # h)"
    by (intro wrote_Cons) (auto simp: no_opendir_def)
  ultimately show ?thesis using Inl device_mono [OF d]
    by (auto simp: read_sched_def sys_open_def Let_def)
next
  case (Inr fd)
  have e: "0 < err" if "os_read os h' fd n = Inl err" for h' n err
    using os_okD(5) [OF os] that by (auto simp: errno_ok_def)
  have w: "wrote device_queue h (Close fd # Read fd n r # replicate k (Read fd n r') @ Open p f (Inr fd) # h)" for n r k r' p f
    by (rule wrote_read [OF fresh_fd(1) [OF os Inr]])
  show ?thesis
    using w device_mono [OF d w] e unfolding read_sched_def sys_open_def Let_def Inr
    by (auto simp: sys_close_def split: sum.splits intro!: runs_mono [OF retry_read [OF os_okD(1) [OF os], of fd]])
qed

lemma rotational_spec:
  assumes os: "os_ok os" and d: "device name h"
  shows "runs (check_rotational os name h) (\<lambda>(r, h'). wrote device_queue h h' \<and> device name h')"
proof (cases "os_open os h (queue_path name Q_ROTATIONAL) [O_RDONLY, O_CLOEXEC]")
  case (Inl err)
  have "wrote device_queue h (Open (queue_path name Q_ROTATIONAL) [O_RDONLY, O_CLOEXEC] (Inl err) # h)"
    by (intro wrote_Cons) (auto simp: no_opendir_def)
  then show ?thesis using Inl device_mono [OF d]
    by (auto simp: check_rotational_def pg_sysfs_read_i32_def sys_open_def Let_def)
next
  case (Inr fd)
  have w: "wrote device_queue h (Close fd # Read fd n r # replicate k (Read fd n r') @ Open p f (Inr fd) # h)" for n r k r' p f
    by (rule wrote_read [OF fresh_fd(1) [OF os Inr]])
  show ?thesis
    using w device_mono [OF d w] unfolding check_rotational_def pg_sysfs_read_i32_def sys_open_def Let_def Inr
    by (auto simp: sys_close_def split: sum.splits prod.splits intro!: runs_mono [OF retry_read [OF os_okD(1) [OF os], of fd]])
qed

lemma tweaks_spec:
  assumes os: "os_ok os" and d: "device name h"
  shows "runs (apply_block_tweaks os name h) (\<lambda>(ret, h'). wrote device_queue h h' \<and> ret \<le> 0)"
proof -
  have sel: "runs (select_sched os name buf g) (\<lambda>(r, h'). wrote device_queue g h' \<and> device name h')" if "device name g" for buf g
    unfolding select_sched_def using rotational_spec [OF os that] by (auto elim!: runs_mono)
  show ?thesis
    unfolding apply_block_tweaks_def
    by (auto intro!: runs_mono [OF set_queue_spec [OF os d]] runs_mono [OF read_sched_spec [OF os]] runs_mono [OF sel]
        runs_mono [OF sysfs_write_queue [OF os]] runs_mono [OF set_sched_spec [OF os]] split: sum.split option.split
        intro: less_imp_le) (blast intro: wrote_trans)+
qed

lemma block_body_spec:
  assumes os: "os_ok os" and r: "Readdir d (Some name) \<in> set h"
  shows "runs (block_body os name u h) (\<lambda>(go_on, u', h'). go_on \<and> wrote device_queue h h')"
  using r unfolding block_body_def by (auto simp: device_def intro!: runs_mono [OF tweaks_spec [OF os]])

lemma block_tune_spec:
  assumes os: "os_ok os"
  shows "runs (pg_block_tune os h) (\<lambda>(ret, h'). ret \<le> 0 \<and> open_fds h' = open_fds h \<and> keeps_files h h' \<and>
    writes_at (length h) device_queue h' \<and> grows (\<lambda>e. changes e \<longrightarrow> writes e) h h')"
proof (cases "os_opendir os h SYS_BLOCK")
  case (Inl err)
  then have "0 < err" using os_okD(5) [OF os] by (auto simp: errno_ok_def)
  then show ?thesis using Inl by (auto simp: pg_block_tune_def sys_opendir_def Let_def writes_at_old intro: keeps_files_Cons)
next
  case (Inr dir)
  let ?g = "Opendir SYS_BLOCK (Inr dir) # h"
  have loop: "runs (readdir_loop os dir (block_body os) () ?g) (\<lambda>(u, h'). True \<and> wrote device_queue ?g h' \<and> grows no_opendir ?g h')"
  proof (rule readdir_loop_spec [OF os, where ok = "\<lambda>_ _. True"])
    fix name u h
    show "runs (block_body os name u (Readdir dir (Some name) # h)) (\<lambda>(go_on, u', h'). (if go_on then True else True) \<and>
        wrote device_queue (Readdir dir (Some name) # h) h' \<and> grows no_opendir (Readdir dir (Some name) # h) h')"
      by (rule runs_mono [OF block_body_spec [OF os, of dir]]) (auto simp: wrote_def)
  qed (auto intro: wrote_trans wrote_Cons simp: no_opendir_def)
  have fin: "keeps_files h (Closedir dir # h')" "open_fds h' = open_fds h"
    "writes_at (length h) device_queue h'" "grows (\<lambda>e. changes e \<longrightarrow> writes e) h (Closedir dir # h')" if w: "wrote device_queue ?g h'" for h'
  proof -
    have "keeps_files ?g h'" using w by (simp add: wrote_def)
    from keeps_files_trans [OF keeps_files_Cons [OF keeps_files_refl] this] have k: "keeps_files h h'" by simp
    then show "keeps_files h (Closedir dir # h')" by (intro keeps_files_Cons) auto
    show "open_fds h' = open_fds h" using k by (simp add: keeps_files_def)
    obtain new where "h' = new @ ?g" using w by (auto simp: wrote_def dest: keeps_files_new)
    then show "writes_at (length h) device_queue h'"
      using w writes_at_append [of "length h" device_queue ?g new] by (simp add: wrote_def writes_at_old)
    show "grows (\<lambda>e. changes e \<longrightarrow> writes e) h (Closedir dir # h')"
      using w by (intro grows_Cons grows_trans [of _ h ?g h']) (auto simp: wrote_def)
  qed
  show ?thesis
    unfolding pg_block_tune_def sys_opendir_def Let_def Inr sys_closedir_def
    by (auto intro!: runs_mono [OF loop] simp: fin)
qed

section \<open>Properties\<close>





end
