(* ===== verification/Pg_Proc.thy ===== *)
theory Pg_Proc
  imports Pg_Task
begin

text \<open>
  The environment of the process: the privilege and pressure checks of \<^verbatim>\<open>src/sys/detect.c\<close>, the lock
  file of \<^verbatim>\<open>src/sys/lockfile.c\<close>, memory and limits (\<^verbatim>\<open>src/sys/memory.c\<close>, \<^verbatim>\<open>src/sys/rlimit.c\<close>) and
  the signals of \<^verbatim>\<open>src/sys/signal.c\<close>.  The static variables of the last form a record; what the kernel
  hands back as an earlier action of a signal is an identifier, and what it stands for is a
  parameter of the crash handler.  The lemmas say which descriptors and files each function touches.
\<close>

abbreviation (input) EAGAIN :: int where "EAGAIN \<equiv> 11"

section \<open>Checks\<close>

definition pg_detect_cpu_psi :: "os \<Rightarrow> hist \<Rightarrow> bool \<times> hist" where
  "pg_detect_cpu_psi os h = (let (r, h) = sys_ctl os (Access ''/proc/pressure/cpu'') h in (r = Inr 0, h))"

definition pg_detect_privilege :: "os \<Rightarrow> hist \<Rightarrow> int \<times> hist" where
  "pg_detect_privilege os h = (let (r, h) = sys_ctl os Getuid h in (if r \<noteq> Inr 0 then - EPERM else 0, h))"

section \<open>The lock file\<close>

definition pg_lockfile_init :: "os \<Rightarrow> string \<Rightarrow> hist \<Rightarrow> int \<times> hist" where
  "pg_lockfile_init os path h =
     (case sys_open os path [O_CREAT, O_RDWR, O_CLOEXEC] h of
        (Inl err, h) \<Rightarrow> (- err, h)
      | (Inr fd, h) \<Rightarrow>
          (case sys_ctl os (Flock fd) h of
             (Inl err, h) \<Rightarrow> (- EAGAIN, sys_close fd h)
           | (Inr _, h) \<Rightarrow> (fd, h)))"

definition pg_lockfile_close :: "int \<Rightarrow> hist \<Rightarrow> hist" where
  "pg_lockfile_close fd h = (if 0 \<le> fd then sys_close fd h else h)"

section \<open>Memory and limits\<close>

text \<open>The argument of \<open>Mlockall\<close> says whether \<^verbatim>\<open>MCL_ONFAULT\<close> is among the flags.\<close>

definition pg_memory_lock :: "os \<Rightarrow> hist \<Rightarrow> hist" where
  "pg_memory_lock os h =
     (let (r, h) = sys_ctl os (Mlockall True) h
      in if r = Inr 0 then h else snd (sys_ctl os (Mlockall False) h))"

definition pg_memory_shield :: "os \<Rightarrow> hist \<Rightarrow> hist option" where
  "pg_memory_shield os h =
     (case sys_open os ''/proc/self/oom_score_adj'' [O_WRONLY, O_CLOEXEC] h of
        (Inl err, h) \<Rightarrow> Some h
      | (Inr fd, h) \<Rightarrow> do {
          (sz, h) \<leftarrow> retry_eintr (sys_write os fd (''-1000'' @ [newline])) h;
          Some (sys_close fd h)
        })"

definition pg_rlimit_set_max_fd :: "os \<Rightarrow> hist \<Rightarrow> int \<times> hist" where
  "pg_rlimit_set_max_fd os h =
     (case sys_ctl os (Getrlimit RLIMIT_NOFILE) h of
        (Inl err, h) \<Rightarrow> (- err, h)
      | (Inr hard, h) \<Rightarrow> ctl_status os (Setrlimit RLIMIT_NOFILE (word_of_int hard) (word_of_int hard)) h)"

abbreviation (input) RLIM_INFINITY :: u64 where "RLIM_INFINITY \<equiv> - 1"

definition pg_rlimit_set_stack :: "os \<Rightarrow> u64 \<Rightarrow> hist \<Rightarrow> int \<times> hist" where
  "pg_rlimit_set_stack os bytes h =
     (case sys_ctl os (Getrlimit RLIMIT_STACK) h of
        (Inl err, h) \<Rightarrow> (- err, h)
      | (Inr hard, h) \<Rightarrow>
          let rlim_max = word_of_int hard :: u64;
              target = (if rlim_max \<noteq> RLIM_INFINITY \<and> rlim_max < bytes then rlim_max else bytes)
          in ctl_status os (Setrlimit RLIMIT_STACK target rlim_max) h)"

section \<open>Signals\<close>

definition pg_signal_init :: "os \<Rightarrow> hist \<Rightarrow> int \<times> hist" where
  "pg_signal_init os h =
     (case sys_ctl os Block_signals h of
        (Inl err, h) \<Rightarrow> (- err, h)
      | (Inr _, h) \<Rightarrow>
          (case sys_ctl os Signalfd h of
             (Inl err, h) \<Rightarrow> (- err, snd (sys_ctl os Unblock_signals h))
           | (Inr sfd, h) \<Rightarrow> (sfd, h)))"

definition pg_signal_close :: "int \<Rightarrow> hist \<Rightarrow> hist" where
  "pg_signal_close fd h = (if 0 \<le> fd then sys_close fd h else h)"

definition CRASH_SIGS :: "int list" where
  "CRASH_SIGS = [11, 8, 6, 4]"

text \<open>
  \<open>None\<close> for an earlier action is the zeroed one, the default; the hook is a function pointer to the
  one function the daemon passes.
\<close>

datatype pg_crash_hook = Crash_restore

record pg_signal_state =
  prev_act :: "int option list"
  crash_hook :: "pg_crash_hook option"

fun catch_loop :: "os \<Rightarrow> int list \<Rightarrow> int option list \<Rightarrow> hist \<Rightarrow> int option list \<times> hist" where
  "catch_loop os (sig # sigs) (p # prev) h =
     (let (r, h) = sys_ctl os (Sigaction sig) h;
          (prev, h) = catch_loop os sigs prev h
      in ((case r of Inl err \<Rightarrow> p | Inr old \<Rightarrow> Some old) # prev, h))"
| "catch_loop os sigs prev h = (prev, h)"

definition pg_signal_catch_crash :: "os \<Rightarrow> pg_crash_hook \<Rightarrow> pg_signal_state \<Rightarrow> hist \<Rightarrow> pg_signal_state \<times> hist" where
  "pg_signal_catch_crash os hook st h =
     (let (prev, h) = catch_loop os CRASH_SIGS (prev_act st) h
      in (\<lparr>prev_act = prev, crash_hook = Some hook\<rparr>, h))"

datatype old_action =
    Old_siginfo "(int \<Rightarrow> hist \<Rightarrow> hist option) option"
  | Old_handler "int \<Rightarrow> hist \<Rightarrow> hist option"
  | Old_default
  | Old_ignore

text \<open>The loop that finds the earlier action of the signal and calls it.\<close>

fun chain_loop :: "(int \<Rightarrow> old_action) \<Rightarrow> int list \<Rightarrow> int option list \<Rightarrow> int \<Rightarrow> hist \<Rightarrow> hist option" where
  "chain_loop old (s # sigs) (p # prev) sig h =
     (if s \<noteq> sig then chain_loop old sigs prev sig h
      else case p of
             None \<Rightarrow> Some h
           | Some i \<Rightarrow>
               (case old i of
                  Old_siginfo f \<Rightarrow> (case f of Some f \<Rightarrow> f sig h | None \<Rightarrow> Some h)
                | Old_handler f \<Rightarrow> f sig h
                | Old_default \<Rightarrow> Some h
                | Old_ignore \<Rightarrow> Some h))"
| "chain_loop old sigs prev sig h = Some h"

definition pg_crash_handler ::
    "os \<Rightarrow> (int \<Rightarrow> old_action) \<Rightarrow> (pg_crash_hook \<Rightarrow> hist \<Rightarrow> hist) \<Rightarrow> int \<Rightarrow> pg_signal_state \<Rightarrow> hist \<Rightarrow> (pg_signal_state \<times> hist) option" where
  "pg_crash_handler os old run sig st h = do {
     let h = snd (sys_write os 2 ([newline] @ ''[PGOV] fatal: daemon crashed'' @ [newline]) h);
     let hook = crash_hook st;
     let st = st\<lparr>crash_hook := None\<rparr>;
     let h = (case hook of Some f \<Rightarrow> run f h | None \<Rightarrow> h);
     h \<leftarrow> chain_loop old CRASH_SIGS (prev_act st) sig h;
     let h = snd (sys_ctl os (Signal_default sig) h);
     let h = snd (sys_ctl os (Raise sig) h);
     Some (st, h)
   }"

section \<open>What they touch\<close>

text \<open>Requests about the process only.\<close>

definition requests :: "event \<Rightarrow> bool" where
  "requests e \<longleftrightarrow> (\<exists>c r. e = Ctl c r \<and> c \<noteq> Signalfd \<and> (\<forall>n v. c \<noteq> Prop_set n v))"

lemma requests_Ctl [simp]: "requests (Ctl c r) \<longleftrightarrow> c \<noteq> Signalfd \<and> (\<forall>n v. c \<noteq> Prop_set n v)"
  by (auto simp: requests_def)

lemma detect_looks: "looks h (snd (pg_detect_cpu_psi os h))" "looks h (snd (pg_detect_privilege os h))"
  by (auto simp: pg_detect_cpu_psi_def pg_detect_privilege_def sys_ctl_def Let_def intro: looks_Cons)

lemma privilege_result: "fst (pg_detect_privilege os h) \<le> 0"
  by (simp add: pg_detect_privilege_def split: prod.splits)

lemma memory_lock_requests: "grows requests h (pg_memory_lock os h)"
  by (auto simp: pg_memory_lock_def sys_ctl_def Let_def)

lemma rlimit_requests: "grows requests h (snd (pg_rlimit_set_max_fd os h))" "grows requests h (snd (pg_rlimit_set_stack os b h))"
  by (auto simp: pg_rlimit_set_max_fd_def pg_rlimit_set_stack_def sys_ctl_def ctl_status_def Let_def split: sum.split)

lemma catch_loop_requests: "grows requests h (snd (catch_loop os sigs prev h))"
proof (induction os sigs prev h rule: catch_loop.induct)
  case (1 os sig sigs p prev h)
  let ?h = "Ctl (Sigaction sig) (os_ctl os h (Sigaction sig)) # h"
  have "grows requests ?h (snd (catch_loop os sigs prev ?h))" using 1 by (simp add: sys_ctl_def Let_def)
  then have "grows requests h (snd (catch_loop os sigs prev ?h))" by (rule grows_trans [rotated]) simp
  then show ?case by (simp add: sys_ctl_def Let_def case_prod_unfold)
qed auto

lemma catch_crash_requests: "grows requests h (snd (pg_signal_catch_crash os hook st h))"
  using catch_loop_requests [of h os CRASH_SIGS "prev_act st"] by (simp add: pg_signal_catch_crash_def case_prod_unfold Let_def)

text \<open>The lock file stays open if and only if its descriptor is the result.\<close>

lemma lockfile_spec:
  assumes os: "os_ok os"
  shows "case pg_lockfile_init os path h of (r, h') \<Rightarrow> grows quiet h h' \<and>
    (if r < 0 then open_fds h' = open_fds h else r \<notin> open_fds h \<and> open_fds h' = insert r (open_fds h))"
proof (cases "os_open os h path [O_CREAT, O_RDWR, O_CLOEXEC]")
  case (Inl err)
  then have "0 < err" using os_okD(5) [OF os] by (auto simp: errno_ok_def)
  then show ?thesis using Inl by (auto simp: pg_lockfile_init_def sys_open_def Let_def)
next
  case (Inr fd)
  note fresh = fresh_fd(1,3) [OF os Inr]
  show ?thesis
    using fresh by (auto simp: pg_lockfile_init_def sys_open_def sys_ctl_def sys_close_def Inr Let_def intro!: grows_Cons split: sum.splits)
qed

text \<open>The signal descriptor, likewise; it comes from the one call that opens it.\<close>

lemma signal_init_spec:
  assumes os: "os_ok os"
  shows "case pg_signal_init os h of (r, h') \<Rightarrow> grows quiet h h' \<and>
    (if r < 0 then open_fds h' = open_fds h
     else r \<notin> open_fds h \<and> open_fds h' = insert r (open_fds h) \<and> (\<exists>g. h' = Ctl Signalfd (Inr r) # g))"
proof -
  have neg: "0 < e" if "os_ctl os g c = Inl e" for g c e
    using os_okD(5) [OF os] that by (auto simp: errno_ok_def)
  have fresh: "0 \<le> fd \<and> fd \<notin> open_fds g" if "os_ctl os g Signalfd = Inr fd" for g fd
    using os_okD(3) [OF os] that by (simp add: fds_valid_def)
  have fresh2: "0 \<le> fd \<and> fd \<notin> open_fds h" if "os_ctl os (Ctl Block_signals r # h) Signalfd = Inr fd" for r fd
    using fresh [OF that] by simp
  have fresh3: "\<not> fd < 0" if "os_ctl os (Ctl Block_signals r # h) Signalfd = Inr fd" for r fd
    using fresh2 [OF that] by simp
  show ?thesis
    using neg fresh2 fresh3 by (auto simp: pg_signal_init_def sys_ctl_def Let_def intro!: grows_Cons split: sum.splits)
qed

text \<open>The score of the process is written through a descriptor of its own.\<close>

lemma memory_shield_spec:
  assumes os: "os_ok os"
  shows "runs (pg_memory_shield os h) (\<lambda>h'. balanced h h' \<and> grows (\<lambda>e. \<not> sets_prop e \<and> (\<forall>fd b r. e \<noteq> Pwrite fd b r)) h h')"
proof (cases "os_open os h ''/proc/self/oom_score_adj'' [O_WRONLY, O_CLOEXEC]")
  case (Inl err)
  then show ?thesis by (auto simp: pg_memory_shield_def sys_open_def Let_def)
next
  case (Inr fd)
  have b: "balanced h (Close fd # Write fd b r # replicate k (Write fd b r') @ Open p f (Inr fd) # h)" for b r k r' p f
    by (rule balanced_open [OF fresh_fd(1) [OF os Inr]], rule balanced_Cons [OF balanced_append]) auto
  have g: "grows (\<lambda>e. \<not> sets_prop e \<and> (\<forall>fd b r. e \<noteq> Pwrite fd b r)) h
      (Close fd # Write fd b r # replicate k (Write fd b r') @ Open p f (Inr fd) # h)" for b r k r' p f
    by (intro grows_Cons growsI [of _ "replicate k (Write fd b r') @ [Open p f (Inr fd)]"]) auto
  show ?thesis
    unfolding pg_memory_shield_def sys_open_def Let_def Inr
    using b g by (auto simp: sys_close_def intro!: runs_mono [OF retry_write [OF os_okD(1) [OF os], of fd]])
qed

section \<open>A crash\<close>

text \<open>What the earlier handlers are relied upon for: they return.\<close>

definition returns :: "(int \<Rightarrow> old_action) \<Rightarrow> bool" where
  "returns old \<longleftrightarrow> (\<forall>i f sig h. old i = Old_siginfo (Some f) \<or> old i = Old_handler f \<longrightarrow> runs (f sig h) (\<lambda>h'. \<exists>new. h' = new @ h))"

lemma chain_loop_runs: "returns old \<Longrightarrow> runs (chain_loop old sigs prev sig h) (\<lambda>h'. \<exists>new. h' = new @ h)"
proof (induction old sigs prev sig h rule: chain_loop.induct)
  case (1 old s sigs p prev sig h)
  then show ?case
    by (auto simp: returns_def split: option.splits old_action.splits)
qed auto

lemma crash_handler_spec:
  assumes "returns old"
  shows "runs (pg_crash_handler os old run sig st h) (\<lambda>(st', h'). st' = st\<lparr>crash_hook := None\<rparr> \<and> (\<exists>msg r new r1 r2.
    h' = Ctl (Raise sig) r2 # Ctl (Signal_default sig) r1 # new @
      (case crash_hook st of Some f \<Rightarrow> run f (Write 2 msg r # h) | None \<Rightarrow> Write 2 msg r # h)))"
  unfolding pg_crash_handler_def sys_write_def sys_ctl_def Let_def snd_conv runs_simps
  by (rule runs_mono [OF chain_loop_runs [OF assms]]) auto

end
