(* ===== verification/Pg_Daemon.thy ===== *)
theory Pg_Daemon
  imports Pg_Loop Pg_Block Pg_Tune Pg_Scan Pg_Proc
begin

text \<open>
  The life cycle of the daemon, \<^verbatim>\<open>src/core/daemon.c\<close>, in the NDK build: set-up, the reactor and the
  clean-up that every path ends with, and what a crash does.  The static variables of the program
  form one record.  The table of the crash hook is the list of the entries it was given and the
  number of those in use.  The lemmas follow the descriptors and the scheduler nodes from start to end.
\<close>

abbreviation (input) PG_PATH_LOCK :: string where "PG_PATH_LOCK \<equiv> ''/data/local/tmp/pgovd.lock''"
abbreviation (input) PG_PATH_LOG :: string where "PG_PATH_LOG \<equiv> ''/data/adb/modules/pgovd/pgovd.log''"
abbreviation (input) PG_PATH_BATTERY_TEMP :: string where "PG_PATH_BATTERY_TEMP \<equiv> ''/sys/class/power_supply/battery/temp''"
abbreviation (input) PG_PATH_BATTERY_CAP :: string where "PG_PATH_BATTERY_CAP \<equiv> ''/sys/class/power_supply/battery/capacity''"

section \<open>The static variables\<close>

record pg_daemon =
  dm_context :: pg_context
  rs_tbl :: "(int \<times> u64) list"
  rs_cnt :: nat
  dm_signal :: pg_signal_state
  dm_props :: "pg_prop_state list"
  dm_tables :: pg_tables

definition zero_filter :: pg_kalman_state where
  "zero_filter = \<lparr>x_pos = 0, x_vel = 0, p00 = 0, p01 = 0, p10 = 0, p11 = 0, q_vel = 0, r_meas = 0, cov_y = 0, nis = 0, first_run = False\<rparr>"

definition zero_cache :: pg_sysfs_cache where
  "zero_cache = \<lparr>sc_last = 0, sc_fd = 0, sc_base = 0, sc_retry_ms = 0, sc_fails = 0, sc_has_base = False, sc_active = False\<rparr>"

definition zero_context :: pg_context where
  "zero_context = \<lparr>psi = \<lparr>mon_fd = 0, last_read_ts = Timespec 0 0, last_tot = 0, mon_first_run = False, mon_filter = zero_filter\<rparr>,
     cpu_temp_sensor = \<lparr>ts_fd = 0, ts_scale = 0\<rparr>, bat_temp_sensor = \<lparr>ts_fd = 0, ts_scale = 0\<rparr>, bat_cap_sensor = \<lparr>bs_fd = 0\<rparr>,
     bl_sensor = \<lparr>bl_fd = replicate PG_BL_MAX 0, bl_n = 0\<rparr>,
     sched_lat = zero_cache, sched_gran = zero_cache, sched_wake = zero_cache, sched_mig = zero_cache, sched_walt = zero_cache,
     sched_ucl = zero_cache,
     thermal_state = \<lparr>th_last_tick = Timespec 0 0, integ = 0, prev_sat = 0, sat_count = 0, th_filter = zero_filter\<rparr>,
     load_state = \<lparr>psi_val = 0, rate = 0, psi_ref = 0, prev_integ = 0, load_first_run = False,
       eff = \<lparr>resp_gain = 0, surge_gain = 0, trend_amp = 0, lookahead = 0, eff_decay = 0, sig_mid = 0, ucl_mid = 0, stab_rat = 0,
         gain_alpha = 0, nis_thresh = 0\<rparr>\<rparr>,
     poll_state = \<lparr>cur_ivl = 0, last_wait = 0, poll_last_tick = Timespec 0 0, rng_state = 0\<rparr>,
     disp_state = PG_DISP_UNKNOWN, bat_lvl = 0, bat_temp = 0, cached_th_scl = 0, last_bat = Timespec 0 0, last_therm = Timespec 0 0,
     last_tick = Timespec 0 0, last_dispoff = Timespec 0 0, last_disp = Timespec 0 0, last_sweep = Timespec 0 0,
     epoll_fd = 0, sig_fd = 0, trg_fd = 0, lock_fd = 0, next_wake = 0, psi_fails = 0, temp_fails = 0, remap_due = False,
     dormant = False, shutdown_req = False, on_trigger = None, on_timeout = None\<rparr>"

definition daemon_start :: pg_daemon where
  "daemon_start = \<lparr>dm_context = zero_context, rs_tbl = [], rs_cnt = 0,
     dm_signal = \<lparr>prev_act = replicate 4 None, crash_hook = None\<rparr>, dm_props = [],
     dm_tables = \<lparr>t_lim = LIM_CPU, t_cpu = CFG_CPU, t_thermal = CFG_THERMAL\<rparr>\<rparr>"

section \<open>The snapshot of the nodes\<close>

definition CAND_LAT :: "string list" where
  "CAND_LAT = [''/proc/sys/kernel/sched_latency_ns'', ''/sys/kernel/debug/sched/latency_ns'']"
definition CAND_GRAN :: "string list" where
  "CAND_GRAN = [''/proc/sys/kernel/sched_min_granularity_ns'', ''/sys/kernel/debug/sched/min_granularity_ns'']"
definition CAND_WAKE :: "string list" where
  "CAND_WAKE = [''/proc/sys/kernel/sched_wakeup_granularity_ns'', ''/sys/kernel/debug/sched/wakeup_granularity_ns'']"
definition CAND_MIG :: "string list" where
  "CAND_MIG = [''/proc/sys/kernel/sched_migration_cost_ns'', ''/sys/kernel/debug/sched/migration_cost_ns'']"
definition CAND_WALT :: "string list" where
  "CAND_WALT = [''/proc/sys/kernel/sched_walt_init_task_load_pct'']"
definition CAND_UCL :: "string list" where
  "CAND_UCL = [''/proc/sys/kernel/sched_uclamp_util_min'']"

fun snapshot_loop :: "pg_sysfs_cache list \<Rightarrow> (int \<times> u64) list" where
  "snapshot_loop [] = []"
| "snapshot_loop (c # cs) =
     (if \<not> sc_active c \<or> \<not> sc_has_base c then snapshot_loop cs
      else (sc_fd c, ucast (sc_base c)) # snapshot_loop cs)"

definition restore_snapshot :: "pg_context \<Rightarrow> pg_daemon \<Rightarrow> pg_daemon" where
  "restore_snapshot ctx st = (let tbl = snapshot_loop (nodes ctx) in st\<lparr>rs_tbl := tbl, rs_cnt := length tbl\<rparr>)"

fun crash_restore_loop :: "os \<Rightarrow> (int \<times> u64) list \<Rightarrow> hist \<Rightarrow> hist" where
  "crash_restore_loop os [] h = h"
| "crash_restore_loop os ((fd, base) # tbl) h =
     (let buf = pg_fmt_u64 base; (unused, h) = sys_pwrite os fd buf h in crash_restore_loop os tbl h)"

definition crash_restore :: "os \<Rightarrow> pg_daemon \<Rightarrow> hist \<Rightarrow> hist" where
  "crash_restore os st h = crash_restore_loop os (take (rs_cnt st) (rs_tbl st)) h"

definition restore_all :: "os \<Rightarrow> pg_daemon \<Rightarrow> hist \<Rightarrow> (pg_daemon \<times> hist) option" where
  "restore_all os st h = do {
     let ctx = dm_context st;
     (c, h) \<leftarrow> pg_sysfs_restore os (sched_lat ctx) h;
     let ctx = ctx\<lparr>sched_lat := c\<rparr>;
     (c, h) \<leftarrow> pg_sysfs_restore os (sched_gran ctx) h;
     let ctx = ctx\<lparr>sched_gran := c\<rparr>;
     (c, h) \<leftarrow> pg_sysfs_restore os (sched_wake ctx) h;
     let ctx = ctx\<lparr>sched_wake := c\<rparr>;
     (c, h) \<leftarrow> pg_sysfs_restore os (sched_mig ctx) h;
     let ctx = ctx\<lparr>sched_mig := c\<rparr>;
     (c, h) \<leftarrow> pg_sysfs_restore os (sched_walt ctx) h;
     let ctx = ctx\<lparr>sched_walt := c\<rparr>;
     (c, h) \<leftarrow> pg_sysfs_restore os (sched_ucl ctx) h;
     let ctx = ctx\<lparr>sched_ucl := c\<rparr>;
     Some (st\<lparr>dm_context := ctx, rs_cnt := 0\<rparr>, h)
   }"

section \<open>Starting\<close>

definition open_log :: "os \<Rightarrow> hist \<Rightarrow> hist" where
  "open_log os h =
     (case sys_open os PG_PATH_LOG [O_CREAT, O_WRONLY, O_APPEND, O_CLOEXEC] h of
        (Inl err, h) \<Rightarrow> h
      | (Inr fd, h) \<Rightarrow> sys_close fd (snd (sys_ctl os (Dup2 fd 2) h)))"

definition init_os_environment :: "os \<Rightarrow> pg_signal_state \<Rightarrow> hist \<Rightarrow> (pg_signal_state \<times> hist) option" where
  "init_os_environment os sig h = do {
     let h = open_log os h;
     let (sig, h) = pg_signal_catch_crash os Crash_restore sig h;
     h \<leftarrow> pg_memory_shield os h;
     let h = pg_memory_lock os h;
     let h = snd (pg_rlimit_set_max_fd os h);
     let h = snd (pg_rlimit_set_stack os (512 * 1024) h);
     (ret, h) \<leftarrow> pg_task_set_core_efficiency os h;
     let h = snd (pg_task_set_rt_prio os 50 h);
     let h = snd (pg_task_set_timer_slack os (50 * 1000 * 1000) h);
     let h = snd (pg_task_set_uclamp os 102 h);
     let h = snd (pg_task_set_io_prio os 2 0 h);
     Some (sig, h)
   }"

definition init_context_defaults :: "pg_context \<Rightarrow> pg_context" where
  "init_context_defaults ctx = ctx\<lparr>shutdown_req := False, next_wake := 100, disp_state := PG_DISP_UNKNOWN, cached_th_scl := Q16_ONE,
     load_state := (load_state ctx)\<lparr>load_first_run := True, psi_val := 0, rate := 0, prev_integ := 0\<rparr>,
     epoll_fd := - 1, sig_fd := - 1, trg_fd := - 1, lock_fd := - 1, psi := (psi ctx)\<lparr>mon_fd := - 1\<rparr>,
     cpu_temp_sensor := (cpu_temp_sensor ctx)\<lparr>ts_fd := - 1\<rparr>, bat_temp_sensor := (bat_temp_sensor ctx)\<lparr>ts_fd := - 1\<rparr>,
     bat_cap_sensor := (bat_cap_sensor ctx)\<lparr>bs_fd := - 1\<rparr>, bl_sensor := \<lparr>bl_fd = replicate PG_BL_MAX (- 1), bl_n = 0\<rparr>,
     sched_lat := (sched_lat ctx)\<lparr>sc_fd := - 1\<rparr>, sched_gran := (sched_gran ctx)\<lparr>sc_fd := - 1\<rparr>,
     sched_wake := (sched_wake ctx)\<lparr>sc_fd := - 1\<rparr>, sched_mig := (sched_mig ctx)\<lparr>sc_fd := - 1\<rparr>,
     sched_walt := (sched_walt ctx)\<lparr>sc_fd := - 1\<rparr>, sched_ucl := (sched_ucl ctx)\<lparr>sc_fd := - 1\<rparr>,
     on_trigger := None, on_timeout := None\<rparr>"

definition init_sysfs_caches :: "os \<Rightarrow> pg_context \<Rightarrow> hist \<Rightarrow> (int \<times> pg_context \<times> hist) option" where
  "init_sysfs_caches os ctx h = do {
     (n1, c, h) \<leftarrow> pg_sysfs_cache_init os (sched_lat ctx) CAND_LAT h;
     let ctx = ctx\<lparr>sched_lat := c\<rparr>;
     (n2, c, h) \<leftarrow> pg_sysfs_cache_init os (sched_gran ctx) CAND_GRAN h;
     let ctx = ctx\<lparr>sched_gran := c\<rparr>;
     (n3, c, h) \<leftarrow> pg_sysfs_cache_init os (sched_wake ctx) CAND_WAKE h;
     let ctx = ctx\<lparr>sched_wake := c\<rparr>;
     (n4, c, h) \<leftarrow> pg_sysfs_cache_init os (sched_mig ctx) CAND_MIG h;
     let ctx = ctx\<lparr>sched_mig := c\<rparr>;
     (n5, c, h) \<leftarrow> pg_sysfs_cache_init os (sched_walt ctx) CAND_WALT h;
     let ctx = ctx\<lparr>sched_walt := c\<rparr>;
     (n6, c, h) \<leftarrow> pg_sysfs_cache_init os (sched_ucl ctx) CAND_UCL h;
     let ctx = ctx\<lparr>sched_ucl := c\<rparr>;
     Some (n1 + n2 + n3 + n4 + n5 + n6, ctx, h)
   }"

fun init_bl_loop :: "os \<Rightarrow> string list \<Rightarrow> pg_bl_sensor \<Rightarrow> hist \<Rightarrow> pg_bl_sensor \<times> hist" where
  "init_bl_loop os [] sensor h = (sensor, h)"
| "init_bl_loop os (path # paths) sensor h =
     (let (sensor, h) = pg_sensor_init_bl os sensor path h in init_bl_loop os paths sensor h)"

text \<open>The sensors and the trigger; a dormant daemon has no trigger.\<close>

definition open_temp_sensors :: "os \<Rightarrow> string \<Rightarrow> pg_context \<Rightarrow> hist \<Rightarrow> pg_context \<times> hist" where
  "open_temp_sensors os t_path ctx h =
     (let (s, h) = pg_sensor_init_cpu_temp os (cpu_temp_sensor ctx) t_path h;
          ctx = ctx\<lparr>cpu_temp_sensor := s\<rparr>;
          (s, h) = pg_sensor_init_bat_temp os (bat_temp_sensor ctx) PG_PATH_BATTERY_TEMP h;
          ctx = ctx\<lparr>bat_temp_sensor := s\<rparr>;
          (s, h) = pg_sensor_init_bat_cap os (bat_cap_sensor ctx) PG_PATH_BATTERY_CAP h
      in (ctx\<lparr>bat_cap_sensor := s\<rparr>, h))"

definition init_trigger :: "os \<Rightarrow> pg_context \<Rightarrow> hist \<Rightarrow> (int \<times> pg_context \<times> hist) option" where
  "init_trigger os ctx h =
     (if \<not> dormant ctx
      then do {
        (fd, h) \<leftarrow> pg_psi_open_trg os PG_PATH_PSI_CPU PG_PSI_THRESHOLD_US PG_PSI_WINDOW_US h;
        let ctx = ctx\<lparr>trg_fd := fd\<rparr>;
        Some (if fd < 0 then fd else 0, ctx, h)
      }
      else Some (0, ctx, h))"

definition init_backlights :: "os \<Rightarrow> pg_context \<Rightarrow> hist \<Rightarrow> (pg_context \<times> hist) option" where
  "init_backlights os ctx h = do {
     (n_bl, b_path, h) \<leftarrow> pg_scan_backlight os PG_BL_MAX h;
     let (bl, h) = init_bl_loop os b_path (bl_sensor ctx) h;
     Some (ctx\<lparr>bl_sensor := bl\<rparr>, h)
   }"

definition init_monitors :: "os \<Rightarrow> pg_context \<Rightarrow> hist \<Rightarrow> (int \<times> pg_context \<times> hist) option" where
  "init_monitors os ctx h =
     (let (mon, h) = pg_psi_init os (psi ctx) PG_PATH_PSI_CPU h;
          ctx = ctx\<lparr>psi := mon\<rparr>;
          (fd, h) = pg_signal_init os h;
          ctx = ctx\<lparr>sig_fd := fd\<rparr>
      in if fd < 0 then Some (fd, ctx, h)
         else let (th, h) = pg_thermal_init os (thermal_state ctx) h;
                  (po, h) = pg_poll_init os (poll_state ctx) h
              in do {
                (ctx, h) \<leftarrow> init_backlights os (ctx\<lparr>thermal_state := th, poll_state := po\<rparr>) h;
                Some (0, ctx, h)
              })"

definition init_sensors_and_triggers :: "os \<Rightarrow> pg_context \<Rightarrow> hist \<Rightarrow> (int \<times> pg_context \<times> hist) option" where
  "init_sensors_and_triggers os ctx h = do {
     (ret, t_path, h) \<leftarrow> pg_scan_thermal_zone os 256 h;
     let (ctx, h) = open_temp_sensors os t_path ctx h;
     (ret, ctx, h) \<leftarrow> init_trigger os ctx h;
     if ret < 0 then Some (ret, ctx, h) else init_monitors os ctx h
   }"

section \<open>Cleaning up\<close>

definition cleanup_context :: "os \<Rightarrow> pg_daemon \<Rightarrow> hist \<Rightarrow> (pg_daemon \<times> hist) option" where
  "cleanup_context os st h = do {
     (st, h) \<leftarrow> restore_all os st h;
     let (props, h) = pg_opt_exit os (dm_props st) h;
     let ctx = dm_context st;
     let h = (if 0 \<le> trg_fd ctx then pg_psi_close_trg (trg_fd ctx) h else h);
     let h = (if 0 \<le> sig_fd ctx then pg_signal_close (sig_fd ctx) h else h);
     let h = pg_lockfile_close (lock_fd ctx) h;
     let (mon, h) = pg_psi_cleanup (psi ctx) h;
     let (cpu, h) = pg_sensor_temp_close (cpu_temp_sensor ctx) h;
     let (bat, h) = pg_sensor_temp_close (bat_temp_sensor ctx) h;
     let (cap, h) = pg_sensor_bat_close (bat_cap_sensor ctx) h;
     let (bl, h) = pg_sensor_bl_close (bl_sensor ctx) h;
     let (c1, h) = pg_sysfs_cache_cleanup (sched_lat ctx) h;
     let (c2, h) = pg_sysfs_cache_cleanup (sched_gran ctx) h;
     let (c3, h) = pg_sysfs_cache_cleanup (sched_wake ctx) h;
     let (c4, h) = pg_sysfs_cache_cleanup (sched_mig ctx) h;
     let (c5, h) = pg_sysfs_cache_cleanup (sched_walt ctx) h;
     let (c6, h) = pg_sysfs_cache_cleanup (sched_ucl ctx) h;
     Some (st\<lparr>dm_props := props, dm_context := ctx\<lparr>psi := mon, cpu_temp_sensor := cpu, bat_temp_sensor := bat, bat_cap_sensor := cap,
       bl_sensor := bl, sched_lat := c1, sched_gran := c2, sched_wake := c3, sched_mig := c4, sched_walt := c5, sched_ucl := c6\<rparr>\<rparr>, h)
   }"

section \<open>The life of the daemon\<close>

text \<open>Up to the check for the pressure file; a result that is not zero goes to the clean-up.\<close>

definition daemon_boot :: "os \<Rightarrow> pg_daemon \<Rightarrow> hist \<Rightarrow> (int \<times> pg_daemon \<times> hist) option" where
  "daemon_boot os st h =
     (let ctx = init_context_defaults (dm_context st);
          (ret, h) = pg_detect_privilege os h
      in if ret \<noteq> 0 then Some (ret, st\<lparr>dm_context := ctx\<rparr>, h)
         else let (fd, h) = pg_lockfile_init os PG_PATH_LOCK h;
                  ctx = ctx\<lparr>lock_fd := fd\<rparr>
              in if fd < 0 then Some (fd, st\<lparr>dm_context := ctx\<rparr>, h)
                 else let (booted, h) = pg_prop_wait_boot os h
                      in if \<not> booted then Some (- ETIMEDOUT, st\<lparr>dm_context := ctx\<rparr>, h)
                         else do {
                           (n, ctx, h) \<leftarrow> init_sysfs_caches os ctx h;
                           let ctx = (if n = 0 then ctx\<lparr>dormant := True\<rparr> else ctx);
                           let st = restore_snapshot ctx (st\<lparr>dm_context := ctx\<rparr>);
                           (sig, h) \<leftarrow> init_os_environment os (dm_signal st) h;
                           let st = st\<lparr>dm_signal := sig\<rparr>;
                           let (ok, h) = pg_detect_cpu_psi os h;
                           Some (if \<not> ok then - ENODEV else 0, st, h)
                         })"

text \<open>The tuning, the sensors and the trigger.\<close>

definition daemon_setup :: "os \<Rightarrow> pg_daemon \<Rightarrow> hist \<Rightarrow> (int \<times> pg_daemon \<times> hist) option" where
  "daemon_setup os st h = do {
     (lim, h) \<leftarrow> pg_tune_limits os (t_lim (dm_tables st)) h;
     (cpu, thermal, h) \<leftarrow> pg_tune_configs os (t_cpu (dm_tables st)) (t_thermal (dm_tables st)) h;
     let st = st\<lparr>dm_tables := \<lparr>t_lim = lim, t_cpu = cpu, t_thermal = thermal\<rparr>\<rparr>;
     (unused, h) \<leftarrow> pg_block_tune os h;
     (ret, ctx, h) \<leftarrow> init_sensors_and_triggers os (dm_context st) h;
     Some (ret, st\<lparr>dm_context := ctx\<rparr>, h)
   }"

text \<open>The options, the first readings and the reactor.\<close>

definition first_readings :: "os \<Rightarrow> pg_context \<Rightarrow> hist \<Rightarrow> (pg_context \<times> hist) option" where
  "first_readings os ctx h = do {
     let (t1, h) = sys_clock os CLOCK_MONOTONIC h;
     let (t2, h) = sys_clock os CLOCK_MONOTONIC h;
     let (t3, h) = sys_clock os CLOCK_MONOTONIC h;
     let ctx = ctx\<lparr>last_bat := t1, last_therm := t2, last_sweep := t3\<rparr>;
     (ret, lvl, h) \<leftarrow> pg_sensor_read_bat_cap os (bat_cap_sensor ctx) h;
     let ctx = ctx\<lparr>bat_lvl := lvl\<rparr>;
     (ret, temp, h) \<leftarrow> pg_sensor_read_bat_temp os (bat_temp_sensor ctx) h;
     Some (ctx\<lparr>bat_temp := temp\<rparr>, h)
   }"

definition daemon_serve :: "os \<Rightarrow> pg_daemon \<Rightarrow> hist \<Rightarrow> (int \<times> pg_daemon \<times> hist) option" where
  "daemon_serve os st h = do {
     (unused, props, h) \<leftarrow> pg_opt_init os (dm_props st) h;
     (ctx, h) \<leftarrow> first_readings os (dm_context st) h;
     let (ctx, h) = pg_gov_init os ctx h;
     let ctx = ctx\<lparr>on_trigger := Some Gov_process, on_timeout := Some Gov_process\<rparr>;
     (ret, ctx, h) \<leftarrow> pg_epoll_run os (gov_callback os (dm_tables st)) ctx h;
     Some (ret, st\<lparr>dm_props := props, dm_context := ctx\<rparr>, h)
   }"

definition pg_daemon_init :: "os \<Rightarrow> pg_daemon \<Rightarrow> hist \<Rightarrow> (int \<times> pg_daemon \<times> hist) option" where
  "pg_daemon_init os st h = do {
     (ret, st, h) \<leftarrow> daemon_boot os st h;
     (ret, st, h) \<leftarrow> (if ret \<noteq> 0 then Some (ret, st, h)
       else do {
         (ret, st, h) \<leftarrow> daemon_setup os st h;
         if ret \<noteq> 0 then Some (ret, st, h) else daemon_serve os st h
       });
     (st, h) \<leftarrow> cleanup_context os st h;
     Some (ret, st, h)
   }"

text \<open>The process: the static state is as the loader leaves it, the arguments are not looked at.\<close>

definition pgov_main :: "os \<Rightarrow> string list \<Rightarrow> hist \<Rightarrow> (int \<times> pg_daemon \<times> hist) option" where
  "pgov_main os args h = pg_daemon_init os daemon_start h"

end
