(* ===== verification/Pg_Fleet.thy ===== *)
theory Pg_Fleet
  imports Pg_Daemon
begin

text \<open>
  What the life of the daemon keeps: the descriptors of the process against those of its state, the
  agreement between the caches and their nodes, and the system properties.
\<close>

section \<open>Events that leave nodes and properties alone\<close>

definition calm :: "event \<Rightarrow> bool" where
  "calm e \<longleftrightarrow> \<not> sets_prop e \<and> (\<forall>fd b r. e \<noteq> Pwrite fd b r)"

lemma quiet_calm: "quiet e \<Longrightarrow> calm e"
  by (auto simp: calm_def quiet_def)

lemma calm_Write [simp]: "calm (Write fd b r)"
  by (simp add: calm_def)

lemma calm_Ctl [simp]: "calm (Ctl c r) \<longleftrightarrow> (\<forall>n v. c \<noteq> Prop_set n v)"
  by (auto simp: calm_def elim: sets_prop.elims)

lemma calm_done: "grows calm h h' \<Longrightarrow> last_done fd h' = last_done fd h"
proof (elim growsE, clarify)
  fix new assume "\<forall>e \<in> set new. calm e"
  then show "last_done fd (new @ h) = last_done fd h"
  proof (induction new)
    case (Cons e new)
    then have "last_done fd (e # new @ h) = last_done fd (new @ h)" by (intro last_done_Cons) (auto simp: calm_def)
    then show ?case using Cons by simp
  qed simp
qed

lemma calm_props: "grows calm h h' \<Longrightarrow> grows (\<lambda>e. \<not> sets_prop e) h h'"
  by (erule grows_mono) (simp add: calm_def)

text \<open>A part of the life in which descriptors, and what was written through the open ones, stay.\<close>

definition steady :: "hist \<Rightarrow> hist \<Rightarrow> bool" where
  "steady h h' \<longleftrightarrow> grows (\<lambda>e. \<not> sets_prop e) h h' \<and> open_fds h' = open_fds h \<and>
     (\<forall>fd \<in> open_fds h. last_done fd h' = last_done fd h)"

lemma steady_trans: "steady h h' \<Longrightarrow> steady h' h'' \<Longrightarrow> steady h h''"
  by (auto simp: steady_def intro: grows_trans)

lemma steady_calm: "grows calm h h' \<Longrightarrow> open_fds h' = open_fds h \<Longrightarrow> steady h h'"
  by (simp add: steady_def calm_props calm_done)

lemma steady_looks: "looks h h' \<Longrightarrow> steady h h'"
  by (rule steady_calm) (auto simp: looks_def balanced_fds intro: grows_mono quiet_calm changes_quiet)

lemma steady_requests:
  assumes "grows requests h h'"
  shows "steady h h'"
proof (rule steady_calm)
  show "grows calm h h'" by (rule grows_mono [OF assms]) (auto simp: requests_def)
  have "requests e \<Longrightarrow> idle e" for e unfolding requests_def by (elim exE conjE, rename_tac c r, case_tac c) auto
  then show "open_fds h' = open_fds h" using assms by (intro balanced_fds balanced_grows) (blast intro: grows_mono)
qed

text \<open>One descriptor is opened, or none when the result is negative.\<close>

definition opened :: "int \<Rightarrow> hist \<Rightarrow> hist \<Rightarrow> bool" where
  "opened fd h h' \<longleftrightarrow> grows calm h h' \<and>
     (if fd < 0 then open_fds h' = open_fds h else fd \<notin> open_fds h \<and> open_fds h' = insert fd (open_fds h))"

lemma opened_steady: "opened fd h g \<Longrightarrow> grows calm g h' \<Longrightarrow> open_fds h' = open_fds g \<Longrightarrow> opened fd h h'"
  by (auto simp: opened_def intro: grows_trans)

lemma open_opened:
  assumes "os_ok os" "os_open os h p f = Inr fd"
  shows "opened fd h (Open p f (Inr fd) # h)"
  using fresh_fd(1,3) [OF assms] by (auto simp: opened_def intro: quiet_calm)

lemma open_failed: "fd < 0 \<Longrightarrow> opened fd h (Open p f (Inl err) # h)"
  by (auto simp: opened_def intro: quiet_calm)

lemma opened_none: "fd < 0 \<Longrightarrow> opened fd h h"
  by (simp add: opened_def)

lemma sensor_open_opened:
  assumes "os_ok os"
  shows "case sensor_open os path h of (fd, h') \<Rightarrow> opened fd h h'"
  using open_opened [OF assms, of h path] open_failed [of "- 1" h path]
  by (auto simp: sensor_open_def sys_open_def Let_def opened_none split: sum.splits)

lemma lockfile_opened: "os_ok os \<Longrightarrow> case pg_lockfile_init os path h of (fd, h') \<Rightarrow> opened fd h h'"
  using lockfile_spec [where os = os and path = path and h = h] by (auto simp: opened_def intro: grows_mono quiet_calm)

text \<open>A signal descriptor from the time it is handed out to its end.\<close>

definition sig_alive :: "int \<Rightarrow> hist \<Rightarrow> bool" where
  "sig_alive sig h \<longleftrightarrow> 0 \<le> sig \<and> (\<exists>g. keeps_open {sig} (Ctl Signalfd (Inr sig) # g) h)"

lemma sig_alive_start: "0 \<le> sig \<Longrightarrow> sig_alive sig (Ctl Signalfd (Inr sig) # g)"
  unfolding sig_alive_def by blast

lemma sig_alive_keeps: "sig_alive sig h \<Longrightarrow> keeps_open F h h' \<Longrightarrow> sig \<in> F \<Longrightarrow> sig_alive sig h'"
  unfolding sig_alive_def using keeps_open_trans keeps_open_mono by (metis empty_subsetI insert_subset)

lemma keeps_open_mem: "keeps_open {fd} h h' \<Longrightarrow> fd \<in> open_fds h \<Longrightarrow> fd \<in> open_fds h'"
proof -
  have "\<forall>e \<in> set new. \<not> rebinds fd e \<Longrightarrow> fd \<in> open_fds h \<Longrightarrow> fd \<in> open_fds (new @ h)" for new
  proof (induction new)
    case (Cons e new)
    then show ?case by (cases "e # new @ h" rule: open_fds.cases) auto
  qed simp
  then show "keeps_open {fd} h h' \<Longrightarrow> fd \<in> open_fds h \<Longrightarrow> fd \<in> open_fds h'" by (auto simp: keeps_open_def grows_def)
qed

lemma sig_alive_open: "sig_alive sig h \<Longrightarrow> sig \<in> open_fds h"
  by (auto simp: sig_alive_def intro: keeps_open_mem)

lemma signal_opened: "os_ok os \<Longrightarrow> case pg_signal_init os h of (fd, h') \<Rightarrow> opened fd h h' \<and>
    (0 \<le> fd \<longrightarrow> sig_alive fd h')"
  using signal_init_spec [where os = os and h = h]
  by (auto simp: opened_def intro: grows_mono quiet_calm intro!: sig_alive_start)

lemma psi_init_opened:
  assumes "os_ok os"
  shows "case pg_psi_init os mon path h of (mon', h') \<Rightarrow> opened (mon_fd mon') h h' \<and> psi_ok mon'"
proof -
  have c: "opened fd h (Clock c t # g)" if "opened fd h g" for fd g c t
    by (rule opened_steady [OF that]) (auto intro: quiet_calm)
  show ?thesis
    using open_opened [OF assms, of h path] open_failed [of "- 1" h path]
    by (auto simp: pg_psi_init_def sys_open_def sys_clock_def Let_def psi_ok_def pg_kalman_init_def kalman_ok_reset c split: sum.splits)
qed

lemma open_trg_opened:
  assumes os: "os_ok os"
  shows "runs (pg_psi_open_trg os path t w h) (\<lambda>(fd, h'). opened fd h h')"
proof (cases "os_open os h path [O_RDWR, O_CLOEXEC, O_NONBLOCK]")
  case (Inl err)
  then have "0 < err" using os_okD(5) [OF os] by (auto simp: errno_ok_def)
  then show ?thesis using Inl open_failed [of "- err" h path] by (simp add: pg_psi_open_trg_def sys_open_def Let_def)
next
  case (Inr fd)
  define g where "g = Open path [O_RDWR, O_CLOEXEC, O_NONBLOCK] (Inr fd) # h"
  note o = open_opened [OF os Inr, folded g_def]
  note fresh = fresh_fd(1,3) [OF os Inr]
  have pos: "0 < e" if "os_write os h' d b = Inl e" for h' d b e
    using os_okD(5) [OF os] that unfolding errno_ok_def by metis
  have w: "opened fd h (Write fd b r # replicate k (Write fd b e) @ g)" for b r k e
  proof (rule opened_steady [OF o])
    show "grows calm g (Write fd b r # replicate k (Write fd b e) @ g)" by auto
    show "open_fds (Write fd b r # replicate k (Write fd b e) @ g) = open_fds g" by (induction k) auto
  qed
  have c: "opened (- err) h (Close fd # g')" if "opened fd h g'" "0 < err" for err g'
    using that fresh by (auto simp: opened_def intro!: grows_Cons intro: quiet_calm)
  show ?thesis
    unfolding pg_psi_open_trg_def sys_open_def Let_def Inr prod.case sum.case g_def [symmetric] runs_simps sys_close_def
    by (rule runs_mono [OF retry_write [OF os_okD(1) [OF os]]]) (auto simp: w c pos split: sum.splits)
qed

lemma probe_opened:
  assumes os: "os_ok os"
  shows "sc_fd c < 0 \<Longrightarrow> sc_active c = False \<Longrightarrow> sc_last c = UINT64_MAX \<Longrightarrow> sc_fails c = 0 \<Longrightarrow>
    runs (sysfs_probe os paths c h) (\<lambda>(n, c', h'). opened (sc_fd c') h h' \<and> cache_ok c' \<and> sc_last c' = UINT64_MAX)"
proof (induction paths arbitrary: h)
  case Nil
  then show ?case by (simp add: opened_def cache_ok_def)
next
  case (Cons path paths)
  show ?case
  proof (cases "os_open os h path [O_WRONLY, O_CLOEXEC]")
    case (Inl err)
    have g: "grows calm h (Open path [O_WRONLY, O_CLOEXEC] (Inl err) # h)" by (auto intro: quiet_calm)
    have "opened fd h h'" if "opened fd (Open path [O_WRONLY, O_CLOEXEC] (Inl err) # h) h'" for fd h'
      using that grows_trans [OF g, of h'] by (auto simp: opened_def)
    then show ?thesis
      using Cons Inl by (auto simp: sys_open_def Let_def intro!: runs_mono [OF Cons.IH])
  next
    case (Inr fd)
    note o = open_opened [OF os Inr]
    have "opened fd h h'" if "looks (Open path [O_WRONLY, O_CLOEXEC] (Inr fd) # h) h'" for h'
      using that by (intro opened_steady [OF o]) (auto simp: looks_def balanced_fds intro: grows_mono quiet_calm changes_quiet)
    then show ?thesis
      using Cons.prems Inr fresh_fd(3) [OF os Inr]
      by (auto simp: sys_open_def Let_def cache_ok_def intro!: runs_mono [OF read_i32_looks [OF os]] split: sum.splits)
  qed
qed

lemma cache_init_opened:
  assumes "os_ok os"
  shows "runs (pg_sysfs_cache_init os c paths h) (\<lambda>(n, c', h'). opened (sc_fd c') h h' \<and> cache_ok c' \<and> sc_last c' = UINT64_MAX)"
  unfolding pg_sysfs_cache_init_def by (rule probe_opened [OF assms]) simp_all

section \<open>The descriptors of the state\<close>

text \<open>The descriptors the state owns besides the monitor and the trigger.\<close>

definition held :: "int list \<Rightarrow> int set" where
  "held fds = {fd \<in> set fds. 0 \<le> fd}"

definition sensor_fds :: "pg_context \<Rightarrow> int list" where
  "sensor_fds ctx = [sig_fd ctx, lock_fd ctx, ts_fd (cpu_temp_sensor ctx), ts_fd (bat_temp_sensor ctx), bs_fd (bat_cap_sensor ctx)] @
     take (bl_n (bl_sensor ctx)) (bl_fd (bl_sensor ctx))"

definition rest_fds :: "pg_context \<Rightarrow> int list" where
  "rest_fds ctx = sensor_fds ctx @ map sc_fd (nodes ctx)"

text \<open>\<open>fitted F ctx h\<close>: besides the descriptors \<open>F\<close> from before, exactly those of the state are open.\<close>

definition fitted :: "int set \<Rightarrow> pg_context \<Rightarrow> hist \<Rightarrow> bool" where
  "fitted F ctx h \<longleftrightarrow> open_fds h = F \<union> own ctx \<union> held (rest_fds ctx) \<and> F \<inter> own ctx = {} \<and> F \<inter> held (rest_fds ctx) = {} \<and>
     own ctx \<inter> held (rest_fds ctx) = {} \<and> (mon_fd (psi ctx) = trg_fd ctx \<longrightarrow> trg_fd ctx < 0)"

lemma held_simps [simp]: "held [] = {}" "held (fd # fds) = (if 0 \<le> fd then insert fd (held fds) else held fds)"
  "held (xs @ ys) = held xs \<union> held ys"
  by (auto simp: held_def)

lemma held_update: "i < length fds \<Longrightarrow> fds ! i < 0 \<Longrightarrow> held (fds[i := fd]) = held [fd] \<union> held fds"
proof (induction fds arbitrary: i)
  case (Cons x fds)
  then show ?case by (cases i) auto
qed simp

lemma fitted_steady: "fitted F ctx h \<Longrightarrow> open_fds h' = open_fds h \<Longrightarrow> fitted F ctx h'"
  by (simp add: fitted_def)

lemma fitted_rest:
  assumes "fitted F ctx h" "opened fd h h'" "held (rest_fds ctx') = held [fd] \<union> held (rest_fds ctx)"
    "mon_fd (psi ctx') = mon_fd (psi ctx)" "trg_fd ctx' = trg_fd ctx"
  shows "fitted F ctx' h'"
proof -
  have "own ctx' = own ctx" using assms(4,5) by (simp add: own_def)
  then show ?thesis using assms by (auto simp: fitted_def opened_def split: if_splits)
qed

lemma fitted_own:
  assumes "fitted F ctx h" "opened fd h h'" "rest_fds ctx' = rest_fds ctx"
    "mon_fd (psi ctx') = fd \<and> mon_fd (psi ctx) < 0 \<and> trg_fd ctx' = trg_fd ctx \<or>
     trg_fd ctx' = fd \<and> trg_fd ctx < 0 \<and> mon_fd (psi ctx') = mon_fd (psi ctx)"
  shows "fitted F ctx' h'"
proof -
  have o: "own ctx' = held [fd] \<union> own ctx" using assms(4) by (auto simp: own_def held_def)
  have "own ctx \<subseteq> open_fds h" using assms(1) by (auto simp: fitted_def)
  then have "mon_fd (psi ctx') = trg_fd ctx' \<longrightarrow> trg_fd ctx' < 0"
    using assms(2,4) by (auto simp: opened_def own_def split: if_splits)
  then show ?thesis using assms(1,2,3) unfolding fitted_def o opened_def by (auto split: if_splits)
qed

text \<open>What the governor needs of the state besides its descriptors, and the parts that are not open yet.\<close>

definition idle_ctx :: "pg_context \<Rightarrow> bool" where
  "idle_ctx ctx \<longleftrightarrow> cached_th_scl ctx = Q16_ONE \<and> psi_fails ctx = 0 \<and> temp_fails ctx = 0 \<and> psi_val (load_state ctx) = 0 \<and>
     list_all cache_ok (nodes ctx)"

definition bare :: "pg_context \<Rightarrow> bool" where
  "bare ctx \<longleftrightarrow> sig_fd ctx < 0 \<and> ts_fd (cpu_temp_sensor ctx) < 0 \<and> ts_fd (bat_temp_sensor ctx) < 0 \<and> bs_fd (bat_cap_sensor ctx) < 0 \<and>
     bl_n (bl_sensor ctx) = 0 \<and> length (bl_fd (bl_sensor ctx)) = 4 \<and> mon_fd (psi ctx) < 0 \<and> trg_fd ctx < 0"

lemma bare_bl: "bare ctx \<Longrightarrow> bl_ok (bl_sensor ctx)"
  by (simp add: bare_def bl_ok_def)

text \<open>The nodes are opened one after the other; none was written so far.\<close>

definition fleet :: "int set \<Rightarrow> hist \<Rightarrow> pg_context \<Rightarrow> hist \<Rightarrow> bool" where
  "fleet F h0 ctx h \<longleftrightarrow> fitted F ctx h \<and> tracks ctx h \<and> idle_ctx ctx \<and> bare ctx \<and> (\<forall>fd. last_done fd h = None) \<and> grows calm h0 h"

lemma node_open: "fitted F ctx h \<Longrightarrow> list_all cache_ok (nodes ctx) \<Longrightarrow> i < 6 \<Longrightarrow> sc_active (nodes ctx ! i) \<Longrightarrow> sc_fd (nodes ctx ! i) \<in> open_fds h"
proof -
  assume a: "fitted F ctx h" "list_all cache_ok (nodes ctx)" "i < 6" "sc_active (nodes ctx ! i)"
  then have m: "nodes ctx ! i \<in> set (nodes ctx)" by (intro nth_mem) (simp add: nodes_def)
  then have "0 \<le> sc_fd (nodes ctx ! i)" using a(2,4) by (auto simp: list_all_iff cache_ok_def)
  then have "sc_fd (nodes ctx ! i) \<in> held (rest_fds ctx)" using m by (auto simp: held_def rest_fds_def)
  then show ?thesis using a(1) by (auto simp: fitted_def)
qed

lemma fleet_step:
  assumes f: "fleet F h0 ctx h" and o: "opened (sc_fd c) h h'" and c: "cache_ok c" "sc_last c = UINT64_MAX"
    and i: "i < 6" "sc_fd (nodes ctx ! i) < 0" and n: "nodes ctx' = (nodes ctx)[i := c]"
    and same: "idle_ctx ctx' \<longleftrightarrow> cached_th_scl ctx = Q16_ONE \<and> psi_fails ctx = 0 \<and> temp_fails ctx = 0 \<and> psi_val (load_state ctx) = 0 \<and>
        list_all cache_ok (nodes ctx')" "bare ctx' = bare ctx" "sensor_fds ctx' = sensor_fds ctx"
      "mon_fd (psi ctx') = mon_fd (psi ctx)" "trg_fd ctx' = trg_fd ctx"
  shows "fleet F h0 ctx' h'"
proof -
  have l: "length (nodes ctx) = 6" by (simp add: nodes_def)
  have d: "last_done fd h' = None" for fd
    using f o calm_done [of h h' fd] by (simp add: fleet_def opened_def)
  have held: "held (map sc_fd (nodes ctx')) = held [sc_fd c] \<union> held (map sc_fd (nodes ctx))"
    using i l by (simp add: n map_update held_update del: held_simps)
  have "held (rest_fds ctx') = held [sc_fd c] \<union> held (rest_fds ctx)"
    unfolding rest_fds_def held_simps(3) held same(3) by blast
  then have fit: "fitted F ctx' h'"
    using f o same(4,5) by (intro fitted_rest [of F ctx h "sc_fd c" h' ctx']) (simp_all add: fleet_def)
  have ok: "idle_ctx ctx'"
    using f c(1) unfolding same(1) n by (auto simp: fleet_def idle_ctx_def list_all_iff dest: set_update_subset_insert [THEN subsetD])
  have fresh: "sc_fd (nodes ctx ! j) \<noteq> sc_fd c" if "j < 6" "sc_active (nodes ctx ! j)" "sc_active c" for j
  proof -
    have "sc_fd (nodes ctx ! j) \<in> open_fds h" using f that by (intro node_open [of F ctx h]) (simp_all add: fleet_def idle_ctx_def)
    moreover have "sc_fd c \<notin> open_fds h" using o c(1) that(3) by (simp add: opened_def cache_ok_def split: if_splits)
    ultimately show ?thesis by metis
  qed
  have nth: "nodes ctx' ! j = (if j = i then c else nodes ctx ! j)" if "j < 6" for j
    using that i l by (simp add: n)
  have old: "cache_tracks (nodes ctx ! j) h'" if "j < 6" "sc_active (nodes ctx ! j)" for j
  proof -
    have "cache_tracks (nodes ctx ! j) h" using f that unfolding fleet_def tracks_def by blast
    moreover have "last_done (sc_fd (nodes ctx ! j)) h = None" using f by (simp add: fleet_def)
    ultimately show ?thesis using d by (simp add: cache_tracks_def split: if_splits)
  qed
  have "tracks ctx' h'"
    unfolding tracks_def
  proof (intro allI impI conjI)
    fix j assume j: "j < 6" "sc_active (nodes ctx' ! j)"
    show "cache_tracks (nodes ctx' ! j) h'"
      using old j c(2) d by (cases "j = i") (auto simp: nth cache_tracks_def)
    fix k assume k: "k < 6" "k \<noteq> j" "sc_active (nodes ctx' ! k)"
    show "sc_fd (nodes ctx' ! k) \<noteq> sc_fd (nodes ctx' ! j)"
      using f j k fresh [of j] fresh [of k] i(1) unfolding fleet_def tracks_def
      by (cases "j = i"; cases "k = i") (auto simp: nth)
  qed
  moreover have "grows calm h0 h'" using f o grows_trans by (auto simp: fleet_def opened_def)
  ultimately show ?thesis using fit ok f same(2) d by (simp add: fleet_def)
qed

text \<open>One node, for whichever field of the context holds its cache.\<close>

lemma init_node:
  assumes os: "os_ok os" and f: "fleet F h0 ctx h" and i: "i < 6" "c = nodes ctx ! i" "sc_fd c < 0"
    and put: "\<And>c'. nodes (put c') = (nodes ctx)[i := c']"
      "\<And>c'. idle_ctx (put c') \<longleftrightarrow> cached_th_scl ctx = Q16_ONE \<and> psi_fails ctx = 0 \<and> temp_fails ctx = 0 \<and> psi_val (load_state ctx) = 0 \<and>
        list_all cache_ok (nodes (put c'))" "\<And>c'. bare (put c') = bare ctx" "\<And>c'. sensor_fds (put c') = sensor_fds ctx"
      "\<And>c'. mon_fd (psi (put c')) = mon_fd (psi ctx)" "\<And>c'. trg_fd (put c') = trg_fd ctx"
  shows "runs (pg_sysfs_cache_init os c paths h) (\<lambda>(n, c', h'). fleet F h0 (put c') h')"
  using fleet_step [OF f _ _ _ i(1) _ put(1) put(2) put(3) put(4) put(5) put(6)] i(2,3)
  by (intro runs_mono [OF cache_init_opened [OF os]]) (auto simp: opened_def)

lemmas node_defs = nodes_def idle_ctx_def bare_def sensor_fds_def

lemma init_nodes:
  assumes os: "os_ok os" and f: "fleet F h0 ctx h"
  shows "sc_fd (sched_lat ctx) < 0 \<Longrightarrow> runs (pg_sysfs_cache_init os (sched_lat ctx) p h) (\<lambda>(n, c', h'). fleet F h0 (ctx\<lparr>sched_lat := c'\<rparr>) h')"
    "sc_fd (sched_gran ctx) < 0 \<Longrightarrow> runs (pg_sysfs_cache_init os (sched_gran ctx) p h) (\<lambda>(n, c', h'). fleet F h0 (ctx\<lparr>sched_gran := c'\<rparr>) h')"
    "sc_fd (sched_wake ctx) < 0 \<Longrightarrow> runs (pg_sysfs_cache_init os (sched_wake ctx) p h) (\<lambda>(n, c', h'). fleet F h0 (ctx\<lparr>sched_wake := c'\<rparr>) h')"
    "sc_fd (sched_mig ctx) < 0 \<Longrightarrow> runs (pg_sysfs_cache_init os (sched_mig ctx) p h) (\<lambda>(n, c', h'). fleet F h0 (ctx\<lparr>sched_mig := c'\<rparr>) h')"
    "sc_fd (sched_walt ctx) < 0 \<Longrightarrow> runs (pg_sysfs_cache_init os (sched_walt ctx) p h) (\<lambda>(n, c', h'). fleet F h0 (ctx\<lparr>sched_walt := c'\<rparr>) h')"
    "sc_fd (sched_ucl ctx) < 0 \<Longrightarrow> runs (pg_sysfs_cache_init os (sched_ucl ctx) p h) (\<lambda>(n, c', h'). fleet F h0 (ctx\<lparr>sched_ucl := c'\<rparr>) h')"
  subgoal by (rule init_node [OF os f, of 0]) (simp_all add: node_defs)
  subgoal by (rule init_node [OF os f, of 1]) (simp_all add: node_defs)
  subgoal by (rule init_node [OF os f, of 2]) (simp_all add: node_defs)
  subgoal by (rule init_node [OF os f, of 3]) (simp_all add: node_defs)
  subgoal by (rule init_node [OF os f, of 4]) (simp_all add: node_defs)
  subgoal by (rule init_node [OF os f, of 5]) (simp_all add: node_defs)
  done

lemma init_caches_spec:
  assumes os: "os_ok os" and f: "fleet F h0 ctx h" and n: "\<forall>c \<in> set (nodes ctx). sc_fd c < 0"
  shows "runs (init_sysfs_caches os ctx h) (\<lambda>(n, ctx', h'). fleet F h0 ctx' h')"
proof -
  define Q where "Q = (\<lambda>(n :: int, ctx', h'). fleet F h0 ctx' h')"
  have neg: "sc_fd (sched_lat ctx) < 0" "sc_fd (sched_gran ctx) < 0" "sc_fd (sched_wake ctx) < 0"
    "sc_fd (sched_mig ctx) < 0" "sc_fd (sched_walt ctx) < 0" "sc_fd (sched_ucl ctx) < 0"
    using n by (simp_all add: nodes_def)
  have fin: "Q (n, ctx', h')" if "fleet F h0 ctx' h'" for n ctx' h'
    using that by (simp add: Q_def)
  show ?thesis
    unfolding init_sysfs_caches_def Let_def Q_def [symmetric] runs_simps
    using f neg
    by (auto intro!: runs_mono [OF init_nodes(1) [OF os f]] fin
      runs_mono [OF init_nodes(2) [OF os, of F h0 "ctx\<lparr>sched_lat := a\<rparr>" for a, simplified]]
      runs_mono [OF init_nodes(3) [OF os, of F h0 "ctx\<lparr>sched_lat := a, sched_gran := b\<rparr>" for a b, simplified]]
      runs_mono [OF init_nodes(4) [OF os, of F h0 "ctx\<lparr>sched_lat := a, sched_gran := b, sched_wake := c\<rparr>" for a b c, simplified]]
      runs_mono [OF init_nodes(5) [OF os, of F h0 "ctx\<lparr>sched_lat := a, sched_gran := b, sched_wake := c, sched_mig := d\<rparr>" for a b c d, simplified]]
      runs_mono [OF init_nodes(6) [OF os, of F h0 "ctx\<lparr>sched_lat := a, sched_gran := b, sched_wake := c, sched_mig := d, sched_walt := e\<rparr>" for a b c d e, simplified]])
qed

section \<open>What the clean-up needs\<close>

definition safe :: "(string \<Rightarrow> string) \<Rightarrow> int set \<Rightarrow> hist \<Rightarrow> pg_daemon \<Rightarrow> hist \<Rightarrow> bool" where
  "safe base F h0 st h \<longleftrightarrow> fitted F (dm_context st) h \<and> tracks (dm_context st) h \<and> list_all cache_ok (nodes (dm_context st)) \<and>
     bl_ok (bl_sensor (dm_context st)) \<and> rs_tbl st = snapshot_loop (nodes (dm_context st)) \<and>
     rs_cnt st = length (rs_tbl st) \<and> undone (dm_props st) (prop_now base h) = prop_now base h0 \<and>
     (\<exists>new. h = new @ h0)"

lemma tracks_open:
  assumes "fitted F ctx h" "list_all cache_ok (nodes ctx)" "tracks ctx h" "\<forall>fd \<in> open_fds h. last_done fd h' = last_done fd h"
  shows "tracks ctx h'"
proof -
  have "cache_tracks (nodes ctx ! i) h'" if i: "i < 6" "sc_active (nodes ctx ! i)" for i
  proof -
    have "last_done (sc_fd (nodes ctx ! i)) h' = last_done (sc_fd (nodes ctx ! i)) h"
      using node_open [OF assms(1,2) i] assms(4) by blast
    then show ?thesis using assms(3) i by (simp add: tracks_def cache_tracks_def)
  qed
  then show ?thesis using assms(3) unfolding tracks_def by blast
qed

lemma safe_steady:
  assumes "safe base F h0 st h" "steady h h'"
  shows "safe base F h0 st h'"
proof -
  have "prop_now base h' = prop_now base h" using assms(2) by (simp add: steady_def prop_now_grows)
  moreover have "\<exists>new. h' = new @ h0" using assms by (auto simp: safe_def steady_def grows_def)
  ultimately show ?thesis
    using assms tracks_open [of F "dm_context st" h h'] fitted_steady [of F "dm_context st" h h']
    by (simp add: safe_def steady_def)
qed

section \<open>The environment of the process\<close>

lemma steady_refl: "steady h h"
  by (simp add: steady_def)

lemma open_log_steady:
  assumes os: "os_ok os"
  shows "steady h (open_log os h)"
proof (rule steady_calm)
  show "grows calm h (open_log os h)"
    by (auto simp: open_log_def sys_open_def sys_ctl_def sys_close_def Let_def intro!: grows_Cons split: sum.split intro: quiet_calm)
  show "open_fds (open_log os h) = open_fds h"
    using fresh_fd(1) [OF os] by (auto simp: open_log_def sys_open_def sys_ctl_def sys_close_def Let_def split: sum.split)
qed

lemma shield_steady: "os_ok os \<Longrightarrow> runs (pg_memory_shield os h) (\<lambda>h'. steady h h')"
  by (rule runs_mono [OF memory_shield_spec]) (auto intro!: steady_calm simp: balanced_fds elim: grows_mono simp: calm_def)

lemma core_steady:
  assumes "os_ok os"
  shows "runs (pg_task_set_core_efficiency os h) (\<lambda>(ret, h'). steady h h')"
proof -
  have "calm e" if "sets_mask os n e" for n e
    using that quiet_calm [OF changes_quiet, of e] by (auto simp: sets_mask_def)
  then have "steady h h'" if "balanced h h'" "grows (sets_mask os n) h h'" for n h'
    using that by (intro steady_calm) (auto simp: balanced_fds elim: grows_mono)
  then show ?thesis
    unfolding pg_task_set_core_efficiency_def by (auto intro!: runs_mono [OF little_core_spec [OF assms]])
qed

lemma task_steady: "steady h (snd (pg_task_set_rt_prio os a h))" "steady h (snd (pg_task_set_timer_slack os b h))"
  "steady h (snd (pg_task_set_uclamp os c h))" "steady h (snd (pg_task_set_io_prio os d e h))"
  by (auto simp: pg_task_set_rt_prio_def pg_task_set_timer_slack_def pg_task_set_uclamp_def pg_task_set_io_prio_def Let_def
      ctl_status_hist intro!: steady_requests)

lemma init_env_steady:
  assumes os: "os_ok os"
  shows "runs (init_os_environment os sig h) (\<lambda>(sig', h'). steady h h' \<and> crash_hook sig' = Some Crash_restore)"
proof -
  have hook: "crash_hook sig' = Some Crash_restore" if "pg_signal_catch_crash os Crash_restore sig g = (sig', g')" for g sig' g'
    using that by (auto simp: pg_signal_catch_crash_def case_prod_unfold Let_def)
  have catch: "steady h g'" if "pg_signal_catch_crash os Crash_restore sig (open_log os h) = (sig', g')" for sig' g'
    using steady_trans [OF open_log_steady [OF os] steady_requests [OF catch_crash_requests]] that by (metis snd_conv)
  have limits: "steady h (snd (pg_rlimit_set_stack os b (snd (pg_rlimit_set_max_fd os (pg_memory_lock os g)))))" if "steady h g" for b g
    using steady_trans [OF steady_trans [OF steady_trans [OF that steady_requests [OF memory_lock_requests]]
      steady_requests [OF rlimit_requests(1)]] steady_requests [OF rlimit_requests(2)]] .
  have tasks: "steady h (snd (pg_task_set_io_prio os d e (snd (pg_task_set_uclamp os c (snd (pg_task_set_timer_slack os b
      (snd (pg_task_set_rt_prio os a g))))))))" if "steady h g" for a b c d e g
    using steady_trans [OF steady_trans [OF steady_trans [OF steady_trans [OF that task_steady(1)] task_steady(2)] task_steady(3)]
      task_steady(4)] .
  show ?thesis
    unfolding init_os_environment_def Let_def
    by (auto intro!: runs_mono [OF shield_steady [OF os]] runs_mono [OF core_steady [OF os]] tasks
        split: prod.split dest: hook) (meson steady_trans limits catch)
qed

section \<open>Starting\<close>

lemma boot_calm: "grows calm h (snd (pg_prop_wait_boot os h))" "open_fds (snd (pg_prop_wait_boot os h)) = open_fds h"
proof -
  have g: "grows waits_boot h (snd (pg_prop_wait_boot os h))"
    using boot_loop_spec [of 0 os h] by (cases "pg_prop_wait_boot os h") (auto simp: pg_prop_wait_boot_def)
  have w: "calm e \<and> idle e" if "waits_boot e" for e
    using that by (auto simp: waits_boot_def intro: quiet_calm)
  show "grows calm h (snd (pg_prop_wait_boot os h))" by (rule grows_mono [OF g]) (simp add: w)
  have "grows idle h (snd (pg_prop_wait_boot os h))" by (rule grows_mono [OF g]) (simp add: w)
  then show "open_fds (snd (pg_prop_wait_boot os h)) = open_fds h" by (intro balanced_fds balanced_grows)
qed

text \<open>The state the set-up begins with: nothing open, no node written, no property saved.\<close>

definition ready :: "(string \<Rightarrow> string) \<Rightarrow> int set \<Rightarrow> hist \<Rightarrow> pg_daemon \<Rightarrow> hist \<Rightarrow> bool" where
  "ready base F h0 st h \<longleftrightarrow> safe base F h0 st h \<and> idle_ctx (dm_context st) \<and> bare (dm_context st) \<and> dm_props st = [] \<and>
     dm_tables st = dm_tables daemon_start"

lemma snapshot_none: "\<forall>c \<in> set cs. \<not> sc_active c \<Longrightarrow> snapshot_loop cs = []"
  by (induction cs) auto

lemma defaults_fields: "nodes (init_context_defaults zero_context) = replicate 6 (zero_cache\<lparr>sc_fd := - 1\<rparr>)"
  "own (init_context_defaults zero_context) = {}" "held (sensor_fds (init_context_defaults zero_context)) = {}"
  "bare (init_context_defaults zero_context)" "lock_fd (init_context_defaults zero_context) = - 1"
  "idle_ctx (init_context_defaults zero_context)"
  by (auto simp: nodes_def init_context_defaults_def zero_context_def own_def sensor_fds_def bare_def idle_ctx_def zero_cache_def
      cache_ok_def numeral_eq_Suc)

lemma undone_Nil [simp]: "undone [] f = f"
  by (simp add: fun_eq_iff)

lemma fleet_ready:
  assumes f: "fleet F h (dm_context st) g" and st: "rs_tbl st = snapshot_loop (nodes (dm_context st))" "dm_props st = []"
    "rs_cnt st = length (rs_tbl st)"
    "dm_tables st = dm_tables daemon_start"
  shows "ready base F h st g"
proof -
  have g: "grows calm h g" using f by (simp add: fleet_def)
  have "prop_now base g = prop_now base h" by (rule prop_now_grows [OF calm_props [OF g]])
  moreover have "\<exists>new. g = new @ h" using g by (auto simp: grows_def)
  moreover have "bl_ok (bl_sensor (dm_context st))" using f by (simp add: fleet_def bare_bl)
  ultimately show ?thesis using assms by (simp add: ready_def safe_def fleet_def idle_ctx_def)
qed

lemma ready_steady: "ready base F h0 st h \<Longrightarrow> steady h h' \<Longrightarrow> ready base F h0 st h'"
  by (auto simp: ready_def intro: safe_steady)

lemma ready_signal [simp]: "ready base F h0 (st\<lparr>dm_signal := sig\<rparr>) h = ready base F h0 st h"
  by (simp add: ready_def safe_def)

lemma steady_opened: "grows calm h g \<Longrightarrow> open_fds g = open_fds h \<Longrightarrow> opened fd g g' \<Longrightarrow> opened fd h g'"
  by (auto simp: opened_def intro: grows_trans)

lemma fleet_dormant [simp]: "fleet F h0 (ctx\<lparr>dormant := True\<rparr>) h = fleet F h0 ctx h"
  by (simp add: fleet_def fitted_def tracks_def node_defs rest_fds_def own_def)

lemma runs_if: "(b \<Longrightarrow> runs x Q) \<Longrightarrow> (\<not> b \<Longrightarrow> runs y Q) \<Longrightarrow> runs (if b then x else y) Q"
  by simp

lemma daemon_boot_spec:
  assumes os: "os_ok os" and h0: "\<And>fd. last_done fd h = None"
  shows "runs (daemon_boot os daemon_start h) (\<lambda>(ret, st, h'). ret \<le> 0 \<and> safe base (open_fds h) h st h' \<and>
    (ret = 0 \<longrightarrow> ready base (open_fds h) h st h' \<and> crash_hook (dm_signal st) = Some Crash_restore))"
proof -
  define c0 where "c0 = init_context_defaults zero_context"
  define F where "F = open_fds h"
  define Q where "Q = (\<lambda>(ret :: int, st, h'). ret \<le> 0 \<and> safe base F h st h' \<and>
    (ret = 0 \<longrightarrow> ready base F h st h' \<and> crash_hook (dm_signal st) = Some Crash_restore))"
  have nodes: "nodes (c0\<lparr>lock_fd := fd\<rparr>) = replicate 6 (zero_cache\<lparr>sc_fd := - 1\<rparr>)" for fd
    using defaults_fields(1) by (simp add: c0_def nodes_def)
  have c: "bare (c0\<lparr>lock_fd := fd\<rparr>)" "idle_ctx (c0\<lparr>lock_fd := fd\<rparr>)" "own (c0\<lparr>lock_fd := fd\<rparr>) = {}"
    "held (rest_fds (c0\<lparr>lock_fd := fd\<rparr>)) = held [fd]" for fd
    using defaults_fields unfolding c0_def rest_fds_def
    by (auto simp: bare_def idle_ctx_def nodes_def own_def sensor_fds_def held_def split: if_splits)
  have tr: "tracks (c0\<lparr>lock_fd := fd\<rparr>) g" for fd g by (simp add: tracks_def nodes zero_cache_def)
  have start: "fleet F h (c0\<lparr>lock_fd := fd\<rparr>) g" if "opened fd h g" for fd g
    using that c tr calm_done [of h g] h0 unfolding fleet_def
    by (auto simp: fitted_def F_def opened_def bare_def split: if_splits)
  have early: "Q (ret, daemon_start\<lparr>dm_context := c0\<lparr>lock_fd := fd\<rparr>\<rparr>, g)" if "opened fd h g" "ret < 0" for ret fd g
  proof -
    have "ready base F h (daemon_start\<lparr>dm_context := c0\<lparr>lock_fd := fd\<rparr>\<rparr>) g"
      using start [OF that(1)] by (intro fleet_ready) (simp_all add: daemon_start_def nodes snapshot_none zero_cache_def)
    then show ?thesis using that(2) by (simp add: Q_def ready_def less_imp_le)
  qed
  have late: "runs (init_os_environment os sig g) (\<lambda>(sig, g'). Q (if \<not> fst (pg_detect_cpu_psi os g') then - ENODEV else 0,
      st\<lparr>dm_signal := sig\<rparr>, snd (pg_detect_cpu_psi os g')))" if r: "ready base F h st g" for sig st g
  proof (rule runs_mono [OF init_env_steady [OF os]], clarify)
    fix sig' :: pg_signal_state and g' assume "steady g g'" and hook: "crash_hook sig' = Some Crash_restore"
    from this(1) have "steady g (snd (pg_detect_cpu_psi os g'))" using steady_looks [OF detect_looks(1)] by (rule steady_trans)
    from ready_steady [OF r this] hook show "Q (if \<not> fst (pg_detect_cpu_psi os g') then - ENODEV else 0,
        st\<lparr>dm_signal := sig'\<rparr>, snd (pg_detect_cpu_psi os g'))"
      by (auto simp: Q_def ready_def safe_def)
  qed
  obtain p g0 where p: "pg_detect_privilege os h = (p, g0)" by (cases "pg_detect_privilege os h")
  have g0: "steady h g0" "grows calm h g0" "p \<le> 0"
    using detect_looks(2) [of h os] privilege_result [of os h] p
    by (auto simp: looks_def steady_looks intro: grows_mono quiet_calm changes_quiet)
  obtain fd g1 where l: "pg_lockfile_init os PG_PATH_LOCK g0 = (fd, g1)" by (cases "pg_lockfile_init os PG_PATH_LOCK g0")
  have o1: "opened fd h g1" using lockfile_opened [OF os, where path = PG_PATH_LOCK and h = g0] l g0 by (auto simp: steady_def intro: steady_opened)
  obtain b g2 where b: "pg_prop_wait_boot os g1 = (b, g2)" by (cases "pg_prop_wait_boot os g1")
  have b_calm: "grows calm g1 g2" "open_fds g2 = open_fds g1"
    using boot_calm [where os = os and h = g1] b by simp_all
  have o2: "opened fd h g2" using o1 b_calm by (rule opened_steady)
  define go where "go = (\<lambda>(n :: int, ctx, h). do {
      (sig, h) \<leftarrow> init_os_environment os (dm_signal daemon_start) h;
      Some (if \<not> fst (pg_detect_cpu_psi os h) then - ENODEV else 0,
        (restore_snapshot (if n = 0 then ctx\<lparr>dormant := True\<rparr> else ctx)
           (daemon_start\<lparr>dm_context := (if n = 0 then ctx\<lparr>dormant := True\<rparr> else ctx)\<rparr>))\<lparr>dm_signal := sig\<rparr>,
        snd (pg_detect_cpu_psi os h)) })"
  have go: "runs (go (n, ctx, g)) Q" if "fleet F h ctx g" for n ctx g
  proof -
    have "ready base F h (restore_snapshot ctx' (daemon_start\<lparr>dm_context := ctx'\<rparr>)) g" if "fleet F h ctx' g" for ctx'
      using that by (intro fleet_ready) (simp_all add: restore_snapshot_def daemon_start_def Let_def)
    then have "ready base F h (restore_snapshot (if n = 0 then ctx\<lparr>dormant := True\<rparr> else ctx)
        (daemon_start\<lparr>dm_context := (if n = 0 then ctx\<lparr>dormant := True\<rparr> else ctx)\<rparr>)) g"
      using that by simp
    from late [OF this, of "dm_signal daemon_start"] show ?thesis unfolding go_def prod.case by (simp add: case_prod_unfold split del: if_split)
  qed
  have caches: "runs (init_sysfs_caches os (c0\<lparr>lock_fd := fd\<rparr>) g2) (\<lambda>(n, ctx, h'). fleet F h ctx h')"
    by (rule init_caches_spec [OF os start [OF o2]]) (simp add: nodes)
  have eq: "daemon_boot os daemon_start h = (if p \<noteq> 0 then Some (p, daemon_start\<lparr>dm_context := c0\<rparr>, g0)
      else if fd < 0 then Some (fd, daemon_start\<lparr>dm_context := c0\<lparr>lock_fd := fd\<rparr>\<rparr>, g1)
      else if \<not> b then Some (- ETIMEDOUT, daemon_start\<lparr>dm_context := c0\<lparr>lock_fd := fd\<rparr>\<rparr>, g2)
      else init_sysfs_caches os (c0\<lparr>lock_fd := fd\<rparr>) g2 \<bind> go)"
    by (simp add: daemon_boot_def p l b c0_def [symmetric] go_def restore_snapshot_def case_prod_unfold Let_def daemon_start_def)
  have c0: "c0\<lparr>lock_fd := - 1\<rparr> = c0" by (simp add: c0_def init_context_defaults_def zero_context_def)
  have o0: "opened (- 1) h g0" using g0 by (simp add: opened_def steady_def)
  have "runs (daemon_boot os daemon_start h) Q"
    unfolding eq
  proof (intro runs_if)
    show "runs (Some (p, daemon_start\<lparr>dm_context := c0\<rparr>, g0)) Q" if "p \<noteq> 0"
      using early [OF o0, of p] c0 g0(3) that by simp
    show "runs (Some (fd, daemon_start\<lparr>dm_context := c0\<lparr>lock_fd := fd\<rparr>\<rparr>, g1)) Q" if "fd < 0"
      using early [OF o1 that] by simp
    show "runs (Some (- ETIMEDOUT, daemon_start\<lparr>dm_context := c0\<lparr>lock_fd := fd\<rparr>\<rparr>, g2)) Q"
      using early [OF o2, of "- ETIMEDOUT"] by simp
    show "runs (init_sysfs_caches os (c0\<lparr>lock_fd := fd\<rparr>) g2 \<bind> go) Q"
      unfolding runs_simps by (rule runs_mono [OF caches]) (clarify, rule go)
  qed
  then show ?thesis by (simp add: Q_def F_def)
qed

end
