(* ===== verification/Pg_Life.thy ===== *)
theory Pg_Life
  imports Pg_Fleet
begin

section \<open>The sensors and the trigger\<close>

text \<open>The parts are opened one after the other; the nodes stay as they are.\<close>

definition rigged :: "int set \<Rightarrow> pg_context \<Rightarrow> hist \<Rightarrow> pg_context \<Rightarrow> hist \<Rightarrow> bool" where
  "rigged F c0 h0 ctx h \<longleftrightarrow> fitted F ctx h \<and> nodes ctx = nodes c0 \<and> idle_ctx ctx \<and> bl_ok (bl_sensor ctx) \<and> grows calm h0 h"

lemma rigged_calm: "rigged F c0 h0 ctx h \<Longrightarrow> grows calm h h' \<Longrightarrow> open_fds h' = open_fds h \<Longrightarrow> rigged F c0 h0 ctx h'"
  by (auto simp: rigged_def intro: fitted_steady grows_trans)

lemma rigged_looks: "rigged F c0 h0 ctx h \<Longrightarrow> looks h h' \<Longrightarrow> rigged F c0 h0 ctx h'"
  by (erule rigged_calm) (auto simp: looks_def balanced_fds intro: grows_mono quiet_calm changes_quiet)

text \<open>The fields that no descriptor depends on.\<close>

definition parts :: "pg_context \<Rightarrow> pg_sysfs_cache list \<times> q16 \<times> u8 \<times> u8 \<times> q16" where
  "parts ctx = (nodes ctx, cached_th_scl ctx, psi_fails ctx, temp_fails ctx, psi_val (load_state ctx))"

lemma parts_idle: "parts ctx' = parts ctx \<Longrightarrow> idle_ctx ctx' = idle_ctx ctx \<and> nodes ctx' = nodes ctx"
  by (simp add: parts_def idle_ctx_def)

lemma rigged_rest:
  assumes "rigged F c0 h0 ctx h" "opened fd h h'" "held (sensor_fds ctx') = held [fd] \<union> held (sensor_fds ctx)"
    "mon_fd (psi ctx') = mon_fd (psi ctx)" "trg_fd ctx' = trg_fd ctx" "parts ctx' = parts ctx" "bl_ok (bl_sensor ctx')"
  shows "rigged F c0 h0 ctx' h'"
  using assms parts_idle [OF assms(6)] fitted_rest [of F ctx h fd h' ctx']
  by (auto simp: rigged_def rest_fds_def opened_def intro: grows_trans)

lemma rigged_own:
  assumes "rigged F c0 h0 ctx h" "opened fd h h'" "sensor_fds ctx' = sensor_fds ctx" "parts ctx' = parts ctx" "bl_sensor ctx' = bl_sensor ctx"
    "mon_fd (psi ctx') = fd \<and> mon_fd (psi ctx) < 0 \<and> trg_fd ctx' = trg_fd ctx \<or>
     trg_fd ctx' = fd \<and> trg_fd ctx < 0 \<and> mon_fd (psi ctx') = mon_fd (psi ctx)"
  shows "rigged F c0 h0 ctx' h'"
  using assms parts_idle [OF assms(4)] fitted_own [of F ctx h fd h' ctx']
  by (auto simp: rigged_def rest_fds_def opened_def intro: grows_trans)

lemma rigged_cong:
  assumes "sensor_fds ctx' = sensor_fds ctx" "parts ctx' = parts ctx" "mon_fd (psi ctx') = mon_fd (psi ctx)" "trg_fd ctx' = trg_fd ctx"
    "bl_sensor ctx' = bl_sensor ctx" "rigged F c0 h0 ctx h"
  shows "rigged F c0 h0 ctx' h"
proof -
  have "own ctx' = own ctx" "rest_fds ctx' = rest_fds ctx"
    using assms(1-4) parts_idle [OF assms(2)] by (simp_all add: own_def rest_fds_def)
  then have "fitted F ctx' h = fitted F ctx h" using assms(3,4) by (simp add: fitted_def)
  then show ?thesis using assms(5,6) parts_idle [OF assms(2)] by (simp add: rigged_def)
qed

lemmas rig_defs = sensor_fds_def parts_def nodes_def

lemma temp_sensors_spec:
  assumes os: "os_ok os" and g: "rigged F c0 h0 ctx g" and b: "bare ctx"
  shows "case open_temp_sensors os path ctx g of (ctx', h') \<Rightarrow> rigged F c0 h0 ctx' h' \<and>
    mon_fd (psi ctx') < 0 \<and> sig_fd ctx' < 0 \<and> trg_fd ctx' < 0"
proof -
  obtain f1 g1 where f1: "sensor_open os path g = (f1, g1)" by (cases "sensor_open os path g")
  obtain f2 g2 where f2: "sensor_open os PG_PATH_BATTERY_TEMP g1 = (f2, g2)" by (cases "sensor_open os PG_PATH_BATTERY_TEMP g1")
  obtain f3 g3 where f3: "sensor_open os PG_PATH_BATTERY_CAP g2 = (f3, g3)" by (cases "sensor_open os PG_PATH_BATTERY_CAP g2")
  have o: "opened f1 g g1" "opened f2 g1 g2" "opened f3 g2 g3"
    using sensor_open_opened [OF os, where path = path and h = g] f1
      sensor_open_opened [OF os, where path = PG_PATH_BATTERY_TEMP and h = g1] f2
      sensor_open_opened [OF os, where path = PG_PATH_BATTERY_CAP and h = g2] f3 by simp_all
  define s where "s = (cpu_temp_sensor ctx)\<lparr>ts_fd := f1, ts_scale := 1000\<rparr>"
  define t where "t = (bat_temp_sensor ctx)\<lparr>ts_fd := f2, ts_scale := 10\<rparr>"
  define u where "u = (bat_cap_sensor ctx)\<lparr>bs_fd := f3\<rparr>"
  have bl: "bl_ok (bl_sensor ctx)" using b by (rule bare_bl)
  have r1: "rigged F c0 h0 (ctx\<lparr>cpu_temp_sensor := s\<rparr>) g1"
    using b bl by (intro rigged_rest [OF g o(1)]) (auto simp: bare_def rig_defs s_def)
  have r2: "rigged F c0 h0 (ctx\<lparr>cpu_temp_sensor := s, bat_temp_sensor := t\<rparr>) g2"
    using b bl by (intro rigged_rest [OF r1 o(2)]) (auto simp: bare_def rig_defs t_def)
  have r3: "rigged F c0 h0 (ctx\<lparr>cpu_temp_sensor := s, bat_temp_sensor := t, bat_cap_sensor := u\<rparr>) g3"
    using b bl by (intro rigged_rest [OF r2 o(3)]) (auto simp: bare_def rig_defs u_def)
  have "open_temp_sensors os path ctx g = (ctx\<lparr>cpu_temp_sensor := s, bat_temp_sensor := t, bat_cap_sensor := u\<rparr>, g3)"
    by (simp add: open_temp_sensors_def pg_sensor_init_cpu_temp_def pg_sensor_init_bat_temp_def pg_sensor_init_bat_cap_def
        f1 f2 f3 s_def t_def u_def)
  then show ?thesis using r3 b by (simp add: bare_def)
qed

lemma trigger_spec:
  assumes os: "os_ok os" and r: "rigged F c0 h0 ctx h" and b: "trg_fd ctx < 0"
  shows "runs (init_trigger os ctx h) (\<lambda>(ret, ctx', h'). rigged F c0 h0 ctx' h' \<and> ret \<le> 0 \<and> (\<exists>fd. ctx' = ctx\<lparr>trg_fd := fd\<rparr>))"
proof (cases "dormant ctx")
  case True
  have "ctx = ctx\<lparr>trg_fd := trg_fd ctx\<rparr>" by simp
  then have "\<exists>fd. ctx = ctx\<lparr>trg_fd := fd\<rparr>" by blast
  then show ?thesis using True r by (simp add: init_trigger_def)
next
  case False
  have "rigged F c0 h0 (ctx\<lparr>trg_fd := fd\<rparr>) g" if "opened fd h g" for fd g
    using b by (intro rigged_own [OF r that]) (auto simp: rig_defs)
  then show ?thesis
    using False by (auto simp: init_trigger_def intro!: runs_mono [OF open_trg_opened [OF os]])
qed

lemma bl_loop_spec:
  assumes os: "os_ok os"
  shows "rigged F c0 h0 (ctx\<lparr>bl_sensor := s\<rparr>) h \<Longrightarrow> init_bl_loop os paths s h = (s', h') \<Longrightarrow> rigged F c0 h0 (ctx\<lparr>bl_sensor := s'\<rparr>) h'"
proof (induction paths arbitrary: s h)
  case (Cons path paths)
  obtain s1 g where i: "pg_sensor_init_bl os s path h = (s1, g)" by (cases "pg_sensor_init_bl os s path h")
  have ok: "bl_ok s" using Cons.prems(1) by (simp add: rigged_def)
  then have ok1: "bl_ok s1" using init_bl_ok [OF os, of s path h] i by simp
  have "rigged F c0 h0 (ctx\<lparr>bl_sensor := s1\<rparr>) g"
  proof (cases "\<exists>fd. os_open os h path [O_RDONLY, O_CLOEXEC] = Inr fd \<and> path \<noteq> [] \<and> \<not> 4 \<le> bl_n s")
    case True
    then obtain fd where fd: "os_open os h path [O_RDONLY, O_CLOEXEC] = Inr fd" "path \<noteq> []" "\<not> 4 \<le> bl_n s" by blast
    then have e: "s1 = s\<lparr>bl_fd := (bl_fd s)[bl_n s := fd], bl_n := bl_n s + 1\<rparr>" "g = Open path [O_RDONLY, O_CLOEXEC] (Inr fd) # h"
      using i by (auto simp: pg_sensor_init_bl_def sys_open_def Let_def)
    have "take (bl_n s + 1) ((bl_fd s)[bl_n s := fd]) = take (bl_n s) (bl_fd s) @ [fd]"
      using ok fd(3) by (simp add: bl_ok_def take_Suc_conv_app_nth)
    then show ?thesis
      using ok1 unfolding e by (intro rigged_rest [OF Cons.prems(1) open_opened [OF os fd(1)]]) (auto simp: rig_defs)
  next
    case False
    then have "s1 = s \<and> (g = h \<or> (\<exists>err. g = Open path [O_RDONLY, O_CLOEXEC] (Inl err) # h))"
      using i by (auto simp: pg_sensor_init_bl_def sys_open_def Let_def split: if_splits sum.splits)
    then show ?thesis using Cons.prems(1) by (auto simp: quiet_calm elim!: rigged_calm)
  qed
  then show ?case using Cons.IH Cons.prems(2) i by simp
qed simp

lemma bl_loop_keeps:
  assumes os: "os_ok os"
  shows "F \<subseteq> open_fds h \<Longrightarrow> init_bl_loop os paths s h = (s', h') \<Longrightarrow> keeps_open F h h'"
proof (induction paths arbitrary: s h)
  case (Cons path paths)
  obtain s1 g where i: "pg_sensor_init_bl os s path h = (s1, g)" by (cases "pg_sensor_init_bl os s path h")
  then have "g = h \<or> (\<exists>r. g = Open path [O_RDONLY, O_CLOEXEC] r # h \<and> os_open os h path [O_RDONLY, O_CLOEXEC] = r)"
    by (auto simp: pg_sensor_init_bl_def sys_open_def Let_def split: if_splits sum.splits)
  moreover have "keeps_open F h (Open p f r # h) \<and> F \<subseteq> open_fds (Open p f r # h)" if "os_open os h p f = r" for p f r
    using Cons.prems(1) fresh_fd(1) [OF os, of h p f] that by (cases r) auto
  ultimately have "keeps_open F h g \<and> F \<subseteq> open_fds g" using Cons.prems(1) by blast
  then show ?case using Cons.IH [of g s1] Cons.prems(2) i by (auto intro: keeps_open_trans)
qed simp

lemma psi_stage:
  assumes "os_ok os" "rigged F c0 h0 ctx h" "mon_fd (psi ctx) < 0" "pg_psi_init os (psi ctx) path h = (mon, h')"
  shows "rigged F c0 h0 (ctx\<lparr>psi := mon\<rparr>) h' \<and> psi_ok mon"
proof -
  have o: "opened (mon_fd mon) h h'" "psi_ok mon"
    using psi_init_opened [OF assms(1), where mon = "psi ctx" and path = path and h = h] assms(4) by simp_all
  have "rigged F c0 h0 (ctx\<lparr>psi := mon\<rparr>) h'"
    using assms(3) by (intro rigged_own [OF assms(2) o(1)]) (auto simp: rig_defs)
  then show ?thesis using o(2) by blast
qed

lemma signal_stage:
  assumes "os_ok os" "rigged F c0 h0 ctx h" "sig_fd ctx < 0" "pg_signal_init os h = (fd, h')"
  shows "rigged F c0 h0 (ctx\<lparr>sig_fd := fd\<rparr>) h' \<and> (0 \<le> fd \<longrightarrow> sig_alive fd h')"
proof -
  have o: "opened fd h h'" "0 \<le> fd \<longrightarrow> sig_alive fd h'"
    using signal_opened [OF assms(1), where h = h] assms(4) by simp_all
  have "rigged F c0 h0 (ctx\<lparr>sig_fd := fd\<rparr>) h'"
    using assms(2,3) by (intro rigged_rest [OF assms(2) o(1)]) (auto simp: rig_defs rigged_def)
  then show ?thesis using o(2) by blast
qed

text \<open>The thermal controller and the poll interval only look at the clock.\<close>

lemma controller_stage:
  assumes r: "rigged F c0 h0 ctx h" and t: "pg_thermal_init os (thermal_state ctx) h = (th, h1)" "pg_poll_init os (poll_state ctx) h1 = (po, h2)"
  shows "rigged F c0 h0 (ctx\<lparr>thermal_state := th, poll_state := po\<rparr>) h2 \<and> thermal_ok th \<and> cur_ivl po = 100 \<and> keeps_open F' h h2"
proof -
  have h1: "\<exists>a. h1 = Clock CLOCK_MONOTONIC a # h" and th: "thermal_ok th"
    using t(1) filter_reset_ok by (auto simp: pg_thermal_init_def sys_clock_def thermal_ok_def thermal_filter_reset_def Let_def)
  have h2: "\<exists>b c. h2 = Clock CLOCK_REALTIME c # Clock CLOCK_MONOTONIC b # h1" and po: "cur_ivl po = 100"
    using t(2) by (auto simp: pg_poll_init_def sys_clock_def Let_def)
  have "grows calm h h2 \<and> open_fds h2 = open_fds h" using h1 h2 by (auto simp: quiet_calm intro!: grows_Cons)
  then have "rigged F c0 h0 ctx h2" using rigged_calm [OF r] by blast
  then have "rigged F c0 h0 (ctx\<lparr>thermal_state := th, poll_state := po\<rparr>) h2"
    by (rule rigged_cong [rotated 5]) (simp_all add: rig_defs)
  then show ?thesis using th po h1 h2 by (auto intro!: keeps_open_Cons)
qed

definition wired_up :: "int set \<Rightarrow> pg_context \<Rightarrow> hist \<Rightarrow> int \<Rightarrow> pg_context \<Rightarrow> hist \<Rightarrow> bool" where
  "wired_up F c0 h0 ret ctx h \<longleftrightarrow> ret \<le> 0 \<and> rigged F c0 h0 ctx h \<and> (ret = 0 \<longrightarrow> ctx_ok ctx \<and> sig_alive (sig_fd ctx) h)"

lemma wired_up_failed: "rigged F c0 h0 ctx h \<Longrightarrow> ret < 0 \<Longrightarrow> wired_up F c0 h0 ret ctx h"
  by (simp add: wired_up_def)

lemma backlights_spec:
  assumes os: "os_ok os" and c: "rigged F c0 h0 c g" "psi_ok (psi c)" "thermal_ok (thermal_state c)" "cur_ivl (poll_state c) = 100"
    and s: "sig_alive (sig_fd c) g"
  shows "runs (init_backlights os c g) (\<lambda>(c', g'). wired_up F c0 h0 0 c' g')"
  unfolding init_backlights_def
proof (simp only: runs_simps, rule runs_mono [OF backlight_spec [OF os]], clarify)
  fix paths :: "string list" and g1 assume l: "looks g g1"
  obtain bl g2 where bl: "init_bl_loop os paths (bl_sensor c) g1 = (bl, g2)" by (cases "init_bl_loop os paths (bl_sensor c) g1")
  have "rigged F c0 h0 (c\<lparr>bl_sensor := bl_sensor c\<rparr>) g1" using rigged_looks [OF c(1) l] by simp
  from bl_loop_spec [OF os this bl] have r2: "rigged F c0 h0 (c\<lparr>bl_sensor := bl\<rparr>) g2" .
  have "keeps_open (open_fds g) g g1" using balanced_keeps [of g g1] l by (simp add: looks_def)
  then have "keeps_open (open_fds g) g g2"
    using bl_loop_keeps [OF os _ bl, of "open_fds g"] looks_fds [OF l] by (auto intro: keeps_open_trans)
  then have s2: "sig_alive (sig_fd c) g2" using sig_alive_keeps [OF s] sig_alive_open [OF s] by blast
  have "idle_ctx (c\<lparr>bl_sensor := bl\<rparr>)" using r2 by (simp add: rigged_def)
  then have "ctx_ok (c\<lparr>bl_sensor := bl\<rparr>)" using c(2-4) by (simp add: idle_ctx_def ctx_ok_def q16_consts)
  then show "runs (let (bl, h) = init_bl_loop os paths (bl_sensor c) g1 in Some (c\<lparr>bl_sensor := bl\<rparr>, h)) (\<lambda>(c', g'). wired_up F c0 h0 0 c' g')"
    using r2 s2 by (auto simp: bl wired_up_def)
qed

lemma monitors_spec:
  assumes os: "os_ok os" and c: "rigged F c0 h0 c g" "mon_fd (psi c) < 0" "sig_fd c < 0"
  shows "runs (init_monitors os c g) (\<lambda>(ret, c', g'). wired_up F c0 h0 ret c' g')"
proof -
  obtain mon g1 where m: "pg_psi_init os (psi c) PG_PATH_PSI_CPU g = (mon, g1)" by (cases "pg_psi_init os (psi c) PG_PATH_PSI_CPU g")
  note p = psi_stage [OF os c(1,2) m]
  obtain fd g2 where f: "pg_signal_init os g1 = (fd, g2)" by (cases "pg_signal_init os g1")
  have sg: "rigged F c0 h0 (c\<lparr>psi := mon, sig_fd := fd\<rparr>) g2" "0 \<le> fd \<longrightarrow> sig_alive fd g2"
    using signal_stage [OF os p [THEN conjunct1] _ f] c(3) by simp_all
  obtain th g3 where th: "pg_thermal_init os (thermal_state c) g2 = (th, g3)" by (cases "pg_thermal_init os (thermal_state c) g2")
  obtain po g4 where po: "pg_poll_init os (poll_state c) g3 = (po, g4)" by (cases "pg_poll_init os (poll_state c) g3")
  define c' where "c' = c\<lparr>psi := mon, sig_fd := fd, thermal_state := th, poll_state := po\<rparr>"
  have "rigged F c0 h0 c' g4 \<and> thermal_ok th \<and> cur_ivl po = 100 \<and> keeps_open {fd} g2 g4"
    using controller_stage [OF sg(1), of os th g3 po g4 "{fd}"] th po by (simp add: c'_def)
  then have "0 \<le> fd \<Longrightarrow> runs (init_backlights os c' g4) (\<lambda>(c', g'). wired_up F c0 h0 0 c' g')"
    using p sg sig_alive_keeps [of fd g2 "{fd}" g4] by (intro backlights_spec [OF os]) (auto simp: c'_def)
  then show ?thesis
    using wired_up_failed [OF sg(1), of fd] unfolding init_monitors_def m Let_def prod.case f
    by (intro runs_if) (auto simp: th po c'_def elim: runs_mono)
qed

lemma sensors_spec:
  assumes os: "os_ok os" and r: "rigged F c0 h0 ctx h" and b: "bare ctx"
  shows "runs (init_sensors_and_triggers os ctx h) (\<lambda>(ret, ctx', h'). wired_up F c0 h0 ret ctx' h')"
  unfolding init_sensors_and_triggers_def
proof (simp only: runs_simps, rule runs_mono [OF thermal_zone_spec [OF os]], clarify)
  fix path g assume "looks h g"
  then have g: "rigged F c0 h0 ctx g" using rigged_looks [OF r] by blast
  obtain c g1 where o: "open_temp_sensors os path ctx g = (c, g1)" by (cases "open_temp_sensors os path ctx g")
  then have c: "rigged F c0 h0 c g1" "mon_fd (psi c) < 0" "sig_fd c < 0" "trg_fd c < 0"
    using temp_sensors_spec [OF os g b, of path] by simp_all
  show "runs (let (ctx, h) = open_temp_sensors os path ctx g in do {
      (ret, ctx, h) \<leftarrow> init_trigger os ctx h;
      if ret < 0 then Some (ret, ctx, h) else init_monitors os ctx h }) (\<lambda>(ret, ctx', h'). wired_up F c0 h0 ret ctx' h')"
    unfolding o Let_def prod.case runs_simps using c
    by (auto intro!: runs_mono [OF trigger_spec [OF os c(1,4)]] monitors_spec [OF os] wired_up_failed)
qed

section \<open>The tuning and the set-up\<close>

lemma block_tune_steady: "os_ok os \<Longrightarrow> runs (pg_block_tune os h) (\<lambda>(ret, h'). steady h h')"
proof (rule runs_mono [OF block_tune_spec], assumption, clarify)
  fix h' assume k: "keeps_files h h'" "open_fds h' = open_fds h" "grows (\<lambda>e. changes e \<longrightarrow> writes e) h h'"
  have "\<not> sets_prop e" if "changes e \<longrightarrow> writes e" for e using that by (cases e rule: sets_prop.cases) auto
  then have "grows (\<lambda>e. \<not> sets_prop e) h h'" using k(3) by (auto elim: grows_mono)
  then show "steady h h'" using k(1,2) by (simp add: steady_def keeps_files_def)
qed

definition set_up :: "(string \<Rightarrow> string) \<Rightarrow> int set \<Rightarrow> hist \<Rightarrow> int \<Rightarrow> pg_daemon \<Rightarrow> hist \<Rightarrow> bool" where
  "set_up base F h0 ret st h \<longleftrightarrow> ret \<le> 0 \<and> safe base F h0 st h \<and> dm_props st = [] \<and>
     (ret = 0 \<longrightarrow> tables_ok (dm_tables st) \<and> ctx_ok (dm_context st) \<and> owns (dm_context st) h \<and>
        sig_alive (sig_fd (dm_context st)) h \<and> crash_hook (dm_signal st) = Some Crash_restore)"

lemma fitted_owns: "fitted F ctx h \<Longrightarrow> owns ctx h"
  by (auto simp: fitted_def owns_def)

lemma ready_rigged: "ready base F h0 st h \<Longrightarrow> rigged F (dm_context st) h (dm_context st) h"
  by (simp add: ready_def safe_def rigged_def)

lemma rigged_safe:
  assumes r: "ready base F h0 st h" and c: "rigged F (dm_context st) h ctx h'"
  shows "safe base F h0 (st\<lparr>dm_tables := tbl, dm_context := ctx\<rparr>) h'"
proof -
  have g: "grows calm h h'" "nodes ctx = nodes (dm_context st)" using c by (simp_all add: rigged_def)
  have "tracks (dm_context st) h" using r by (simp add: ready_def safe_def)
  then have "tracks (dm_context st) h'" using tracks_done [OF calm_done [OF g(1)]] by simp
  then have "tracks ctx h'" using tracks_nodes [OF g(2)] by simp
  moreover have "prop_now base h' = prop_now base h" by (rule prop_now_grows [OF calm_props [OF g(1)]])
  moreover have "\<exists>new. h' = new @ h0" using r g(1) by (auto simp: ready_def safe_def grows_def)
  moreover have "undone (dm_props st) (prop_now base h) = prop_now base h0" "list_all cache_ok (nodes (dm_context st))"
    "rs_tbl st = snapshot_loop (nodes (dm_context st))" "rs_cnt st = length (rs_tbl st)" using r unfolding ready_def safe_def by blast+
  ultimately show ?thesis using c by (simp add: safe_def rigged_def)
qed

lemma daemon_setup_spec:
  assumes os: "os_ok os" and r: "ready base F h0 st h" and k: "crash_hook (dm_signal st) = Some Crash_restore"
  shows "runs (daemon_setup os st h) (\<lambda>(ret, st', h'). set_up base F h0 ret st' h')"
proof -
  have t: "t_lim (dm_tables st) = LIM_CPU" "t_cpu (dm_tables st) = CFG_CPU" "t_thermal (dm_tables st) = CFG_THERMAL" "dm_props st = []"
    using r by (simp_all add: ready_def daemon_start_def)
  have fin: "set_up base F h0 ret (st\<lparr>dm_tables := tbl, dm_context := ctx\<rparr>) g'"
    if "steady h g" "wired_up F (dm_context st) g ret ctx g'" "tables_ok tbl" for g ret ctx g' tbl
    using that t(4) k rigged_safe [OF ready_steady [OF r that(1)], of ctx g' tbl]
    by (auto simp: wired_up_def set_up_def rigged_def fitted_owns)
  have sensors: "runs (init_sensors_and_triggers os (dm_context st) g)
      (\<lambda>(ret, ctx, g'). set_up base F h0 ret (st\<lparr>dm_tables := tbl, dm_context := ctx\<rparr>) g')" if "steady h g" "tables_ok tbl" for g tbl
  proof -
    have g: "ready base F h0 st g" by (rule ready_steady [OF r that(1)])
    then have "bare (dm_context st)" by (simp add: ready_def)
    from sensors_spec [OF os ready_rigged [OF g] this] fin [OF that(1) _ that(2)] show ?thesis by (auto elim: runs_mono)
  qed
  have blocks: "runs (pg_block_tune os g) (\<lambda>(u, g'). runs (init_sensors_and_triggers os (dm_context st) g')
      (\<lambda>(ret, ctx, g'). set_up base F h0 ret (st\<lparr>dm_tables := tbl, dm_context := ctx\<rparr>) g'))" if "looks h g" "tables_ok tbl" for g tbl
    using sensors [OF steady_trans [OF steady_looks [OF that(1)]] that(2)] by (auto intro: runs_mono [OF block_tune_steady [OF os]])
  have configs: "runs (pg_tune_configs os CFG_CPU CFG_THERMAL g) (\<lambda>(c, t, g'). cpu_cfg_ok c \<and> thermal_cfg_ok t \<and> looks h g')" if "looks h g" for g
    using looks_trans [OF that] by (auto intro: runs_mono [OF tune_configs_spec [OF os cfg_defaults_ok(1)]])
  show ?thesis
    unfolding daemon_setup_def t
    by (auto simp: tables_ok_def case_prod_unfold intro!: runs_mono [OF tune_limits_spec [OF os lim_cpu_ok]] runs_mono [OF configs]
        blocks [unfolded case_prod_unfold])
qed

section \<open>Serving\<close>

lemma looks_balanced: "looks h h' \<Longrightarrow> balanced h h'"
  by (simp add: looks_def)

lemma first_readings_spec:
  assumes os: "os_ok os"
  shows "runs (first_readings os ctx h) (\<lambda>(ctx', h'). looks h h' \<and>
    (\<exists>a b c d e. ctx' = ctx\<lparr>last_bat := a, last_therm := b, last_sweep := c, bat_lvl := d, bat_temp := e\<rparr>))"
proof -
  have l: "looks h (new2 @ new1 @ Clock CLOCK_MONOTONIC a # Clock CLOCK_MONOTONIC b # Clock CLOCK_MONOTONIC c # h)"
    if "only_reads new1" "only_reads new2" for new1 new2 a b c
    using looks_trans [OF looks_trans [OF _ only_reads_looks [OF that(1)]] only_reads_looks [OF that(2)]] by (simp add: looks_Cons)
  have temp: "runs (pg_sensor_read_bat_temp os s g) (\<lambda>(ret, t, h'). \<exists>new. h' = new @ g \<and> only_reads new)" for s g
    unfolding pg_sensor_read_bat_temp_def by (rule runs_mono [OF read_temp_spec [OF os]]) (auto simp: q16_consts)
  define Q where "Q = (\<lambda>(ctx', h'). looks h h' \<and>
    (\<exists>a b c d e. ctx' = ctx\<lparr>last_bat := a, last_therm := b, last_sweep := c, bat_lvl := d, bat_temp := e\<rparr>))"
  have fin: "Q (ctx\<lparr>last_bat := a, last_therm := b, last_sweep := c, bat_lvl := d, bat_temp := e\<rparr>,
      new2 @ new1 @ Clock CLOCK_MONOTONIC c # Clock CLOCK_MONOTONIC b # Clock CLOCK_MONOTONIC a # h)"
    if "only_reads new1" "only_reads new2" for new1 new2 a b c d e
    using l [OF that] unfolding Q_def prod.case by blast
  show ?thesis
    unfolding first_readings_def sys_clock_def Let_def prod.case Q_def [symmetric] runs_simps(3)
    by (auto intro!: runs_mono [OF bat_cap_spec [OF os]] runs_mono [OF temp] fin)
qed

lemma safe_files:
  assumes "safe base F h0 st h" "keeps_files h h'" "undone props (prop_now base h') = undone (dm_props st) (prop_now base h)"
  shows "safe base F h0 (st\<lparr>dm_props := props\<rparr>) h'"
proof -
  let ?c = "dm_context st"
  have f: "fitted F ?c h" "list_all cache_ok (nodes ?c)" "tracks ?c h" using assms(1) by (simp_all add: safe_def)
  have o: "open_fds h' = open_fds h" "\<forall>fd \<in> open_fds h. last_done fd h' = last_done fd h" using assms(2) by (simp_all add: keeps_files_def)
  have "\<exists>new. h' = new @ h0" using assms(1) keeps_files_new [OF assms(2)] by (auto simp: safe_def)
  then show ?thesis
    using assms(1,3) fitted_steady [OF f(1) o(1)] tracks_open [OF f(1,2,3) o(2)] by (simp add: safe_def)
qed

text \<open>After the governor ran, the state still accounts for all descriptors.\<close>

lemma rest_fds_fittings: "fittings ctx' = fittings ctx \<Longrightarrow> rest_fds ctx' = rest_fds ctx"
proof -
  have *: "rest_fds c = (case fittings c of (ns, cpu, bat, cap, bl, sig, lock, dorm) \<Rightarrow>
      [sig, lock, ts_fd cpu, ts_fd bat, bs_fd cap] @ take (bl_n bl) (bl_fd bl) @ map fst ns)" for c
    by (simp add: rest_fds_def sensor_fds_def fittings_def node_id_def)
  show "fittings ctx' = fittings ctx \<Longrightarrow> rest_fds ctx' = rest_fds ctx" by (simp add: *)
qed

lemma snapshot_fittings: "map node_id cs' = map node_id cs \<Longrightarrow> snapshot_loop cs' = snapshot_loop cs"
proof (induction cs' arbitrary: cs)
  case (Cons c' cs')
  then obtain c ds where cs: "cs = c # ds" "node_id c' = node_id c" "map node_id cs' = map node_id ds" by (cases cs) auto
  from Cons.IH [OF cs(3)] show ?case using cs(2) by (simp add: cs(1) node_id_def)
qed simp

lemma safe_served:
  assumes s: "safe base F h0 st h" and g: "gov_state tbl (dm_context st) h ctx h'"
  shows "safe base F h0 (st\<lparr>dm_context := ctx\<rparr>) h'"
proof -
  let ?c = "dm_context st"
  have g': "ctx_ok ctx" "owns ctx h'" "open_fds h' - own ctx = open_fds h - own ?c" "fittings ctx = fittings ?c"
    "tracks ?c h \<Longrightarrow> tracks ctx h'" "grows (\<lambda>e. \<not> sets_prop e) h h'" using g by (simp_all add: gov_state_def)
  have s': "fitted F ?c h" "tracks ?c h" "bl_ok (bl_sensor ?c)" "rs_tbl st = snapshot_loop (nodes ?c)" "\<exists>new. h = new @ h0" "rs_cnt st = length (rs_tbl st)"
    "undone (dm_props st) (prop_now base h) = prop_now base h0" using s by (simp_all add: safe_def)
  have "fitted F ctx h'"
  proof -
    have "open_fds h' - own ctx = F \<union> held (rest_fds ?c)" using g'(3) s'(1) by (auto simp: fitted_def)
    moreover have "own ctx \<subseteq> open_fds h'" "mon_fd (psi ctx) = trg_fd ctx \<longrightarrow> trg_fd ctx < 0" using g'(2) by (simp_all add: owns_def)
    ultimately show ?thesis unfolding fitted_def rest_fds_fittings [OF g'(4)] using s'(1) by (auto simp: fitted_def)
  qed
  moreover have "map node_id (nodes ctx) = map node_id (nodes ?c)" "bl_sensor ctx = bl_sensor ?c"
    using g'(4) by (simp_all add: fittings_def)
  moreover from this(1) have "snapshot_loop (nodes ctx) = snapshot_loop (nodes ?c)" by (rule snapshot_fittings)
  moreover have "prop_now base h' = prop_now base h" by (rule prop_now_grows [OF g'(6)])
  moreover have "\<exists>new. h' = new @ h0" using s'(5) g'(6) by (auto simp: grows_def)
  moreover have "list_all cache_ok (nodes ctx)" using g'(1) by (simp add: ctx_ok_def)
  ultimately show ?thesis using s' g'(5) by (simp add: safe_def)
qed

text \<open>The environment delivers the shutdown signal: to every signal descriptor, from the \<open>N\<close>th wait on.\<close>

definition delivers :: "os \<Rightarrow> nat \<Rightarrow> bool" where
  "delivers os N \<longleftrightarrow> (\<forall>h sig ep. signals os ep sig N (Ctl Signalfd (Inr sig) # h))"

lemma delivers_alive: "delivers os N \<Longrightarrow> sig_alive sig h \<Longrightarrow> signals os ep sig N h"
  unfolding delivers_def sig_alive_def using signals_ext by blast

definition served :: "(string \<Rightarrow> string) \<Rightarrow> int set \<Rightarrow> hist \<Rightarrow> int \<Rightarrow> pg_daemon \<Rightarrow> hist \<Rightarrow> bool" where
  "served base F h0 ret st h \<longleftrightarrow> ret \<le> 0 \<and> safe base F h0 st h \<and> (ret = 0 \<longrightarrow> shutdown_req (dm_context st))"

lemma opt_inv_undone: "opt_inv base h es ps g \<Longrightarrow> undone ps (prop_now base g) = prop_now base h"
  by (simp add: opt_inv_def)

lemma daemon_serve_spec:
  assumes os: "os_ok os" and p: "props_ok os base" and f: "file_is os CONF_PATH content" and d: "delivers os N"
    and u: "set_up base F h0 0 st h"
  shows "runs (daemon_serve os st h) (\<lambda>(ret, st', h'). served base F h0 ret st' h')"
proof -
  define Q where "Q = (\<lambda>(ret, st', h'). served base F h0 ret st' h')"
  have s: "safe base F h0 st h" and props: "dm_props st = []" and t: "tables_ok (dm_tables st)"
    and c: "ctx_ok (dm_context st)" "owns (dm_context st) h" and sg: "sig_alive (sig_fd (dm_context st)) h"
    using u by (simp_all add: set_up_def)
  have run: "runs (pg_epoll_run os (gov_callback os (dm_tables st)) ctx g') (\<lambda>(ret, ctx', h').
      Q (ret, st\<lparr>dm_props := ps, dm_context := ctx'\<rparr>, h'))"
    if k: "keeps_files h g" "undone ps (prop_now base g) = prop_now base h" and l: "looks g g'"
      and ctx: "ctx = (dm_context st)\<lparr>last_bat := t1, last_therm := t2, last_sweep := t3, bat_lvl := x, bat_temp := y,
        last_tick := t4, on_trigger := Some Gov_process, on_timeout := Some Gov_process\<rparr>"
    for ps g g' ctx t1 t2 t3 t4 x y
  proof -
    let ?st = "st\<lparr>dm_props := ps\<rparr>"
    have "safe base F h0 ?st g" using s k props by (intro safe_files) simp_all
    then have s1: "safe base F h0 ?st g'" using steady_looks [OF l] by (rule safe_steady)
    then have "safe base F h0 (?st\<lparr>dm_context := ctx\<rparr>) g'"
      unfolding ctx by (simp add: safe_def fitted_def rest_fds_def sensor_fds_def own_def nodes_def tracks_def)
    then have s2: "safe base F h0 (?st\<lparr>dm_context := ctx\<rparr>) g'" .
    have ok: "ctx_ok ctx" using c(1) unfolding ctx by (simp add: ctx_ok_def nodes_def)
    have ow: "owns ctx g'" using s2 by (auto simp: safe_def intro: fitted_owns)
    have "sig_alive (sig_fd ctx) g"
      using sg sig_alive_keeps [OF _ _ sig_alive_open [OF sg]] k(1) unfolding ctx by (simp add: keeps_files_def)
    then have al: "sig_alive (sig_fd ctx) g'"
      using sig_alive_keeps [OF _ _ sig_alive_open] l balanced_keeps [of g g'] by (blast intro: subset_refl looks_balanced)
    then have sig: "signals os ep (sig_fd ctx) N g'" for ep using d by (rule delivers_alive [rotated])
    have "sig_fd ctx \<in> held (rest_fds ctx)" using al by (simp add: rest_fds_def sensor_fds_def sig_alive_def)
    then have sgo: "sig_fd ctx \<in> open_fds g' - own ctx" using s2 by (auto simp: safe_def fitted_def)
    have "Q (ret, ?st\<lparr>dm_context := ctx'\<rparr>, h')" if "gov_left (dm_tables st) ctx g' ret ctx' h'" for ret ctx' h'
      using that safe_served [OF s2, of "dm_tables st" ctx' h'] by (simp add: Q_def served_def gov_left_def)
    then show ?thesis
      by (intro runs_mono [OF gov_run_spec [OF os t ok ow sgo sig]]) auto
  qed
  have go: "runs (do {
      (ctx, h) \<leftarrow> first_readings os (dm_context st) g;
      let (ctx, h) = pg_gov_init os ctx h;
      let ctx = ctx\<lparr>on_trigger := Some Gov_process, on_timeout := Some Gov_process\<rparr>;
      (ret, ctx, h) \<leftarrow> pg_epoll_run os (gov_callback os (dm_tables st)) ctx h;
      Some (ret, st\<lparr>dm_props := ps, dm_context := ctx\<rparr>, h) }) Q"
    if k: "keeps_files h g" "undone ps (prop_now base g) = prop_now base h" for ps g
    unfolding runs_simps(3)
  proof (rule runs_mono [OF first_readings_spec [OF os]], clarify)
    fix g' t1 t2 t3 x y assume l: "looks g g'"
    show "runs (let (ctx, h) = pg_gov_init os ((dm_context st)\<lparr>last_bat := t1, last_therm := t2, last_sweep := t3, bat_lvl := x, bat_temp := y\<rparr>) g';
        ctx = ctx\<lparr>on_trigger := Some Gov_process, on_timeout := Some Gov_process\<rparr> in do {
        (ret, ctx, h) \<leftarrow> pg_epoll_run os (gov_callback os (dm_tables st)) ctx h;
        Some (ret, st\<lparr>dm_props := ps, dm_context := ctx\<rparr>, h) }) Q"
      using run [OF k looks_Cons [OF l] refl]
      by (simp add: pg_gov_init_def sys_clock_def Let_def case_prod_unfold)
  qed
  show ?thesis
    unfolding daemon_serve_def props Q_def [symmetric] runs_simps(3)
    by (rule runs_mono [OF opt_init_spec [OF os p f]]) (clarify, erule go, erule opt_inv_undone)
qed

end
