(* ===== verification/Pg_End.thy ===== *)
theory Pg_End
  imports Pg_Life
begin

text \<open>
  How the daemon ends: the nodes get back the values found at the start, the properties theirs, and
  every descriptor is closed.  The properties of the whole life follow.
\<close>

section \<open>The nodes\<close>

text \<open>The newest write to a node, with its result.\<close>

fun last_try :: "int \<Rightarrow> hist \<Rightarrow> (string \<times> (int + nat)) option" where
  "last_try fd [] = None"
| "last_try fd (Pwrite fd' b r # h) = (if fd' = fd then Some (b, r) else last_try fd h)"
| "last_try fd (ev # h) = last_try fd h"

text \<open>
  Nothing was written completely through the descriptor, or the newest complete write is the value, or
  the newest write of all is the value, and did not go through.
\<close>

definition restored :: "int \<Rightarrow> u64 \<Rightarrow> hist \<Rightarrow> bool" where
  "restored fd v h \<longleftrightarrow> last_done fd h \<in> {None, Some (pg_fmt_u64 v)} \<or> (\<exists>r. last_try fd h = Some (pg_fmt_u64 v, r))"

definition writes_node :: "int \<Rightarrow> event \<Rightarrow> bool" where
  "writes_node fd e \<longleftrightarrow> (\<exists>b r. e = Pwrite fd b r)"

lemma restored_Cons: "(\<And>b r. e \<noteq> Pwrite fd b r) \<Longrightarrow> restored fd v (e # h) = restored fd v h"
proof -
  assume n: "\<And>b r. e \<noteq> Pwrite fd b r"
  have "last_try fd (e # h) = last_try fd h" using n by (cases "(fd, e # h)" rule: last_try.cases) auto
  moreover have "last_done fd (e # h) = last_done fd h" using n by (cases "(fd, e # h)" rule: last_done.cases) auto
  ultimately show ?thesis by (simp add: restored_def)
qed

lemma restored_append: "\<forall>e \<in> set new. \<not> writes_node fd e \<Longrightarrow> restored fd v (new @ h) = restored fd v h"
proof (induction new)
  case (Cons e new)
  then have "restored fd v (e # new @ h) = restored fd v (new @ h)" by (intro restored_Cons) (auto simp: writes_node_def)
  then show ?case using Cons by simp
qed simp

lemma last_try_events: "last_try fd (write_events fd b r k @ h) = Some (b, r)"
  by (simp add: write_events_def)

lemma restore_node:
  assumes os: "os_ok os" and c: "cache_ok c"
  shows "runs (pg_sysfs_restore os c h) (\<lambda>(c', h'). node_id c' = node_id c \<and> cache_ok c' \<and> grows (\<lambda>e. sc_active c \<and> writes_node (sc_fd c) e) h h' \<and>
    (sc_active c \<and> sc_has_base c \<and> cache_tracks c h \<longrightarrow> restored (sc_fd c) (ucast (sc_base c)) h'))"
proof (cases "sc_active c \<and> sc_has_base c \<and> sc_last c \<noteq> UINT64_MAX \<and> sc_last c \<noteq> ucast (sc_base c)")
  case False
  then show ?thesis using c by (auto simp: pg_sysfs_restore_def restored_def cache_tracks_def)
next
  case True
  have fd: "0 \<le> sc_fd c" using True c by (simp add: cache_ok_def)
  have g: "grows (\<lambda>e. sc_active c \<and> writes_node (sc_fd c) e) h (write_events (sc_fd c) b r k @ h)" for b r k
    using True by (auto simp: writes_node_def write_events_def)
  show ?thesis
    using True c g unfolding pg_sysfs_restore_def
    by (auto simp: restored_def last_try_events node_id_def cache_ok_def
        intro!: runs_mono [OF write_strm_spec [OF os fd, of "ucast (sc_base c)" h]])
qed

text \<open>
  The nodes are restored one after the other; \<open>homeward k c0 h0 ctx h\<close>: the first \<open>k\<close> are, the others
  are as they were in the state \<open>c0\<close> and history \<open>h0\<close> the restoring began with.
\<close>

definition homeward :: "nat \<Rightarrow> pg_context \<Rightarrow> hist \<Rightarrow> pg_context \<Rightarrow> hist \<Rightarrow> bool" where
  "homeward k c0 h0 ctx h \<longleftrightarrow> fittings ctx = fittings c0 \<and> psi ctx = psi c0 \<and> trg_fd ctx = trg_fd c0 \<and>
     shutdown_req ctx = shutdown_req c0 \<and> list_all cache_ok (nodes ctx) \<and> grows (\<lambda>e. \<exists>fd. writes_node fd e) h0 h \<and>
     (\<forall>i < 6. sc_active (nodes c0 ! i) \<longrightarrow>
       (if i < k then sc_has_base (nodes c0 ! i) \<longrightarrow> restored (sc_fd (nodes c0 ! i)) (ucast (sc_base (nodes c0 ! i))) h
        else cache_tracks (nodes ctx ! i) h))"

definition frame :: "pg_context \<Rightarrow> pg_temp_sensor \<times> pg_temp_sensor \<times> pg_bat_sensor \<times> pg_bl_sensor \<times> int \<times> int \<times> bool \<times> pg_psi_monitor \<times> int \<times> bool" where
  "frame ctx = (cpu_temp_sensor ctx, bat_temp_sensor ctx, bat_cap_sensor ctx, bl_sensor ctx, sig_fd ctx, lock_fd ctx, dormant ctx,
     psi ctx, trg_fd ctx, shutdown_req ctx)"

lemma cache_tracks_other: "\<forall>e \<in> set new. writes_node d e \<Longrightarrow> d \<noteq> sc_fd c \<Longrightarrow> cache_tracks c (new @ h) = cache_tracks c h"
proof (induction new)
  case (Cons e new)
  then obtain b r where "e = Pwrite d b r" by (auto simp: writes_node_def)
  then have "last_done (sc_fd c) (e # new @ h) = last_done (sc_fd c) (new @ h)" using Cons.prems(2) by (cases r) auto
  then show ?case using Cons by (simp add: cache_tracks_def)
qed simp

lemma homeward_step:
  assumes os: "os_ok os" and t: "tracks c0 h0" and w: "homeward k c0 h0 ctx h" and k: "k < 6"
    and put: "\<And>c'. nodes (put c') = (nodes ctx)[k := c']" "\<And>c'. frame (put c') = frame ctx"
  shows "runs (pg_sysfs_restore os (nodes ctx ! k) h) (\<lambda>(c', h'). homeward (Suc k) c0 h0 (put c') h')"
proof -
  let ?c = "nodes ctx ! k"
  have l: "length (nodes ctx) = 6" "length (nodes c0) = 6" by (simp_all add: nodes_def)
  have id: "map node_id (nodes ctx) = map node_id (nodes c0)" using w by (simp add: homeward_def fittings_def)
  have same: "node_id (nodes ctx ! i) = node_id (nodes c0 ! i)" if "i < 6" for i
    using arg_cong [OF id, of "\<lambda>xs. xs ! i"] that l by simp
  have ck: "cache_ok ?c" using w k l by (simp add: homeward_def list_all_length)
  have fin: "homeward (Suc k) c0 h0 (put c') h'"
    if r: "node_id c' = node_id ?c" "cache_ok c'" "grows (\<lambda>e. sc_active ?c \<and> writes_node (sc_fd ?c) e) h h'"
      "sc_active ?c \<and> sc_has_base ?c \<and> cache_tracks ?c h \<longrightarrow> restored (sc_fd ?c) (ucast (sc_base ?c)) h'" for c' h'
  proof -
    obtain new where new: "h' = new @ h" "\<forall>e \<in> set new. sc_active ?c \<and> writes_node (sc_fd ?c) e" using r(3) by (auto simp: grows_def)
    have "map node_id (nodes (put c')) = map node_id (nodes c0)"
      using id r(1) same [OF k] k l by (simp add: put(1) map_update list_update_same_conv)
    then have f: "fittings (put c') = fittings c0"
      using w put(2) [of c'] by (simp add: homeward_def fittings_def frame_def)
    have node: "if i < Suc k then sc_has_base (nodes c0 ! i) \<longrightarrow> restored (sc_fd (nodes c0 ! i)) (ucast (sc_base (nodes c0 ! i))) h'
        else cache_tracks (nodes (put c') ! i) h'" if i: "i < 6" "sc_active (nodes c0 ! i)" for i
    proof (cases "i = k")
      case True
      then show ?thesis using same [OF k] r(4) w i by (auto simp: homeward_def node_id_def)
    next
      case False
      have old: "if i < k then sc_has_base (nodes c0 ! i) \<longrightarrow> restored (sc_fd (nodes c0 ! i)) (ucast (sc_base (nodes c0 ! i))) h
        else cache_tracks (nodes ctx ! i) h" using w i by (simp add: homeward_def)
      show ?thesis
      proof (cases "sc_active (nodes c0 ! k)")
        case True
        then have "sc_fd (nodes c0 ! i) \<noteq> sc_fd (nodes c0 ! k)" using t i k False by (auto simp: tracks_def)
        then have n: "sc_fd ?c \<noteq> sc_fd (nodes c0 ! i)" "sc_fd (nodes ctx ! i) = sc_fd (nodes c0 ! i)"
          using same [OF k] same [OF i(1)] by (auto simp: node_id_def)
        have "\<forall>e \<in> set new. \<not> writes_node (sc_fd (nodes c0 ! i)) e" using new(2) n(1) by (auto simp: writes_node_def)
        then show ?thesis
          using old False k l n restored_append [of new "sc_fd (nodes c0 ! i)"] cache_tracks_other [of new "sc_fd ?c" "nodes ctx ! i" h] new(2)
          by (auto simp: put(1) new(1) split: if_splits)
      next
        case inactive: False
        then have "\<not> sc_active ?c" using same [OF k] by (simp add: node_id_def)
        then have "h' = h" using new by (cases new) auto
        then show ?thesis using old False k l by (auto simp: put(1) split: if_splits)
      qed
    qed
    have "list_all cache_ok (nodes (put c'))"
      using w r(2) by (auto simp: homeward_def put(1) list_all_iff dest: set_update_subset_insert [THEN subsetD])
    moreover have "grows (\<lambda>e. \<exists>fd. writes_node fd e) h h'" by (rule grows_mono [OF r(3)]) blast
    then have "grows (\<lambda>e. \<exists>fd. writes_node fd e) h0 h'" using w by (auto simp: homeward_def intro: grows_trans)
    ultimately show ?thesis using f node w put(2) [of c'] by (simp add: homeward_def frame_def)
  qed
  show ?thesis by (rule runs_mono [OF restore_node [OF os ck]]) (auto intro: fin)
qed

lemmas end_defs = nodes_def frame_def

lemma homeward_start: "tracks ctx h \<Longrightarrow> list_all cache_ok (nodes ctx) \<Longrightarrow> homeward 0 ctx h ctx h"
  by (simp add: homeward_def tracks_def)

lemma restore_nodes:
  assumes os: "os_ok os" and t: "tracks c0 h0"
  shows "homeward 0 c0 h0 ctx h \<Longrightarrow> runs (pg_sysfs_restore os (sched_lat ctx) h) (\<lambda>(c, h'). homeward 1 c0 h0 (ctx\<lparr>sched_lat := c\<rparr>) h')"
    "homeward 1 c0 h0 ctx h \<Longrightarrow> runs (pg_sysfs_restore os (sched_gran ctx) h) (\<lambda>(c, h'). homeward 2 c0 h0 (ctx\<lparr>sched_gran := c\<rparr>) h')"
    "homeward 2 c0 h0 ctx h \<Longrightarrow> runs (pg_sysfs_restore os (sched_wake ctx) h) (\<lambda>(c, h'). homeward 3 c0 h0 (ctx\<lparr>sched_wake := c\<rparr>) h')"
    "homeward 3 c0 h0 ctx h \<Longrightarrow> runs (pg_sysfs_restore os (sched_mig ctx) h) (\<lambda>(c, h'). homeward 4 c0 h0 (ctx\<lparr>sched_mig := c\<rparr>) h')"
    "homeward 4 c0 h0 ctx h \<Longrightarrow> runs (pg_sysfs_restore os (sched_walt ctx) h) (\<lambda>(c, h'). homeward 5 c0 h0 (ctx\<lparr>sched_walt := c\<rparr>) h')"
    "homeward 5 c0 h0 ctx h \<Longrightarrow> runs (pg_sysfs_restore os (sched_ucl ctx) h) (\<lambda>(c, h'). homeward 6 c0 h0 (ctx\<lparr>sched_ucl := c\<rparr>) h')"
  subgoal using homeward_step [OF os t, of 0 ctx h "\<lambda>c. ctx\<lparr>sched_lat := c\<rparr>"] by (simp add: end_defs)
  subgoal using homeward_step [OF os t, of 1 ctx h "\<lambda>c. ctx\<lparr>sched_gran := c\<rparr>"] by (simp add: end_defs numeral_eq_Suc)
  subgoal using homeward_step [OF os t, of 2 ctx h "\<lambda>c. ctx\<lparr>sched_wake := c\<rparr>"] by (simp add: end_defs numeral_eq_Suc)
  subgoal using homeward_step [OF os t, of 3 ctx h "\<lambda>c. ctx\<lparr>sched_mig := c\<rparr>"] by (simp add: end_defs numeral_eq_Suc)
  subgoal using homeward_step [OF os t, of 4 ctx h "\<lambda>c. ctx\<lparr>sched_walt := c\<rparr>"] by (simp add: end_defs numeral_eq_Suc)
  subgoal using homeward_step [OF os t, of 5 ctx h "\<lambda>c. ctx\<lparr>sched_ucl := c\<rparr>"] by (simp add: end_defs numeral_eq_Suc)
  done

lemma restore_all_spec:
  assumes os: "os_ok os" and t: "tracks (dm_context st) h" "list_all cache_ok (nodes (dm_context st))"
  shows "runs (restore_all os st h) (\<lambda>(st', h'). homeward 6 (dm_context st) h (dm_context st') h' \<and> dm_props st' = dm_props st \<and>
    rs_tbl st' = rs_tbl st \<and> rs_cnt st' = 0)"
proof -
  define c0 where "c0 = dm_context st"
  define Q where "Q = (\<lambda>(st' :: pg_daemon, h'). homeward 6 c0 h (dm_context st') h' \<and> dm_props st' = dm_props st \<and> rs_tbl st' = rs_tbl st \<and> rs_cnt st' = 0)"
  have fin: "Q (st\<lparr>dm_context := ctx, rs_cnt := 0\<rparr>, h')" if "homeward 6 c0 h ctx h'" for ctx h'
    using that by (simp add: Q_def)
  note r = restore_nodes [OF os t(1), folded c0_def]
  have start: "homeward 0 c0 h c0 h" using homeward_start [OF t] by (simp add: c0_def)
  show ?thesis
    unfolding restore_all_def Let_def c0_def [symmetric] Q_def [symmetric] runs_simps
    by (auto intro!: runs_mono [OF r(1) [OF start]] fin
      runs_mono [OF r(2) [of "c0\<lparr>sched_lat := a\<rparr>" for a, simplified]]
      runs_mono [OF r(3) [of "c0\<lparr>sched_lat := a, sched_gran := b\<rparr>" for a b, simplified]]
      runs_mono [OF r(4) [of "c0\<lparr>sched_lat := a, sched_gran := b, sched_wake := c\<rparr>" for a b c, simplified]]
      runs_mono [OF r(5) [of "c0\<lparr>sched_lat := a, sched_gran := b, sched_wake := c, sched_mig := d\<rparr>" for a b c d, simplified]]
      runs_mono [OF r(6) [of "c0\<lparr>sched_lat := a, sched_gran := b, sched_wake := c, sched_mig := d, sched_walt := e\<rparr>" for a b c d e, simplified]])
qed

section \<open>The descriptors\<close>

fun shut :: "int list \<Rightarrow> hist \<Rightarrow> hist" where
  "shut [] h = h"
| "shut (fd # fds) h = shut fds (if 0 \<le> fd then Close fd # h else h)"

lemma shut_eq: "shut fds h = rev (map Close (filter (\<lambda>fd. 0 \<le> fd) fds)) @ h"
  by (induction fds arbitrary: h) auto

lemma shut_append [simp]: "shut (xs @ ys) h = shut ys (shut xs h)"
  by (induction xs arbitrary: h) auto

lemma shut_fds: "open_fds (shut fds h) = open_fds h - held fds"
  by (induction fds arbitrary: h) auto

lemma shut_grows: "grows calm h (shut fds h)"
  by (auto simp: shut_eq quiet_calm)

lemma shut_bl: "bl_ok s \<Longrightarrow> snd (pg_sensor_bl_close s h) = shut (take (bl_n s) (bl_fd s)) h"
  using bl_close_loop_eq [of "bl_n s" "bl_fd s" h]
  by (simp add: pg_sensor_bl_close_def case_prod_unfold bl_ok_def shut_eq)

lemma shut_parts: "pg_psi_close_trg fd h = shut [fd] h" "pg_signal_close fd h = shut [fd] h" "pg_lockfile_close fd h = shut [fd] h"
  "snd (pg_psi_cleanup mon h) = shut [mon_fd mon] h" "snd (pg_sensor_temp_close t h) = shut [ts_fd t] h"
  "snd (pg_sensor_bat_close b h) = shut [bs_fd b] h" "snd (pg_sysfs_cache_cleanup c h) = shut [sc_fd c] h"
  by (simp_all add: pg_psi_close_trg_def pg_signal_close_def pg_lockfile_close_def pg_psi_cleanup_def pg_sensor_temp_close_def
      pg_sensor_bat_close_def pg_sysfs_cache_cleanup_def sys_close_def)

definition close_list :: "pg_context \<Rightarrow> int list" where
  "close_list ctx = [trg_fd ctx, sig_fd ctx, lock_fd ctx, mon_fd (psi ctx), ts_fd (cpu_temp_sensor ctx), ts_fd (bat_temp_sensor ctx),
     bs_fd (bat_cap_sensor ctx)] @ take (bl_n (bl_sensor ctx)) (bl_fd (bl_sensor ctx)) @ map sc_fd (nodes ctx)"

lemma close_list_all: "held (close_list ctx) = own ctx \<union> held (rest_fds ctx)"
  by (auto simp: close_list_def own_def rest_fds_def sensor_fds_def split: if_splits)

lemma cleanup_eq:
  assumes r: "restore_all os st h = Some (st1, h1)" and b: "bl_ok (bl_sensor (dm_context st1))"
  shows "\<exists>st'. cleanup_context os st h = Some (st', shut (close_list (dm_context st1)) (opt_exit_loop os (rev (dm_props st1)) h1)) \<and>
    dm_props st' = [] \<and> rs_tbl st' = rs_tbl st1 \<and> rs_cnt st' = rs_cnt st1 \<and> shutdown_req (dm_context st') = shutdown_req (dm_context st1)"
proof -
  define c where "c = dm_context st1"
  define h2 where "h2 = opt_exit_loop os (rev (dm_props st1)) h1"
  have o: "pg_opt_exit os (dm_props st1) h1 = ([], h2)" by (simp add: pg_opt_exit_def h2_def)
  have skip: "(if 0 \<le> fd then shut [fd] g else g) = shut [fd] g" for fd g by simp
  have all: "shut (close_list c) h2 = shut [sc_fd (sched_ucl c)] (shut [sc_fd (sched_walt c)] (shut [sc_fd (sched_mig c)]
      (shut [sc_fd (sched_wake c)] (shut [sc_fd (sched_gran c)] (shut [sc_fd (sched_lat c)] (shut (take (bl_n (bl_sensor c)) (bl_fd (bl_sensor c)))
      (shut [bs_fd (bat_cap_sensor c)] (shut [ts_fd (bat_temp_sensor c)] (shut [ts_fd (cpu_temp_sensor c)] (shut [mon_fd (psi c)]
      (shut [lock_fd c] (shut [sig_fd c] (shut [trg_fd c] h2)))))))))))))"
    by (simp add: close_list_def nodes_def split del: if_split)
  show ?thesis
    using b unfolding cleanup_context_def r o Let_def case_prod_unfold Option.bind.simps(2) fst_conv snd_conv c_def [symmetric]
      shut_parts skip shut_bl h2_def [symmetric] all
    by (simp add: shut_bl del: shut.simps)
qed

section \<open>The end\<close>

lemma fds_idle: "grows P h h' \<Longrightarrow> (\<And>e. P e \<Longrightarrow> idle e) \<Longrightarrow> open_fds h' = open_fds h"
  by (intro balanced_fds balanced_grows) (rule grows_mono)

lemma snapshot_nodes: "(fd, v) \<in> set (snapshot_loop cs) \<longleftrightarrow> (\<exists>c \<in> set cs. sc_active c \<and> sc_has_base c \<and> fd = sc_fd c \<and> v = ucast (sc_base c))"
  by (induction cs) auto

text \<open>What is true at the end, of the life that began in \<open>h0\<close>.\<close>

definition ended :: "(string \<Rightarrow> string) \<Rightarrow> hist \<Rightarrow> pg_daemon \<Rightarrow> hist \<Rightarrow> bool" where
  "ended base h0 st h \<longleftrightarrow> open_fds h = open_fds h0 \<and> (\<forall>(fd, v) \<in> set (rs_tbl st). restored fd v h) \<and> rs_cnt st = 0 \<and> dm_props st = [] \<and>
     (\<forall>n. (\<forall>v r. Ctl (Prop_set n v) r \<in> set h \<longrightarrow> r = Inr 0 \<and> length v < 92) \<longrightarrow> prop_now base h n = prop_now base h0 n)"

lemma cleanup_spec:
  assumes os: "os_ok os" and s: "safe base (open_fds h0) h0 st h"
  shows "runs (cleanup_context os st h) (\<lambda>(st', h'). ended base h0 st' h' \<and> shutdown_req (dm_context st') = shutdown_req (dm_context st))"
proof -
  let ?c = "dm_context st"
  have s': "fitted (open_fds h0) ?c h" "tracks ?c h" "list_all cache_ok (nodes ?c)" "bl_ok (bl_sensor ?c)"
    "rs_tbl st = snapshot_loop (nodes ?c)" "undone (dm_props st) (prop_now base h) = prop_now base h0"
    using s by (simp_all add: safe_def)
  show ?thesis
  proof (rule runs_Some [OF restore_all_spec [OF os s'(2,3)]], clarify)
    fix st1 :: pg_daemon and h1
    assume r: "restore_all os st h = Some (st1, h1)" and w: "homeward 6 ?c h (dm_context st1) h1" and p: "dm_props st1 = dm_props st"
      and t: "rs_tbl st1 = rs_tbl st" "rs_cnt st1 = 0"
    let ?c1 = "dm_context st1"
    have f: "fittings ?c1 = fittings ?c" "psi ?c1 = psi ?c" "trg_fd ?c1 = trg_fd ?c" "shutdown_req ?c1 = shutdown_req ?c"
      and g: "grows (\<lambda>e. \<exists>fd. writes_node fd e) h h1" using w by (simp_all add: homeward_def)
    have held: "held (close_list ?c1) = own ?c \<union> held (rest_fds ?c)"
      using f(2,3) rest_fds_fittings [OF f(1)] by (simp add: close_list_all own_def)
    have w': "idle e \<and> \<not> sets_prop e" if "\<exists>fd. writes_node fd e" for e using that by (auto simp: writes_node_def)
    have o1: "open_fds h1 = open_fds h" by (rule fds_idle [OF g]) (simp add: w')
    have p1: "prop_now base h1 = prop_now base h" by (rule prop_now_grows, rule grows_mono [OF g]) (simp add: w')
    obtain new where new: "opt_exit_loop os (rev (dm_props st1)) h1 = new @ h1" "\<forall>e \<in> set new. sets_prop e"
      and undo: "\<And>n. (\<forall>v r. Ctl (Prop_set n v) r \<in> set new \<longrightarrow> r = Inr 0 \<and> length v < 92) \<Longrightarrow> prop_now base (new @ h1) n = prop_now base h0 n"
      using opt_exit_spec [of os "dm_props st1" h1 base] p p1 s'(6) by auto
    have sp: "idle e \<and> \<not> writes_node fd e" if "sets_prop e" for e fd using that by (cases e rule: sets_prop.cases) (auto simp: writes_node_def)
    have o2: "open_fds (new @ h1) = open_fds h1" by (rule fds_idle [of sets_prop]) (use new(2) sp in auto)
    define h3 where "h3 = shut (close_list ?c1) (new @ h1)"
    obtain cl where cl: "h3 = cl @ new @ h1" "\<forall>e \<in> set cl. calm e" using shut_grows [of "new @ h1" "close_list ?c1"] by (auto simp: h3_def grows_def)
    have bl: "bl_ok (bl_sensor ?c1)" using f(1) s'(4) by (simp add: fittings_def)
    obtain st' where st': "cleanup_context os st h = Some (st', h3)" "dm_props st' = []" "rs_tbl st' = rs_tbl st1" "rs_cnt st' = rs_cnt st1"
      "shutdown_req (dm_context st') = shutdown_req ?c1"
      using cleanup_eq [OF r bl] by (auto simp: new(1) h3_def)
    have "open_fds h3 = open_fds h0"
      using s'(1) by (auto simp: h3_def shut_fds held o2 o1 fitted_def)
    moreover have "restored fd v h3" if fv: "(fd, v) \<in> set (rs_tbl st')" for fd v
    proof -
      obtain c where c: "c \<in> set (nodes ?c)" "sc_active c" "sc_has_base c" "fd = sc_fd c" "v = ucast (sc_base c)"
        using fv unfolding st'(3) t s'(5) snapshot_nodes by blast
      have "length (nodes ?c) = 6" by (simp add: nodes_def)
      then obtain i where i: "i < 6" "nodes ?c ! i = c" using c(1) by (auto simp: in_set_conv_nth)
      have r1: "restored fd v h1" using w c i by (auto simp: homeward_def)
      have "\<forall>e \<in> set (cl @ new). \<not> writes_node fd e" using cl(2) new(2) sp by (auto simp: calm_def writes_node_def)
      then show ?thesis using r1 restored_append [of "cl @ new" fd v h1] by (simp add: cl(1))
    qed
    moreover have "prop_now base h3 n = prop_now base h0 n" if "\<forall>v r. Ctl (Prop_set n v) r \<in> set h3 \<longrightarrow> r = Inr 0 \<and> length v < 92" for n
    proof -
      have "prop_now base h3 = prop_now base (new @ h1)"
        unfolding cl(1) by (rule prop_now_append) (use cl(2) in \<open>simp add: calm_def\<close>)
      then show ?thesis using undo [of n] that by (simp add: cl(1))
    qed
    ultimately show ?thesis using st' t f(4) by (auto simp: ended_def)
  qed
qed

section \<open>The whole life\<close>

lemma set_up_failed: "set_up base F h0 ret st h \<Longrightarrow> ret \<noteq> 0 \<Longrightarrow> served base F h0 ret st h"
  by (simp add: set_up_def served_def)

lemma daemon_spec:
  assumes os: "os_ok os" and p: "props_ok os base" and f: "file_is os CONF_PATH content" and d: "delivers os N"
    and h: "\<And>fd. last_done fd h = None"
  shows "runs (pg_daemon_init os daemon_start h) (\<lambda>(ret, st', h'). ret \<le> 0 \<and> ended base h st' h' \<and>
    (ret = 0 \<longrightarrow> shutdown_req (dm_context st')))"
proof -
  let ?F = "open_fds h"
  have clean: "runs (cleanup_context os st g) (\<lambda>(st', h'). ret \<le> 0 \<and> ended base h st' h' \<and> (ret = 0 \<longrightarrow> shutdown_req (dm_context st')))"
    if "served base ?F h ret st g" for ret st g
    using that by (intro runs_mono [OF cleanup_spec [OF os, of base h]]) (auto simp: served_def)
  have prep: "runs (do { (ret, st, h) \<leftarrow> daemon_setup os st g; if ret \<noteq> 0 then Some (ret, st, h) else daemon_serve os st h })
      (\<lambda>(ret, st, h'). served base ?F h ret st h')"
    if "ready base ?F h st g" "crash_hook (dm_signal st) = Some Crash_restore" for st g
    unfolding runs_simps
    by (rule runs_mono [OF daemon_setup_spec [OF os that]]) (auto intro: daemon_serve_spec [OF os p f d] set_up_failed)
  define L where "L = (do { (ret, st, h) \<leftarrow> daemon_boot os daemon_start h;
      if ret \<noteq> 0 then Some (ret, st, h)
      else do { (ret, st, h) \<leftarrow> daemon_setup os st h; if ret \<noteq> 0 then Some (ret, st, h) else daemon_serve os st h } })"
  have life: "runs L (\<lambda>(ret, st, h'). served base ?F h ret st h')"
    unfolding L_def runs_simps(3) [of "daemon_boot os daemon_start h"]
    by (rule runs_mono [OF daemon_boot_spec [OF os h, of base]]) (auto simp: served_def simp del: runs_simps(3) intro: prep)
  have "pg_daemon_init os daemon_start h = L \<bind> (\<lambda>(ret, st, h). do { (st, h) \<leftarrow> cleanup_context os st h; Some (ret, st, h) })"
    by (simp add: pg_daemon_init_def L_def case_prod_unfold)
  then show ?thesis
    by (simp only: runs_simps(3)) (rule runs_mono [OF life], auto intro: runs_mono [OF clean])
qed

section \<open>A crash\<close>

lemma crash_writes: "\<exists>ws. crash_restore_loop os tbl h = ws @ h \<and> list_all2 (\<lambda>e (fd, v). \<exists>r. e = Pwrite fd (pg_fmt_u64 v) r) (rev ws) tbl"
proof (induction tbl arbitrary: h)
  case (Cons x tbl)
  obtain fd v where x: "x = (fd, v)" by (cases x)
  define e where "e = Pwrite fd (pg_fmt_u64 v) (os_pwrite os h fd (pg_fmt_u64 v))"
  obtain ws where "crash_restore_loop os tbl (e # h) = ws @ e # h" "list_all2 (\<lambda>e (fd, v). \<exists>r. e = Pwrite fd (pg_fmt_u64 v) r) (rev ws) tbl"
    using Cons.IH [of "e # h"] by blast
  then show ?case by (intro exI [of _ "ws @ [e]"]) (auto simp: x e_def sys_pwrite_def Let_def)
qed simp

section \<open>Properties\<close>

text \<open>
  A machine that has booted, with the sample configuration; from the first wait on it reports every
  signal descriptor, and reading one gives a full record.
\<close>

fun is_signal :: "int \<Rightarrow> hist \<Rightarrow> bool" where
  "is_signal fd [] = False"
| "is_signal fd (e # h) = (if rebinds fd e then e = Ctl Signalfd (Inr fd) else is_signal fd h)"

fun signal_fds :: "hist \<Rightarrow> int list" where
  "signal_fds [] = []"
| "signal_fds (Ctl Signalfd (Inr fd) # h) = fd # signal_fds h"
| "signal_fds (e # h) = signal_fds h"

definition life_base :: "string \<Rightarrow> string" where
  "life_base n = (if n = ''sys.boot_completed'' then ''1'' else [])"

definition life_read :: "hist \<Rightarrow> int \<Rightarrow> nat \<Rightarrow> int + string" where
  "life_read h fd n = (if is_signal fd h then Inr (replicate n CHR ''x'') else os_read (file_os CONF_PATH sample_conf) h fd n)"

definition life_os :: os where
  "life_os = sample_os\<lparr>os_read := life_read\<rparr>\<lparr>os_prop_get := prop_now life_base, os_ctl := os_ctl (opt_os sample_conf),
     os_epoll_wait := \<lambda>h ep n t. Inr (signal_fds h)\<rparr>"

lemma life_os_ok: "os_ok life_os"
proof -
  let ?f = "sample_os\<lparr>os_read := life_read\<rparr>"
  have "\<exists>s. life_read h fd n = Inr s \<and> length s \<le> n" for h fd n
    by (auto simp: life_read_def file_os_def split: option.split)
  then have f: "os_ok ?f" by (rule os_ok_read)
  have "clock_ok life_os = clock_ok ?f" "dirs_finite life_os = dirs_finite ?f" "reads_bounded life_os = reads_bounded ?f"
    by (simp_all add: clock_ok_def dirs_finite_def reads_bounded_def life_os_def)
  moreover have "fds_valid ?f \<Longrightarrow> fds_valid life_os"
    using os_okD(3) [OF opt_os_ok [of sample_conf]] by (simp add: fds_valid_def life_os_def)
  moreover have "errno_ok ?f \<Longrightarrow> errno_ok life_os"
    using os_okD(5) [OF opt_os_ok [of sample_conf]] by (simp add: errno_ok_def life_os_def)
  moreover have "sys_read life_os = sys_read ?f" "sys_pread life_os = sys_pread ?f" "sys_write life_os = sys_write ?f"
    "sys_pwrite life_os = sys_pwrite ?f" "sys_getdents life_os = sys_getdents ?f"
    by (simp_all add: fun_eq_iff sys_read_def sys_pread_def sys_write_def sys_pwrite_def sys_getdents_def life_os_def)
  ultimately show ?thesis using f by (simp add: os_ok_def eintr_fair_def)
qed

lemma signal_file: "is_signal fd h \<Longrightarrow> file_of fd h = None"
proof (induction h)
  case (Cons e h)
  then show ?case by (cases "(fd, e # h)" rule: file_of.cases) (auto split: if_splits)
qed simp

lemma life_os_file: "file_is life_os CONF_PATH sample_conf"
  using file_os_file [of CONF_PATH sample_conf] signal_file by (auto simp: file_is_def life_os_def life_read_def)

lemma life_os_props: "props_ok life_os life_base"
  by (simp add: props_ok_def life_os_def life_base_def opt_os_def)

lemma life_os_delivers: "delivers life_os 0"
proof -
  have "is_signal sig (new @ Ctl Signalfd (Inr sig) # g) \<and> sig \<in> set (signal_fds (new @ Ctl Signalfd (Inr sig) # g))"
    if "\<forall>e \<in> set new. \<not> rebinds sig e" for sig new g
    using that
  proof (induction new)
    case (Cons e new)
    then have "set (signal_fds (new @ Ctl Signalfd (Inr sig) # g)) \<subseteq> set (signal_fds (e # new @ Ctl Signalfd (Inr sig) # g))"
      by (cases "e # new @ Ctl Signalfd (Inr sig) # g" rule: signal_fds.cases) auto
    then show ?case using Cons by auto
  qed simp
  then show ?thesis
    by (auto simp: delivers_def signals_def reads_signal_def keeps_open_def grows_def life_os_def life_read_def)
qed

lemmas life = life_os_ok life_os_props life_os_file life_os_delivers

lemma no_writes_done: "\<forall>e \<in> set h. \<not> writes e \<Longrightarrow> last_done fd h = None"
proof (induction h)
  case (Cons e h)
  then have "last_done fd (e # h) = last_done fd h" by (intro last_done_Cons) auto
  then show ?case using Cons by simp
qed simp










definition sample_daemon :: pg_daemon where
  "sample_daemon = daemon_start\<lparr>rs_tbl := [(5, 7), (6, 8)], rs_cnt := 2, dm_signal := \<lparr>prev_act = replicate 4 None, crash_hook = Some Crash_restore\<rparr>\<rparr>"


end
