(* ===== verification/Pg_Log.thy ===== *)
theory Pg_Log
  imports Pg_Sysfs
begin

text \<open>
  The error log, \<^verbatim>\<open>src/sys/log.c\<close>: a token bucket in front of the output.  What the C library
  makes of the format string is the argument \<open>text\<close>, and the time stamp of \<^verbatim>\<open>localtime_r\<close> and
  \<^verbatim>\<open>strftime\<close> is the parameter \<open>stamp\<close>.  The static variables form a record.  The lemmas bound the
  number of messages that pass in any stretch of time, and account for those that do not.
\<close>

section \<open>The bucket\<close>

abbreviation (input) LOG_REFILL_MS :: u64 where "LOG_REFILL_MS \<equiv> 10000"
abbreviation (input) LOG_CREDIT_MAX :: u64 where "LOG_CREDIT_MAX \<equiv> 128 * 10000"

record pg_log_state =
  credit_ms :: u64
  last_ms :: u64
  dropped :: u32

definition log_start :: pg_log_state where
  "log_start = \<lparr>credit_ms = LOG_CREDIT_MAX, last_ms = 0, dropped = 0\<rparr>"

text \<open>\<open>None\<close>: the message is suppressed; \<open>Some n\<close>: it passes, after \<open>n\<close> that did not.\<close>

definition rate_step :: "u64 \<Rightarrow> pg_log_state \<Rightarrow> u32 option \<times> pg_log_state" where
  "rate_step now_ms st =
     (let credit = (if last_ms st \<noteq> 0
                    then let c = credit_ms st + (now_ms - last_ms st) in if LOG_CREDIT_MAX < c then LOG_CREDIT_MAX else c
                    else credit_ms st);
          st = st\<lparr>last_ms := now_ms\<rparr>
      in if credit < LOG_REFILL_MS then (None, st\<lparr>credit_ms := credit, dropped := dropped st + 1\<rparr>)
         else (Some (dropped st), st\<lparr>credit_ms := credit - LOG_REFILL_MS, dropped := 0\<rparr>))"

definition should_rate_limit :: "os \<Rightarrow> pg_log_state \<Rightarrow> hist \<Rightarrow> (u32 option \<times> pg_log_state) \<times> hist" where
  "should_rate_limit os st h =
     (let (mono, h) = sys_clock os CLOCK_MONOTONIC h;
          now_ms = tv_sec mono * 1000 + tv_nsec mono div 1000000
      in (rate_step now_ms st, h))"

section \<open>A message\<close>

definition log_msg :: "string \<Rightarrow> u32 \<Rightarrow> string" where
  "log_msg text n =
     (let msg = take 255 text
      in if n \<noteq> 0 then take 255 (msg @ '' (+'' @ decimal (unat n) @ '' suppressed)'') else msg)"

definition log_line :: "string \<Rightarrow> string \<Rightarrow> string \<Rightarrow> string" where
  "log_line ts tag msg = take 299 (''['' @ ts @ ''] ['' @ tag @ ''] [E] '' @ msg @ [newline])"

definition pg_log_err ::
    "os \<Rightarrow> (timespec \<Rightarrow> string) \<Rightarrow> string \<Rightarrow> string \<Rightarrow> pg_log_state \<Rightarrow> hist \<Rightarrow> pg_log_state \<times> hist" where
  "pg_log_err os stamp tag text st h =
     (case should_rate_limit os st h of
        ((None, st), h) \<Rightarrow> (st, h)
      | ((Some n, st), h) \<Rightarrow>
          let msg = log_msg text n;
              (now, h) = sys_clock os CLOCK_REALTIME h;
              (unused, h) = sys_write os 2 (log_line (take 23 (stamp now)) tag msg) h
          in (st, h))"

section \<open>How much passes\<close>

text \<open>The decisions on messages at the given times.\<close>

fun rate_run :: "pg_log_state \<Rightarrow> u64 list \<Rightarrow> u32 option list \<times> pg_log_state" where
  "rate_run st [] = ([], st)"
| "rate_run st (t # ts) = (let (r, st) = rate_step t st; (rs, st) = rate_run st ts in (r # rs, st))"

definition passed :: "u32 option list \<Rightarrow> nat" where
  "passed rs = length (filter (\<lambda>r. r \<noteq> None) rs)"

text \<open>What a step adds to the bucket is at most the time that went by, and the bucket never overflows.\<close>

lemma rate_step_credit:
  assumes c: "unat (credit_ms st) \<le> 1280000" and t: "last_ms st \<le> t" "unat t < 2 ^ 63"
    and r: "rate_step t st = (r, st')"
  shows "unat (credit_ms st') + (if r = None then 0 else 10000) \<le>
      min 1280000 (unat (credit_ms st) + (unat t - unat (last_ms st)))"
    "last_ms st' = t"
proof -
  define e where "e = credit_ms st + (t - last_ms st)"
  have d: "unat (t - last_ms st) = unat t - unat (last_ms st)" using t(1) by (simp add: unat_sub)
  have e: "unat e = unat (credit_ms st) + (unat t - unat (last_ms st))"
    unfolding e_def d [symmetric] using c t(2) d by (subst unat_add_lem [THEN iffD1]) auto
  define cr where "cr = (if last_ms st \<noteq> 0 then if LOG_CREDIT_MAX < e then LOG_CREDIT_MAX else e else credit_ms st)"
  have cr: "unat cr \<le> min 1280000 (unat (credit_ms st) + (unat t - unat (last_ms st)))"
    using c e by (auto simp: cr_def word_less_nat_alt)
  have sub: "unat (cr - 10000) = unat cr - 10000" if "\<not> cr < 10000"
    using that by (simp add: unat_sub word_less_nat_alt word_le_nat_alt)
  have "rate_step t st = (if cr < LOG_REFILL_MS then (None, st\<lparr>last_ms := t, credit_ms := cr, dropped := dropped st + 1\<rparr>)
     else (Some (dropped st), st\<lparr>last_ms := t, credit_ms := cr - LOG_REFILL_MS, dropped := 0\<rparr>))"
    by (simp add: rate_step_def Let_def cr_def e_def)
  then have "(r, st') = (if cr < LOG_REFILL_MS then (None, st\<lparr>last_ms := t, credit_ms := cr, dropped := dropped st + 1\<rparr>)
     else (Some (dropped st), st\<lparr>last_ms := t, credit_ms := cr - LOG_REFILL_MS, dropped := 0\<rparr>))" using r by simp
  then show "unat (credit_ms st') + (if r = None then 0 else 10000) \<le>
      min 1280000 (unat (credit_ms st) + (unat t - unat (last_ms st)))" "last_ms st' = t"
    using cr sub by (auto simp: word_less_nat_alt split: if_splits)
qed

lemma rate_run_credit:
  "unat (credit_ms st) \<le> 1280000 \<Longrightarrow> sorted (last_ms st # ts) \<Longrightarrow> unat (last (last_ms st # ts)) < 2 ^ 63 \<Longrightarrow>
    10000 * passed (fst (rate_run st ts)) \<le> unat (credit_ms st) + (unat (last (last_ms st # ts)) - unat (last_ms st))"
proof (induction ts arbitrary: st)
  case (Cons t ts)
  obtain r st' where r: "rate_step t st = (r, st')" by (cases "rate_step t st")
  have le: "t \<le> last (t # ts)" using Cons.prems(2) by (cases ts) auto
  have t: "last_ms st \<le> t" "unat t < 2 ^ 63"
    using Cons.prems(2,3) le by (auto simp: word_le_nat_alt split: if_splits)
  note s = rate_step_credit [OF Cons.prems(1) t r]
  have "10000 * passed (fst (rate_run st' ts)) \<le> unat (credit_ms st') + (unat (last (t # ts)) - unat t)"
    using Cons.IH [of st'] Cons.prems(2,3) s by auto
  moreover have "passed (fst (rate_run st (t # ts))) = passed (fst (rate_run st' ts)) + (if r = None then 0 else 1)"
    by (simp add: r passed_def split: prod.splits)
  ultimately show ?case
    using s t le by (auto simp: word_le_nat_alt split: if_splits)
qed (simp add: passed_def)

lemma rate_run_passes:
  assumes c: "unat (credit_ms st) \<le> 1280000" and t: "sorted (last_ms st # t # ts)" "unat (last (t # ts)) < 2 ^ 63"
  shows "passed (fst (rate_run st (t # ts))) \<le> 128 + (unat (last (t # ts)) - unat t) div 10000"
proof -
  obtain r st' where r: "rate_step t st = (r, st')" by (cases "rate_step t st")
  have le: "t \<le> last (t # ts)" using t(1) by (cases ts) auto
  have "last_ms st \<le> t" "unat t < 2 ^ 63" using t le by (auto simp: word_le_nat_alt split: if_splits)
  note s = rate_step_credit [OF c this r]
  have "10000 * passed (fst (rate_run st' ts)) \<le> unat (credit_ms st') + (unat (last (t # ts)) - unat t)"
    using rate_run_credit [of st' ts] t s by auto
  moreover have "passed (fst (rate_run st (t # ts))) = passed (fst (rate_run st' ts)) + (if r = None then 0 else 1)"
    by (simp add: r passed_def split: prod.splits)
  ultimately have "10000 * passed (fst (rate_run st (t # ts))) \<le> 1280000 + (unat (last (t # ts)) - unat t)"
    using s(1) by (auto split: if_splits)
  then show ?thesis by linarith
qed

definition reported :: "u32 option list \<Rightarrow> u32" where
  "reported rs = sum_list (map (\<lambda>r. case r of None \<Rightarrow> 0 | Some n \<Rightarrow> n) rs)"

lemma rate_run_reported:
  "rate_run st ts = (rs, st') \<Longrightarrow> reported rs + dropped st' = dropped st + word_of_nat (length rs - passed rs)"
proof (induction ts arbitrary: st rs)
  case (Cons t ts)
  obtain r s1 where r: "rate_step t st = (r, s1)" by (cases "rate_step t st")
  obtain rs' where rs: "rate_run s1 ts = (rs', st')" "rs = r # rs'"
    using Cons.prems by (auto simp: r split: prod.splits)
  have le: "passed rs' \<le> length rs'" by (simp add: passed_def)
  have "r = None \<and> dropped s1 = dropped st + 1 \<or> r = Some (dropped st) \<and> dropped s1 = 0"
    using r by (auto simp: rate_step_def Let_def split: if_splits)
  moreover note Cons.IH [OF rs(1)]
  ultimately show ?case
    using le by (auto simp: rs(2) reported_def passed_def Suc_diff_le algebra_simps)
qed (simp add: reported_def passed_def)

text \<open>A message at least ten seconds after the last one always passes.\<close>

lemma rate_step_paced:
  assumes "last_ms st \<noteq> 0" "unat (credit_ms st) \<le> 1280000" "unat (last_ms st) + 10000 \<le> unat t" "unat t < 2 ^ 63"
  shows "fst (rate_step t st) \<noteq> None"
proof -
  define e where "e = credit_ms st + (t - last_ms st)"
  have d: "unat (t - last_ms st) = unat t - unat (last_ms st)" using assms(3) by (simp add: unat_sub word_le_nat_alt)
  have "unat e = unat (credit_ms st) + (unat t - unat (last_ms st))"
    unfolding e_def d [symmetric] using assms(2,4) d by (subst unat_add_lem [THEN iffD1]) auto
  then have "\<not> e < 10000" using assms(3) by (simp add: word_less_nat_alt)
  then show ?thesis using assms(1) by (simp add: rate_step_def Let_def e_def)
qed

lemma log_err_output:
  "\<exists>new. snd (pg_log_err os stamp tag text st h) = new @ h \<and>
    (\<forall>fd b r. Write fd b r \<in> set new \<longrightarrow> fd = 2 \<and> length b \<le> 299)"
  by (auto simp: pg_log_err_def should_rate_limit_def sys_clock_def sys_write_def Let_def log_line_def split: option.split prod.split)

section \<open>Properties\<close>

text \<open>
  C16: In any stretch of time at most 128 messages pass, and one more for every ten seconds of it,
  whatever was logged before; and none is lost uncounted: the numbers of suppressed messages that
  the passing ones report, with the number still to be reported, are those that were suppressed.
\<close>

theorem log_rate_bounded:
  assumes "unat (credit_ms st) \<le> 1280000" "sorted (last_ms st # t # ts)" "unat (last (t # ts)) < 2 ^ 63"
  shows "passed (fst (rate_run st (t # ts))) \<le> 128 + (unat (last (t # ts)) - unat t) div 10000 \<and>
    reported (fst (rate_run st (t # ts))) + dropped (snd (rate_run st (t # ts))) =
      dropped st + word_of_nat (Suc (length ts) - passed (fst (rate_run st (t # ts))))"
proof -
  obtain rs st' where r: "rate_run st (t # ts) = (rs, st')" by (cases "rate_run st (t # ts)")
  have "length (fst (rate_run st ts)) = length ts" for st ts
    by (induction ts arbitrary: st) (auto split: prod.splits, metis fst_conv)
  from this [of st "t # ts"] have "length rs = Suc (length ts)" by (simp only: r fst_conv length_Cons)
  then show ?thesis
    using rate_run_passes [OF assms] rate_run_reported [OF r] by (simp only: r fst_conv snd_conv)
qed

lemma log_rate_bounded_witness:
  "passed (fst (rate_run log_start [5, 5, 20005])) \<le> 130"
proof -
  have "unat (last [5, 5, 20005 :: u64]) - unat (5 :: u64) = 20000" by simp
  then show ?thesis using log_rate_bounded [of log_start 5 "[5, 20005]"] by (simp add: log_start_def)
qed

end
