(* ===== verification/Spec2Isabelle.thy ===== *)
theory Spec2Isabelle
  imports Pg_End Pg_Life Pg_Fleet Pg_Daemon Pg_Proc Pg_Block Pg_Log Pg_Opt Pg_Conf Pg_Loop Pg_Scan Pg_Topo Pg_Tune Pg_Sweep Pg_Task Pg_Sensor Pg_Psi Pg_Sysfs Pg_Poll Pg_Thermal Pg_Cpu Pg_Kalman Pg_Time Pg_Parser Pg_Str Pg_Math Pg_Prelude
begin

text \<open>
  A verification development for pgov, a daemon for Android devices that reads the CPU pressure, the
  temperatures and the battery, and writes scheduler parameters.  The model is of the NDK build.

  \<^bold>\<open>The program.\<close>  \<^verbatim>\<open>src/main.c\<close> calls \<^verbatim>\<open>pg_daemon_init\<close> of \<^verbatim>\<open>src/core/daemon.c\<close>, which checks the privilege, takes
  a lock file, waits for the boot, opens the scheduler nodes and notes their values, installs the crash
  handler and the limits of the process, tunes the tables to the hardware and the block devices to
  their kind, opens sensors, pressure trigger and signal descriptor, applies the options of the
  configuration file and enters the reactor of \<^verbatim>\<open>src/core/epoll.c\<close>.  On each trigger or timeout the reactor
  calls \<^verbatim>\<open>pg_gov_process\<close> of \<^verbatim>\<open>src/core/gov.c\<close>, which reads the sensors, runs the filter, the load model and the
  thermal controller, and writes six nodes through caches.  A signal ends the reactor; every path ends in
  \<^verbatim>\<open>cleanup_context\<close>, which restores nodes and properties and closes what is open.

  \<^bold>\<open>The environment.\<close>  \<open>Pg_Os\<close> holds what all components share.  The kernel, the C library and the property
  service are not under \<^verbatim>\<open>src/\<close>: they are the record \<open>os\<close>, a function per system call from the history of
  all events so far to the answer, and every model of stateful code takes and returns that history.
  So an environment may answer anything, at any time, that the documented behaviour allows.  That is
  \<open>os_ok\<close>: interrupted calls stop being interrupted (\<open>eintr_fair\<close>), reads give no more than was asked for, a
  new descriptor is not one that is open, times are well formed and the monotonic clock does not go
  back, error numbers are positive, directories are finite.  \<open>props_ok\<close> adds that nobody else sets properties,
  \<open>file_is\<close> gives the content of a file, \<open>signals\<close> and \<open>delivers\<close> say that the shutdown signal arrives, \<open>returns\<close> that an
  earlier crash handler returns.  \<open>sample_os\<close>, \<open>file_os\<close>, \<open>opt_os\<close>, \<open>signal_os\<close> and \<open>life_os\<close> are concrete
  environments that satisfy them, for the witnesses.  Of the history \<open>open_fds\<close> gives the descriptors of the
  process, \<open>last_done\<close> what was last written to a node, \<open>prop_now\<close> the value of a property, \<open>file_of\<close> the file behind a
  descriptor and what was read of it.

  Code that may loop returns an \<open>option\<close>, with \<open>None\<close> for not returning; \<open>runs m Q\<close> says that \<open>m\<close> returns with a
  result in \<open>Q\<close>, so every theorem about such code includes that it returns.

  \<^bold>\<open>Theories, files and lemmas.\<close>
  \<^item> \<open>Pg_Prelude\<close>: rewrite collections, signed words, lists.  \<open>Pg_Math\<close> (\<^verbatim>\<open>include/pg/math.h\<close>): Q16 and Q32 arithmetic on
    words; the square root is the floor of the real one, both builds of the product agree, no overflow in
    the ranges used.  \<open>Pg_Parser\<close> (\<^verbatim>\<open>include/parser.h\<close>): values, saturation and round trip of the three parsers.
    \<open>Pg_Str\<close> (\<^verbatim>\<open>include/str.h\<close>), \<open>Pg_Time\<close> (\<^verbatim>\<open>include/pg/time.h\<close>).
  \<^item> \<open>Pg_Kalman\<close>, \<open>Pg_Cpu\<close>, \<open>Pg_Thermal\<close>, \<open>Pg_Poll\<close> (\<^verbatim>\<open>src/core/\<close>): the filter, the load model with the six response maps, the
    controller and the interval; invariants of their states, ranges and monotonicity of their results.
  \<^item> \<open>Pg_Sysfs\<close> (\<^verbatim>\<open>src/sys/sysfs.c\<close>): the caches; an update refines the step relation \<open>sysfs_step\<close> and keeps
    \<open>cache_tracks\<close>, the agreement with the node.  \<open>Pg_Psi\<close>, \<open>Pg_Sensor\<close>, \<open>Pg_Scan\<close>, \<open>Pg_Topo\<close>, \<open>Pg_Task\<close>, \<open>Pg_Fs\<close>, \<open>Pg_Conf\<close>,
    \<open>Pg_Opt\<close> (with \<^verbatim>\<open>prop.c\<close>), \<open>Pg_Block\<close>, \<open>Pg_Log\<close>: the files of \<^verbatim>\<open>src/sys/\<close> of those names.  \<open>Pg_Proc\<close>: \<^verbatim>\<open>detect.c\<close>,
    \<^verbatim>\<open>lockfile.c\<close>, \<^verbatim>\<open>memory.c\<close>, \<^verbatim>\<open>rlimit.c\<close>, \<^verbatim>\<open>signal.c\<close>.  \<open>Pg_Sweep\<close>: \<^verbatim>\<open>src/core/sweep.c\<close>.  \<open>Pg_Tune\<close>: \<^verbatim>\<open>src/policy/\<close>.
  \<^item> \<open>Pg_State\<close> (\<^verbatim>\<open>include/pg/state.h\<close>) is the context; \<open>Pg_Gov\<close> the tick; \<open>Pg_Tick\<close> its invariant \<open>gov_inv\<close>: the state is
    well formed, only the governor's own descriptors change, only the nodes and the trigger are written, with values
    within the limits, and files are removed only as the sweep may.  \<open>Pg_Epoll\<close> is the reactor, \<open>Pg_Loop\<close> the
    governor under it.
  \<^item> \<open>Pg_Daemon\<close> (\<^verbatim>\<open>src/core/daemon.c\<close>, \<^verbatim>\<open>main.c\<close>): the static variables as the record \<open>pg_daemon\<close>, and the life of the
    daemon in the stages \<open>daemon_boot\<close>, \<open>daemon_setup\<close>, \<open>daemon_serve\<close> and \<open>cleanup_context\<close>.  \<open>Pg_Fleet\<close>, \<open>Pg_Life\<close> and
    \<open>Pg_End\<close> follow the descriptors (\<open>fitted\<close>: those open are the ones from before and exactly those of the
    state), the caches (\<open>tracks\<close>) and the properties (\<open>undone\<close>) through the stages.  \<open>daemon_spec\<close> composes all
    components: the daemon ends, leaves no descriptor behind and restores nodes and properties.

  \<^bold>\<open>Interfaces.\<close>  The locale \<open>reactor\<close> is what the reactor asks of a callback, interpreted by the
  governor (\<open>gov\<close> in \<open>Pg_Loop\<close>); \<open>conf_client\<close> what the parser asks of its client, interpreted by a recorder
  of the entries and by the options; \<open>visitor\<close> what a directory walk asks of the function it calls on the
  entries, interpreted by the sweep; \<open>random_source\<close> what the jitter of the polling asks of the random numbers,
  interpreted by both of the sources the code can be built with (\<open>lcg\<close>, \<open>xorshift\<close>).

  \<^bold>\<open>Loops, fuel and bounds.\<close>  There is no fuel in the definitions: loops over data are structural, those with a
  counter have a measure (the boot: at most 301 looks), and loops that only the environment ends are
  partial functions (\<open>retry_eintr\<close>, \<open>epoll_loop\<close>, reading of files and directories), shown to return under \<open>os_ok\<close>; the reactor
  under \<open>signals\<close>, by \<open>epoll_iters\<close>, the first iterations, of which one more than the waits before the signal is
  enough.  C integers keep their width as words wherever the code computes with them.

  \<^bold>\<open>Not modelled.\<close>  The log calls in the components and the call into the Android log in \<^verbatim>\<open>log.c\<close>, which
  only print; the text the C library formats is a parameter of the log.  The build without \<^verbatim>\<open>NDK_BUILD\<close>, but for the
  portable arithmetic and random source, which both are modelled.  The attributes and path constants of
  \<^verbatim>\<open>compiler.h\<close> and \<^verbatim>\<open>paths.h\<close>, without behaviour.  Null pointer guards, since records and strings are
  values.  A crash is modelled by its handler, not as an interruption at each point of the life.
\<close>

end
